(* ===== verification/Prelude.thy ===== *)
theory Prelude
  imports Main "HOL-Library.Word" "HOL-Library.List_Lexorder"
begin

unbundle bit_operations_syntax

text \<open>
  Shared vocabulary of the development: the machine integers of the Rust sources, byte strings,
  Rust's \<open>Result\<close> with its question-mark operator, checked and saturating arithmetic,
  big-endian integers and the generic lemmas the component theories rest on.
\<close>

subsection \<open>Machine integers, byte strings, results\<close>

type_synonym u8 = "8 word"
type_synonym u16 = "16 word"
type_synonym u32 = "32 word"
type_synonym u64 = "64 word"
type_synonym bytes = "u8 list"
type_synonym ('e, 'a) result = "'e + 'a"

abbreviation Err :: "'e \<Rightarrow> ('e, 'a) result" where "Err \<equiv> Inl"
abbreviation Ok :: "'a \<Rightarrow> ('e, 'a) result" where "Ok \<equiv> Inr"

named_theorems codec_simps \<open>unfolding facts of the encoders and decoders\<close>
named_theorems result_elims \<open>inversion facts of fallible operations that returned Ok\<close>

text \<open>\<open>and_then r f\<close> is Rust's \<open>let x = r?; f(x)\<close>.\<close>

fun and_then :: "('e, 'a) result \<Rightarrow> ('a \<Rightarrow> ('e, 'b) result) \<Rightarrow> ('e, 'b) result" where
  "and_then (Err e) f = Err e"
| "and_then (Ok x) f = f x"

fun map_err :: "('e \<Rightarrow> 'f) \<Rightarrow> ('e, 'a) result \<Rightarrow> ('f, 'a) result" where
  "map_err g (Err e) = Err (g e)"
| "map_err g (Ok x) = Ok x"

fun ok_or :: "'e \<Rightarrow> 'a option \<Rightarrow> ('e, 'a) result" where
  "ok_or e None = Err e"
| "ok_or e (Some x) = Ok x"

lemma and_then_Ok_iff [simp]: "and_then r f = Ok y \<longleftrightarrow> (\<exists>x. r = Ok x \<and> f x = Ok y)"
  by (cases r) auto

lemma and_then_Err_iff:
  "and_then r f = Err e \<longleftrightarrow> r = Err e \<or> (\<exists>x. r = Ok x \<and> f x = Err e)"
  by (cases r) auto

lemma map_err_Ok_iff [simp]: "map_err g r = Ok x \<longleftrightarrow> r = Ok x"
  by (cases r) auto

lemma ok_or_Ok_iff [simp]: "ok_or e v = Ok x \<longleftrightarrow> v = Some x"
  by (cases v) auto

lemma and_then_pairE [result_elims]:
  assumes "and_then g (case_prod f) = Ok y"
  obtains x r where "g = Ok (x, r)" "f x r = Ok y"
  using assms by (cases g) auto

lemma and_then_unitE [result_elims]:
  assumes "and_then g (\<lambda>_. t) = Ok y"
  obtains x where "g = Ok x" "t = Ok y"
  using assms by (cases g) auto

lemma if_Err_OkE [result_elims]:
  assumes "(if b then Err e else t) = Ok y"
  obtains "\<not> b" "t = Ok y"
  using assms by (cases b) auto

subsection \<open>Slices\<close>

definition strip_prefix :: "'a list \<Rightarrow> 'a list \<Rightarrow> 'a list option" where
  "strip_prefix p s = (if take (length p) s = p then Some (drop (length p) s) else None)"

lemma strip_prefix_Some_iff [simp]: "strip_prefix p s = Some r \<longleftrightarrow> s = p @ r"
  by (auto simp: strip_prefix_def) (metis append_take_drop_id)

lemma strip_prefix_None_iff: "strip_prefix p s = None \<longleftrightarrow> (\<forall>r. s \<noteq> p @ r)"
  by (metis not_None_eq strip_prefix_Some_iff)

subsection \<open>Checked and saturating arithmetic\<close>

definition checked_add :: "'a::len word \<Rightarrow> 'a word \<Rightarrow> 'a word option" where
  "checked_add a b = (if unat a + unat b < 2 ^ LENGTH('a) then Some (a + b) else None)"

definition saturating_add :: "'a::len word \<Rightarrow> 'a word \<Rightarrow> 'a word" where
  "saturating_add a b = (if unat a + unat b < 2 ^ LENGTH('a) then a + b else - 1)"

definition saturating_sub :: "'a::len word \<Rightarrow> 'a word \<Rightarrow> 'a word" where
  "saturating_sub a b = (if b \<le> a then a - b else 0)"

definition checked_sub :: "'a::len word \<Rightarrow> 'a word \<Rightarrow> 'a word option" where
  "checked_sub a b = (if b \<le> a then Some (a - b) else None)"

definition checked_mul :: "'a::len word \<Rightarrow> 'a word \<Rightarrow> 'a word option" where
  "checked_mul a b = (if unat a * unat b < 2 ^ LENGTH('a) then Some (a * b) else None)"

lemma checked_add_Some_iff:
  "checked_add (a::'a::len word) b = Some c \<longleftrightarrow> unat a + unat b < 2 ^ LENGTH('a) \<and> unat c = unat a + unat b"
  by (auto simp: checked_add_def unat_word_ariths word_unat_eq_iff)

lemma checked_sub_Some_iff:
  "checked_sub a b = Some c \<longleftrightarrow> unat a = unat b + unat c"
proof -
  have "unat a = unat b + unat c \<Longrightarrow> b \<le> a \<and> a - b = c"
    by (simp add: word_le_nat_alt word_unat_eq_iff unat_sub)
  then show ?thesis by (auto simp: checked_sub_def word_le_nat_alt unat_sub)
qed

lemma checked_mul_Some_iff:
  "checked_mul (a::'a::len word) b = Some c \<longleftrightarrow> unat a * unat b < 2 ^ LENGTH('a) \<and> unat c = unat a * unat b"
  by (auto simp: checked_mul_def unat_word_ariths word_unat_eq_iff)

lemma checked_add_SomeD: "checked_add a b = Some c \<Longrightarrow> unat c = unat a + unat b"
  by (auto simp: checked_add_def unat_word_ariths split: if_splits)

lemma checked_add_None_iff:
  "checked_add (a::'a::len word) b = None \<longleftrightarrow> 2 ^ LENGTH('a) \<le> unat a + unat b"
  by (auto simp: checked_add_def)

lemma unat_saturating_add:
  "unat (saturating_add (a::'a::len word) b) = min (unat a + unat b) (2 ^ LENGTH('a) - 1)"
  by (auto simp: saturating_add_def unat_word_ariths unsigned_minus_1_eq_mask mask_eq_exp_minus_1)

lemma unat_saturating_sub: "unat (saturating_sub a b) = unat a - unat b"
  by (auto simp: saturating_sub_def unat_sub word_le_nat_alt)

subsection \<open>Big-endian integers\<close>

fun be_of_nat :: "nat \<Rightarrow> nat \<Rightarrow> bytes" where
  "be_of_nat 0 n = []"
| "be_of_nat (Suc k) n = of_nat (n div 256 ^ k) # be_of_nat k (n mod 256 ^ k)"

fun nat_of_be :: "bytes \<Rightarrow> nat" where
  "nat_of_be [] = 0"
| "nat_of_be (b # bs) = unat b * 256 ^ length bs + nat_of_be bs"

lemma length_be_of_nat [simp]: "length (be_of_nat k n) = k"
  by (induction k arbitrary: n) auto

lemma unat_bound: "unat (x::'a::len word) < 2 ^ LENGTH('a)"
  by (rule unsigned_less)

lemma unat_lt_256 [simp]: "unat (b::u8) < 256"
  using unat_bound [of b] by simp

lemma unat_of_nat_u8: "n < 256 \<Longrightarrow> unat (of_nat n :: u8) = n"
  by (simp add: unat_of_nat)

lemma of_nat_u8_inj: "(of_nat m :: u8) = of_nat n \<Longrightarrow> m < 256 \<Longrightarrow> n < 256 \<Longrightarrow> m = n"
  by (metis unat_of_nat_u8)

lemma nat_of_be_bound: "nat_of_be bs < 256 ^ length bs"
proof (induction bs)
  case (Cons b bs)
  have "unat b * 256 ^ length bs + nat_of_be bs < (unat b + 1) * 256 ^ length bs"
    using Cons by simp
  also have "\<dots> \<le> 256 * 256 ^ length bs"
    using unat_lt_256 [of b] by (intro mult_right_mono) (simp_all add: Suc_le_eq)
  finally show ?case by simp
qed simp

lemma nat_of_be_of_nat: "n < 256 ^ k \<Longrightarrow> nat_of_be (be_of_nat k n) = n"
proof (induction k arbitrary: n)
  case (Suc k)
  have "n div 256 ^ k < 256"
    using Suc.prems by (simp add: less_mult_imp_div_less mult.commute)
  then have "unat (of_nat (n div 256 ^ k) :: u8) = n div 256 ^ k"
    by (simp add: unat_of_nat)
  then show ?case
    using Suc.IH [of "n mod 256 ^ k"] by (simp add: div_mult_mod_eq)
qed simp

lemma be_of_nat_of_be: "be_of_nat (length bs) (nat_of_be bs) = bs"
proof (induction bs)
  case (Cons b bs)
  have "(unat b * 256 ^ length bs + nat_of_be bs) div 256 ^ length bs = unat b"
    and "(unat b * 256 ^ length bs + nat_of_be bs) mod 256 ^ length bs = nat_of_be bs"
    using nat_of_be_bound [of bs] by simp_all
  then show ?case using Cons by simp
qed simp

definition u16_to_be_bytes :: "u16 \<Rightarrow> bytes" where
  "u16_to_be_bytes x = be_of_nat 2 (unat x)"

definition u16_from_be_bytes :: "bytes \<Rightarrow> u16" where
  "u16_from_be_bytes bs = of_nat (nat_of_be bs)"

definition u64_to_be_bytes :: "u64 \<Rightarrow> bytes" where
  "u64_to_be_bytes x = be_of_nat 8 (unat x)"

definition u64_from_be_bytes :: "bytes \<Rightarrow> u64" where
  "u64_from_be_bytes bs = of_nat (nat_of_be bs)"

lemma length_u16_to_be_bytes [simp]: "length (u16_to_be_bytes x) = 2"
  by (simp add: u16_to_be_bytes_def)

lemma length_u64_to_be_bytes [simp]: "length (u64_to_be_bytes x) = 8"
  by (simp add: u64_to_be_bytes_def)

lemma u16_be_roundtrip [simp]: "u16_from_be_bytes (u16_to_be_bytes x) = x"
  using unat_bound [of x]
  by (simp add: u16_from_be_bytes_def u16_to_be_bytes_def nat_of_be_of_nat)

lemma u64_be_roundtrip [simp]: "u64_from_be_bytes (u64_to_be_bytes x) = x"
  using unat_bound [of x]
  by (simp add: u64_from_be_bytes_def u64_to_be_bytes_def nat_of_be_of_nat)

lemma u16_be_canonical: "length bs = 2 \<Longrightarrow> u16_to_be_bytes (u16_from_be_bytes bs) = bs"
  using nat_of_be_bound [of bs] be_of_nat_of_be [of bs]
  by (simp add: u16_from_be_bytes_def u16_to_be_bytes_def unat_of_nat)

lemma u64_be_canonical: "length bs = 8 \<Longrightarrow> u64_to_be_bytes (u64_from_be_bytes bs) = bs"
  using nat_of_be_bound [of bs] be_of_nat_of_be [of bs]
  by (simp add: u64_from_be_bytes_def u64_to_be_bytes_def unat_of_nat)

subsection \<open>Decimal integers\<close>

text \<open>
  \<open>decimal\<close> is what Rust's \<open>{}\<close> prints for an unsigned integer; \<open>parse_u64\<close> is
  \<open>str::parse::<u64>\<close>: an optional plus sign, at least one digit, leading zeros allowed, an
  error on any other character and on overflow.
\<close>

fun decimal :: "nat \<Rightarrow> string" where
  "decimal n = (if n < 10 then [char_of (48 + n)] else decimal (n div 10) @ [char_of (48 + n mod 10)])"

declare decimal.simps [simp del]

definition digit_value :: "char \<Rightarrow> nat option" where
  "digit_value c = (let n = of_char c in if 48 \<le> n \<and> n \<le> 57 then Some (n - 48) else None)"

fun parse_digits :: "nat \<Rightarrow> string \<Rightarrow> nat option" where
  "parse_digits acc [] = Some acc"
| "parse_digits acc (c # cs) =
     (case digit_value c of
        None \<Rightarrow> None
      | Some d \<Rightarrow> (let acc' = acc * 10 + d in if acc' < 2 ^ 64 then parse_digits acc' cs else None))"

definition parse_u64 :: "string \<Rightarrow> u64 option" where
  "parse_u64 s =
     (let digits = (case s of c # cs \<Rightarrow> if c = CHR ''+'' then cs else s | [] \<Rightarrow> s)
      in if digits = [] then None else map_option word_of_nat (parse_digits 0 digits))"

lemma decimal_nonempty [simp]: "decimal n \<noteq> []"
  by (subst decimal.simps) simp

lemma digit_value_digit [simp]: "d < 10 \<Longrightarrow> digit_value (char_of (48 + d)) = Some d"
  by (simp add: digit_value_def)

lemma digit_value_plus [simp]: "digit_value CHR ''+'' = None"
  by (simp add: digit_value_def)

lemma parse_digits_append:
  "parse_digits acc (xs @ ys) = Option.bind (parse_digits acc xs) (\<lambda>a. parse_digits a ys)"
  by (induction acc xs rule: parse_digits.induct) (auto simp: Let_def split: option.split)

lemma parse_digits_decimal: "n < 2 ^ 64 \<Longrightarrow> parse_digits 0 (decimal n) = Some n"
proof (induction n rule: decimal.induct)
  case (1 n)
  show ?case
  proof (cases "n < 10")
    case True
    then show ?thesis by (subst decimal.simps) simp
  next
    case False
    then have "parse_digits 0 (decimal (n div 10)) = Some (n div 10)"
      using 1 by simp
    then show ?thesis
      using False "1.prems" by (subst decimal.simps) (simp add: parse_digits_append)
  qed
qed

lemma decimal_digits: "c \<in> set (decimal n) \<Longrightarrow> digit_value c \<noteq> None"
proof (induction n rule: decimal.induct)
  case (1 n)
  then show ?case
    by (subst (asm) (2) decimal.simps) (auto split: if_splits)
qed

lemma parse_u64_decimal [simp]: "parse_u64 (decimal (unat x)) = Some x"
proof -
  obtain c cs where d: "decimal (unat x) = c # cs"
    by (cases "decimal (unat x)") auto
  then have "c \<noteq> CHR ''+''"
    using decimal_digits [of c "unat x"] by auto
  moreover have "parse_digits 0 (c # cs) = Some (unat x)"
    using parse_digits_decimal [of "unat x"] unat_bound [of x] d by simp
  ultimately show ?thesis
    by (simp add: parse_u64_def d del: parse_digits.simps)
qed

subsection \<open>Text codecs\<close>

text \<open>
  The contract of a canonical string form: every valid value has one string, the parser accepts
  exactly the strings the printer emits, and parsing undoes printing. The hex, base-32, node-id,
  digest and infohash codecs are interpretations.
\<close>

locale text_codec =
  fixes enc :: "'a \<Rightarrow> string"
    and dec :: "string \<Rightarrow> ('e, 'a) result"
    and valid :: "'a \<Rightarrow> bool"
  assumes dec_enc: "valid x \<Longrightarrow> dec (enc x) = Ok x"
    and enc_dec: "dec s = Ok x \<Longrightarrow> valid x \<and> enc x = s"
begin

lemma dec_iff: "dec s = Ok x \<longleftrightarrow> valid x \<and> s = enc x"
  using dec_enc enc_dec by blast

lemma enc_inj: "valid x \<Longrightarrow> valid y \<Longrightarrow> enc x = enc y \<Longrightarrow> x = y"
  by (metis dec_enc sum.inject(2))

lemma dec_canonical: "dec s = Ok x \<Longrightarrow> dec t = Ok x \<Longrightarrow> s = t"
  using enc_dec by blast

lemma dec_Err_iff: "(\<exists>e. dec s = Err e) \<longleftrightarrow> (\<forall>x. valid x \<longrightarrow> s \<noteq> enc x)"
proof (cases "dec s")
  case (Inl e)
  then show ?thesis using dec_enc by force
next
  case (Inr x)
  then show ?thesis using enc_dec by force
qed

end

end
