(* ===== verification/Hexfmt.thy ===== *)
theory Hexfmt
  imports Prelude
begin

text \<open>
  The lowercase-hex codec of \<open>src/peer-fabric/src/hexfmt.rs\<close>: the printer, the strict nibble
  reader, the fixed-width and the variable-width parser with their typed errors.
\<close>

datatype hex_error =
    WrongLength nat nat
  | NonHexChar nat

fun display_hex_error :: "hex_error \<Rightarrow> string" where
  "display_hex_error (WrongLength expected_chars found) =
     ''expected '' @ decimal expected_chars @ '' hex characters, found '' @ decimal found"
| "display_hex_error (NonHexChar index) = ''non-hex character at index '' @ decimal index"

definition from_digit16 :: "u8 \<Rightarrow> char" where
  "from_digit16 d = char_of (if d < 10 then unat d + 48 else unat d + 87)"

definition byte_of :: "char \<Rightarrow> u8" where
  "byte_of c = word_of_nat (of_char c)"

fun encode :: "bytes \<Rightarrow> string" where
  "encode [] = []"
| "encode (b # bs) = from_digit16 (drop_bit 4 b) # from_digit16 (b AND 15) # encode bs"

definition lower_nibble :: "u8 \<Rightarrow> u8 option" where
  "lower_nibble b =
     (if 48 \<le> b \<and> b \<le> 57 then Some (b - 48)
      else if 97 \<le> b \<and> b \<le> 102 then Some (b - 97 + 10)
      else None)"

fun decode_pairs :: "nat \<Rightarrow> string \<Rightarrow> (hex_error, bytes) result" where
  "decode_pairs i (a # b # s) =
     and_then (ok_or (NonHexChar (i * 2)) (lower_nibble (byte_of a))) (\<lambda>hi.
     and_then (ok_or (NonHexChar (i * 2 + 1)) (lower_nibble (byte_of b))) (\<lambda>lo.
     and_then (decode_pairs (Suc i) s) (\<lambda>out.
     Ok ((push_bit 4 hi OR lo) # out))))"
| "decode_pairs i s = Ok []"

definition decode_fixed :: "nat \<Rightarrow> string \<Rightarrow> (hex_error, bytes) result" where
  "decode_fixed N hex =
     (if length hex \<noteq> N * 2 then Err (WrongLength (N * 2) (length hex))
      else decode_pairs 0 hex)"

definition decode_var :: "string \<Rightarrow> (hex_error, bytes) result" where
  "decode_var hex =
     (if length hex mod 2 \<noteq> 0 then Err (WrongLength (length hex + 1) (length hex))
      else decode_pairs 0 hex)"

subsection \<open>Nibbles\<close>

lemma nibble_mask: "(15::u8) = mask 4"
  by (simp add: mask_numeral)

lemma unat_high_nibble: "unat (drop_bit 4 (b::u8)) = unat b div 16"
  by (simp add: drop_bit_eq_div unat_div)

lemma unat_low_nibble: "unat ((b::u8) AND 15) = unat b mod 16"
  unfolding nibble_mask take_bit_eq_mask [symmetric] by (simp add: take_bit_eq_mod unat_mod)

lemma high_nibble_lt [simp]: "drop_bit 4 (b::u8) < 16"
  by (simp add: word_less_nat_alt unat_high_nibble less_mult_imp_div_less)

lemma low_nibble_lt [simp]: "(b::u8) AND 15 < 16"
  by (simp add: word_less_nat_alt unat_low_nibble)

lemma join_nibbles [simp]: "push_bit 4 (drop_bit 4 b) OR (b AND 15) = (b::u8)"
  unfolding nibble_mask by (rule bit_eqI) (auto simp: bit_simps)

lemma small_nibble: "lo < 16 \<Longrightarrow> lo AND 15 = (lo::u8)"
  by (simp add: word_unat_eq_iff unat_low_nibble word_less_nat_alt)

lemma split_nibbles:
  assumes "hi < 16" "lo < 16"
  shows "drop_bit 4 (push_bit 4 hi OR lo) = (hi::u8)" "(push_bit 4 hi OR lo) AND 15 = (lo::u8)"
proof -
  have lo: "\<not> bit lo n" if "4 \<le> n" for n
    using small_nibble [OF assms(2)] that unfolding nibble_mask
    by (metis bit_and_iff bit_mask_iff leD)
  have hi: "\<not> bit hi n" if "4 \<le> n" for n
    using small_nibble [OF assms(1)] that unfolding nibble_mask
    by (metis bit_and_iff bit_mask_iff leD)
  show "drop_bit 4 (push_bit 4 hi OR lo) = hi"
    by (rule bit_eqI) (auto simp: bit_simps lo, meson hi not_less)
  show "(push_bit 4 hi OR lo) AND 15 = lo"
    unfolding nibble_mask by (rule bit_eqI) (auto simp: bit_simps, meson lo not_less)
qed

lemma of_char_lt_256: "of_char c < (256::nat)"
  using nat_of_char_less_256 [of c] by simp

lemma unat_byte_of [simp]: "unat (byte_of c) = of_char c"
  using of_char_lt_256 [of c] by (simp add: byte_of_def unat_of_nat)

lemma byte_of_char_of [simp]: "unat (byte_of (char_of n)) = n mod 256"
  by simp

lemma byte_of_from_digit16: "d < 16 \<Longrightarrow>
  byte_of (from_digit16 d) = (if d < 10 then d + 48 else d + 87)"
  by (auto simp: from_digit16_def word_less_nat_alt word_unat_eq_iff unat_word_ariths)

lemma lower_nibble_from_digit16 [simp]: "d < 16 \<Longrightarrow> lower_nibble (byte_of (from_digit16 d)) = Some d"
  by (auto simp: byte_of_from_digit16 lower_nibble_def word_less_nat_alt word_le_nat_alt unat_word_ariths
      word_unat_eq_iff unat_sub)

lemma lower_nibble_SomeD:
  assumes "lower_nibble (byte_of c) = Some d"
  shows "d < 16 \<and> from_digit16 d = c"
proof -
  have "from_digit16 d = char_of (of_char c :: nat) \<and> d < 16"
    using assms
    by (auto simp: lower_nibble_def from_digit16_def word_less_nat_alt word_le_nat_alt
      unat_word_ariths unat_sub split: if_splits)
  then show ?thesis by simp
qed

subsection \<open>Round trips\<close>

lemma length_encode [simp]: "length (encode bs) = 2 * length bs"
  by (induction bs) auto

lemma decode_pairs_encode [simp]: "decode_pairs i (encode bs) = Ok bs"
  by (induction bs arbitrary: i) auto

lemma encode_decode_pairs:
  "even (length s) \<Longrightarrow> decode_pairs i s = Ok bs \<Longrightarrow> encode bs = s"
  by (induction i s arbitrary: bs rule: decode_pairs.induct)
    (auto simp: split_nibbles simp del: drop_bit_or dest!: lower_nibble_SomeD)

lemma length_decode_pairs: "decode_pairs i s = Ok bs \<Longrightarrow> length bs = length s div 2"
  by (induction i s arbitrary: bs rule: decode_pairs.induct) auto

interpretation fixed: text_codec encode "decode_fixed n" "\<lambda>bs. length bs = n"
  by unfold_locales
    (auto simp: decode_fixed_def length_decode_pairs encode_decode_pairs split: if_splits)

interpretation var: text_codec encode decode_var "\<lambda>_. True"
  by unfold_locales (auto simp: decode_var_def encode_decode_pairs split: if_splits)

end
