(* ===== verification/Ids.thy ===== *)
theory Ids
  imports Hexfmt
begin

text \<open>
  The value types that cross the peer-fabric seam: \<open>src/peer-fabric/src/ids.rs\<close> (node ids, BLAKE3
  digests, infohashes, bounded relay-hint sets, transport offers) and the key and record types of
  \<open>src/peer-fabric/src/content.rs\<close>. The ed25519 and BLAKE3 crates are not part of the sources;
  their operations are the fields of the parameter records \<open>ed25519\<close> and \<open>blake3\<close>.
\<close>

subsection \<open>External cryptography\<close>

record ed25519 =
  vk_from_bytes :: "bytes \<Rightarrow> bool"          \<comment> \<open>\<open>VerifyingKey::from_bytes\<close> succeeds\<close>
  vk_is_weak :: "bytes \<Rightarrow> bool"             \<comment> \<open>\<open>VerifyingKey::is_weak\<close>\<close>
  vk_verify_strict :: "bytes \<Rightarrow> bytes \<Rightarrow> bytes \<Rightarrow> bool"   \<comment> \<open>key, message, signature\<close>
  sk_verifying_key :: "bytes \<Rightarrow> bytes"
  sk_sign :: "bytes \<Rightarrow> bytes \<Rightarrow> bytes"        \<comment> \<open>secret key, message\<close>

record 'h blake3 =
  b3_hash :: "bytes \<Rightarrow> bytes"
  b3_new :: 'h
  b3_update :: "'h \<Rightarrow> bytes \<Rightarrow> 'h"
  b3_finalize :: "'h \<Rightarrow> bytes"
  b3_derive_key :: "string \<Rightarrow> bytes \<Rightarrow> bytes"

subsection \<open>Node ids\<close>

definition NODE_ID_LEN :: nat where "NODE_ID_LEN = 32"

datatype node_id = NodeId (node_as_bytes: bytes)

instantiation node_id :: linorder
begin

definition less_eq_node_id :: "node_id \<Rightarrow> node_id \<Rightarrow> bool" where
  "less_eq_node_id a b \<longleftrightarrow> node_as_bytes a \<le> node_as_bytes b"

definition less_node_id :: "node_id \<Rightarrow> node_id \<Rightarrow> bool" where
  "less_node_id a b \<longleftrightarrow> node_as_bytes a < node_as_bytes b"

instance
  by standard (auto simp: less_eq_node_id_def less_node_id_def node_id.expand)

end

definition wf_node :: "node_id \<Rightarrow> bool" where
  "wf_node n \<longleftrightarrow> length (node_as_bytes n) = NODE_ID_LEN"

datatype node_id_parse_error = NodeIdParseError string

definition node_to_hex :: "node_id \<Rightarrow> string" where
  "node_to_hex n = encode (node_as_bytes n)"

definition node_from_str :: "string \<Rightarrow> (node_id_parse_error, node_id) result" where
  "node_from_str s =
     and_then (map_err (\<lambda>e. NodeIdParseError (display_hex_error e)) (decode_fixed NODE_ID_LEN s))
       (\<lambda>bytes. Ok (NodeId bytes))"

interpretation node_text: text_codec node_to_hex node_from_str wf_node
  by unfold_locales
    (auto simp: node_to_hex_def node_from_str_def wf_node_def fixed.dec_iff)

subsection \<open>BLAKE3 content digests\<close>

definition BLAKE3_DIGEST_LEN :: nat where "BLAKE3_DIGEST_LEN = 32"
definition BLAKE3_PREFIX :: string where "BLAKE3_PREFIX = ''blake3:''"
definition STREAM_CHUNK_BYTES :: nat where "STREAM_CHUNK_BYTES = 64 * 1024"

datatype blake3_digest = Blake3Digest (digest_as_bytes: bytes)

definition wf_digest :: "blake3_digest \<Rightarrow> bool" where
  "wf_digest d \<longleftrightarrow> length (digest_as_bytes d) = BLAKE3_DIGEST_LEN"

definition from_raw_nar :: "'h blake3 \<Rightarrow> bytes \<Rightarrow> blake3_digest" where
  "from_raw_nar H raw_nar = Blake3Digest (b3_hash H raw_nar)"

text \<open>
  \<open>stream_raw_nar\<close> runs over the successive results of \<open>Read::read\<close>: an I/O error stops it, a
  read of zero bytes ends the stream. The reader fills at most \<open>STREAM_CHUNK_BYTES\<close> per call.
\<close>

fun stream_raw_nar_loop ::
  "'h blake3 \<Rightarrow> 'h \<Rightarrow> u64 \<Rightarrow> ('io, bytes) result list \<Rightarrow> ('io, blake3_digest \<times> u64) result" where
  "stream_raw_nar_loop H hasher total_bytes [] = Ok (Blake3Digest (b3_finalize H hasher), total_bytes)"
| "stream_raw_nar_loop H hasher total_bytes (Err e # reads) = Err e"
| "stream_raw_nar_loop H hasher total_bytes (Ok chunk # reads) =
     (if chunk = [] then Ok (Blake3Digest (b3_finalize H hasher), total_bytes)
      else stream_raw_nar_loop H (b3_update H hasher chunk) (total_bytes + of_nat (length chunk)) reads)"

definition stream_raw_nar ::
  "'h blake3 \<Rightarrow> ('io, bytes) result list \<Rightarrow> ('io, blake3_digest \<times> u64) result" where
  "stream_raw_nar H reads = stream_raw_nar_loop H (b3_new H) 0 reads"

datatype digest_parse_error = MissingPrefix | BadHex string

definition digest_to_hex :: "blake3_digest \<Rightarrow> string" where
  "digest_to_hex d = encode (digest_as_bytes d)"

definition digest_from_str :: "string \<Rightarrow> (digest_parse_error, blake3_digest) result" where
  "digest_from_str s =
     and_then (ok_or MissingPrefix (strip_prefix BLAKE3_PREFIX s)) (\<lambda>hex.
     and_then (map_err (\<lambda>e. BadHex (display_hex_error e)) (decode_fixed BLAKE3_DIGEST_LEN hex))
       (\<lambda>bytes. Ok (Blake3Digest bytes)))"

definition display_digest :: "blake3_digest \<Rightarrow> string" where
  "display_digest d = BLAKE3_PREFIX @ digest_to_hex d"

interpretation digest_text: text_codec display_digest digest_from_str wf_digest
  by unfold_locales
    (auto simp: display_digest_def digest_to_hex_def digest_from_str_def wf_digest_def fixed.dec_iff)

subsection \<open>Infohashes\<close>

datatype info_hash = V1 bytes | V2 bytes

fun infohash_as_bytes :: "info_hash \<Rightarrow> bytes" where
  "infohash_as_bytes (V1 b) = b"
| "infohash_as_bytes (V2 b) = b"

fun wf_infohash :: "info_hash \<Rightarrow> bool" where
  "wf_infohash (V1 b) \<longleftrightarrow> length b = 20"
| "wf_infohash (V2 b) \<longleftrightarrow> length b = 32"

datatype info_hash_parse_error = IHWrongLength nat | IHBadHex string

definition infohash_to_hex :: "info_hash \<Rightarrow> string" where
  "infohash_to_hex h = encode (infohash_as_bytes h)"

definition infohash_from_str :: "string \<Rightarrow> (info_hash_parse_error, info_hash) result" where
  "infohash_from_str s =
     and_then (map_err (\<lambda>e. IHBadHex (display_hex_error e)) (decode_var s)) (\<lambda>bytes.
       if length bytes = 20 then Ok (V1 bytes)
       else if length bytes = 32 then Ok (V2 bytes)
       else Err (IHWrongLength (length bytes)))"

interpretation infohash_text: text_codec infohash_to_hex infohash_from_str wf_infohash
proof
  fix h assume "wf_infohash h"
  then show "infohash_from_str (infohash_to_hex h) = Ok h"
    by (cases h) (auto simp: infohash_to_hex_def infohash_from_str_def var.dec_enc)
next
  fix s h assume "infohash_from_str s = Ok h"
  then show "wf_infohash h \<and> infohash_to_hex h = s"
    by (auto simp: infohash_to_hex_def infohash_from_str_def var.dec_iff split: if_splits)
qed

subsection \<open>Relay hints and transport offers\<close>

definition MAX_LIBP2P_RELAY_HINTS :: nat where "MAX_LIBP2P_RELAY_HINTS = 2"

datatype relay_hints_error =
    TooMany nat nat
  | InvalidIdentity node_id
  | NotCanonical node_id node_id

record relay_hints =
  rh_nodes :: "node_id list"
  rh_len :: u8

definition relay_hints_empty :: relay_hints where
  "relay_hints_empty =
     \<lparr> rh_nodes = replicate MAX_LIBP2P_RELAY_HINTS (NodeId (replicate NODE_ID_LEN 0)), rh_len = 0 \<rparr>"

fun try_from_nodes_loop ::
  "ed25519 \<Rightarrow> nat \<Rightarrow> node_id list \<Rightarrow> relay_hints \<Rightarrow> (relay_hints_error, relay_hints) result" where
  "try_from_nodes_loop C index [] hints = Ok hints"
| "try_from_nodes_loop C index (relay # rest) hints =
     (if \<not> vk_from_bytes C (node_as_bytes relay) then Err (InvalidIdentity relay)
      else if vk_is_weak C (node_as_bytes relay) then Err (InvalidIdentity relay)
      else if index > 0 \<and> rh_nodes hints ! (index - 1) \<ge> relay
        then Err (NotCanonical (rh_nodes hints ! (index - 1)) relay)
      else try_from_nodes_loop C (Suc index) rest
             (hints\<lparr>rh_nodes := (rh_nodes hints)[index := relay]\<rparr>))"

definition try_from_nodes :: "ed25519 \<Rightarrow> node_id list \<Rightarrow> (relay_hints_error, relay_hints) result" where
  "try_from_nodes C nodes =
     (if length nodes > MAX_LIBP2P_RELAY_HINTS
      then Err (TooMany (length nodes) MAX_LIBP2P_RELAY_HINTS)
      else and_then (try_from_nodes_loop C 0 nodes relay_hints_empty)
             (\<lambda>hints. Ok (hints\<lparr>rh_len := of_nat (length nodes)\<rparr>)))"

definition rh_as_slice :: "relay_hints \<Rightarrow> node_id list" where
  "rh_as_slice h = take (unat (rh_len h)) (rh_nodes h)"

definition rh_length :: "relay_hints \<Rightarrow> nat" where
  "rh_length h = unat (rh_len h)"

definition rh_is_empty :: "relay_hints \<Rightarrow> bool" where
  "rh_is_empty h \<longleftrightarrow> rh_len h = 0"

datatype transport_offer =
    Iroh (offer_node: node_id)
  | BitTorrent info_hash
  | Libp2p (offer_node: node_id) relay_hints

datatype transport_tag = TagIroh | TagBitTorrent | TagLibp2p

fun tag_of :: "transport_offer \<Rightarrow> transport_tag" where
  "tag_of (Iroh node) = TagIroh"
| "tag_of (BitTorrent infohash) = TagBitTorrent"
| "tag_of (Libp2p node relay_hints) = TagLibp2p"

fun tag_as_str :: "transport_tag \<Rightarrow> string" where
  "tag_as_str TagIroh = ''iroh''"
| "tag_as_str TagBitTorrent = ''bittorrent''"
| "tag_as_str TagLibp2p = ''libp2p''"

definition offer_libp2p :: "node_id \<Rightarrow> transport_offer" where
  "offer_libp2p node = Libp2p node relay_hints_empty"

subsection \<open>Discovery keys and provider records\<close>

definition CONTENT_KEY_LEN :: nat where "CONTENT_KEY_LEN = 32"
definition CONTENT_KEY_PREFIX :: string where "CONTENT_KEY_PREFIX = ''contentkey:''"
definition CONTENT_KEY_CONTEXT :: string where
  "CONTENT_KEY_CONTEXT = ''nix-p2p/discovery/ContentKey/v1''"
definition PROVIDER_SIGNATURE_LEN :: nat where "PROVIDER_SIGNATURE_LEN = 64"

datatype content_key = ContentKey (key_as_bytes: bytes)

definition wf_key :: "content_key \<Rightarrow> bool" where
  "wf_key k \<longleftrightarrow> length (key_as_bytes k) = CONTENT_KEY_LEN"

definition derive_from_signed_nar_hash :: "'h blake3 \<Rightarrow> bytes \<Rightarrow> content_key" where
  "derive_from_signed_nar_hash H nar_hash_sha256 =
     ContentKey (b3_derive_key H CONTENT_KEY_CONTEXT nar_hash_sha256)"

definition display_content_key :: "content_key \<Rightarrow> string" where
  "display_content_key k = CONTENT_KEY_PREFIX @ encode (key_as_bytes k)"

record provider_record =
  pr_key :: content_key
  pr_content :: blake3_digest
  pr_provider :: node_id
  pr_offers :: "transport_offer list"
  pr_sequence :: u64
  pr_issued_at :: u64
  pr_expiry :: u64
  pr_signature :: bytes

subsection \<open>Streaming digests\<close>

definition streaming_hash :: "'h blake3 \<Rightarrow> bool" where
  "streaming_hash H \<longleftrightarrow>
     (\<forall>chunks. b3_finalize H (foldl (b3_update H) (b3_new H) chunks) = b3_hash H (concat chunks))"

lemma stream_raw_nar_loop_Ok:
  assumes "\<forall>c \<in> set chunks. c \<noteq> []"
  shows "stream_raw_nar_loop H h total_bytes (map Ok chunks @ Ok [] # rest) =
    Ok (Blake3Digest (b3_finalize H (foldl (b3_update H) h chunks)),
        total_bytes + of_nat (length (concat chunks)))"
  using assms by (induction chunks arbitrary: h total_bytes) (auto simp: add.assoc)

lemma stream_raw_nar_Err:
  assumes "\<forall>c \<in> set chunks. c \<noteq> []"
  shows "stream_raw_nar H (map Ok chunks @ Err e # rest) = Err e"
proof -
  have "stream_raw_nar_loop H h total_bytes (map Ok chunks @ Err e # rest) = Err e" for h total_bytes
    using assms by (induction chunks arbitrary: h total_bytes) auto
  then show ?thesis by (simp add: stream_raw_nar_def)
qed

subsection \<open>The relay-hint constructor\<close>

definition strict_identity :: "ed25519 \<Rightarrow> node_id \<Rightarrow> bool" where
  "strict_identity C n \<longleftrightarrow> vk_from_bytes C (node_as_bytes n) \<and> \<not> vk_is_weak C (node_as_bytes n)"

definition pack_hints :: "node_id list \<Rightarrow> relay_hints" where
  "pack_hints nodes =
     \<lparr> rh_nodes = nodes @ replicate (MAX_LIBP2P_RELAY_HINTS - length nodes) (NodeId (replicate NODE_ID_LEN 0)),
       rh_len = of_nat (length nodes) \<rparr>"

definition hintable :: "ed25519 \<Rightarrow> node_id list \<Rightarrow> bool" where
  "hintable C nodes \<longleftrightarrow>
     length nodes \<le> MAX_LIBP2P_RELAY_HINTS \<and> sorted_wrt (<) nodes \<and> list_all (strict_identity C) nodes"

lemma length_le_2_cases:
  assumes "length xs \<le> 2"
  obtains "xs = []" | a where "xs = [a]" | a b where "xs = [a, b]"
  using assms by (cases xs; cases "tl xs") (auto simp: length_Suc_conv le_Suc_eq)

lemma try_from_nodes_Ok_iff:
  "try_from_nodes C nodes = Ok h \<longleftrightarrow> hintable C nodes \<and> h = pack_hints nodes"
proof (cases "length nodes \<le> 2")
  case True
  then show ?thesis
    by (cases rule: length_le_2_cases)
      (auto simp: try_from_nodes_def hintable_def pack_hints_def strict_identity_def
        relay_hints_empty_def MAX_LIBP2P_RELAY_HINTS_def numeral_2_eq_2 split: if_splits)
next
  case False
  then show ?thesis
    by (auto simp: try_from_nodes_def hintable_def MAX_LIBP2P_RELAY_HINTS_def)
qed

lemma pack_hints_slice: "length nodes \<le> 2 \<Longrightarrow> rh_as_slice (pack_hints nodes) = nodes"
  by (cases rule: length_le_2_cases)
    (auto simp: rh_as_slice_def pack_hints_def MAX_LIBP2P_RELAY_HINTS_def)

text \<open>The hint values the private representation admits: what the constructor can return.\<close>

definition wf_hints :: "ed25519 \<Rightarrow> relay_hints \<Rightarrow> bool" where
  "wf_hints C h \<longleftrightarrow> hintable C (rh_as_slice h) \<and> list_all wf_node (rh_as_slice h) \<and>
     h = pack_hints (rh_as_slice h)"

fun wf_offer :: "ed25519 \<Rightarrow> transport_offer \<Rightarrow> bool" where
  "wf_offer C (Iroh node) \<longleftrightarrow> wf_node node"
| "wf_offer C (BitTorrent infohash) \<longleftrightarrow> wf_infohash infohash"
| "wf_offer C (Libp2p node hints) \<longleftrightarrow> wf_node node \<and> wf_hints C hints"

lemma try_from_nodes_wf:
  "try_from_nodes C nodes = Ok h \<Longrightarrow> list_all wf_node nodes \<Longrightarrow>
     wf_hints C h \<and> rh_as_slice h = nodes"
  by (auto simp: try_from_nodes_Ok_iff wf_hints_def hintable_def MAX_LIBP2P_RELAY_HINTS_def
      pack_hints_slice)

lemma wf_hints_try_from_nodes:
  "wf_hints C h \<Longrightarrow> try_from_nodes C (rh_as_slice h) = Ok h"
  by (auto simp: try_from_nodes_Ok_iff wf_hints_def)

lemma wf_hints_length:
  assumes "wf_hints C h"
  shows "rh_length h = length (rh_as_slice h)" "length (rh_as_slice h) \<le> 2"
    "unat (of_nat (rh_length h) :: u8) = rh_length h"
proof -
  from assms show le: "length (rh_as_slice h) \<le> 2"
    by (simp add: wf_hints_def hintable_def MAX_LIBP2P_RELAY_HINTS_def)
  have "rh_len h = of_nat (length (rh_as_slice h))"
    using assms unfolding wf_hints_def by (metis pack_hints_def relay_hints.select_convs(2))
  with le show "rh_length h = length (rh_as_slice h)"
    by (simp add: rh_length_def unat_of_nat)
  with le show "unat (of_nat (rh_length h) :: u8) = rh_length h"
    by (simp add: unat_of_nat)
qed

end
