(* ===== verification/Reader.thy ===== *)
theory Reader
  imports Ids
begin

text \<open>
  The bounds-checked forward byte reader of \<open>src/peer-fabric/src/record_codec.rs\<close> with the decode
  errors it can raise, and the contract \<open>field_codec\<close> between a field writer and a field reader:
  the integer, array and node fields interpret it here, the transport offers in \<open>Record_Codec\<close>.
\<close>

datatype record_decode_error =
    Oversized nat nat
  | Truncated nat nat
  | TrailingBytes nat
  | UnknownVersion u16 u16
  | UnknownKind u8
  | UnknownOffer u8
  | BadInfoHash u8
  | TooManyOffers nat nat
  | OffersNotCanonical
  | IrohNodeNotProvider node_id node_id
  | Libp2pNodeNotProvider node_id node_id
  | TooManyRelayHints nat nat
  | RelayHintsNotCanonical
  | BadRelayIdentity node_id
  | Libp2pRelayIsProvider node_id node_id
  | MultipleLibp2pOffers nat
  | BadProviderKey
  | NonCanonicalSignature
  | BadSignature
  | WrongKey content_key content_key
  | Stale u64 u64

type_synonym 'a decoded = "(record_decode_error, 'a) result"

record reader =
  rd_buf :: bytes
  rd_pos :: nat

definition reader_new :: "bytes \<Rightarrow> reader" where
  "reader_new buf = \<lparr> rd_buf = buf, rd_pos = 0 \<rparr>"

text \<open>The \<open>checked_add\<close> of the cursor overflows at the 64-bit \<open>usize\<close>.\<close>

definition rd_take :: "nat \<Rightarrow> reader \<Rightarrow> (bytes \<times> reader) decoded" where
  "rd_take n r =
     (if 2 ^ 64 \<le> rd_pos r + n then Err (Truncated n (length (rd_buf r) - rd_pos r))
      else if rd_pos r + n > length (rd_buf r) then Err (Truncated n (length (rd_buf r) - rd_pos r))
      else Ok (take n (drop (rd_pos r) (rd_buf r)), r\<lparr>rd_pos := rd_pos r + n\<rparr>))"

definition rd_u8 :: "reader \<Rightarrow> (u8 \<times> reader) decoded" where
  "rd_u8 r = and_then (rd_take 1 r) (\<lambda>(bs, r). Ok (hd bs, r))"

definition rd_u16 :: "reader \<Rightarrow> (u16 \<times> reader) decoded" where
  "rd_u16 r = and_then (rd_take 2 r) (\<lambda>(bs, r). Ok (u16_from_be_bytes bs, r))"

definition rd_u64 :: "reader \<Rightarrow> (u64 \<times> reader) decoded" where
  "rd_u64 r = and_then (rd_take 8 r) (\<lambda>(bs, r). Ok (u64_from_be_bytes bs, r))"

definition rd_array :: "nat \<Rightarrow> reader \<Rightarrow> (bytes \<times> reader) decoded" where
  "rd_array N r = rd_take N r"

definition rd_remaining :: "reader \<Rightarrow> nat" where
  "rd_remaining r = length (rd_buf r) - rd_pos r"

definition rd_is_empty :: "reader \<Rightarrow> bool" where
  "rd_is_empty r \<longleftrightarrow> rd_pos r = length (rd_buf r)"

text \<open>\<open>rd_map\<close> wraps a field (\<open>NodeId::from_bytes(r.array()?)\<close>); \<open>rd_many\<close> is the loop
  \<open>for _ in 0..n { v.push(get(r)?) }\<close>.\<close>

definition rd_map :: "('a \<Rightarrow> 'b) \<Rightarrow> (reader \<Rightarrow> ('a \<times> reader) decoded) \<Rightarrow> reader \<Rightarrow> ('b \<times> reader) decoded" where
  "rd_map f get r = and_then (get r) (\<lambda>(x, r). Ok (f x, r))"

fun rd_many :: "nat \<Rightarrow> (reader \<Rightarrow> ('a \<times> reader) decoded) \<Rightarrow> reader \<Rightarrow> ('a list \<times> reader) decoded" where
  "rd_many 0 get r = Ok ([], r)"
| "rd_many (Suc n) get r =
     and_then (get r) (\<lambda>(x, r). and_then (rd_many n get r) (\<lambda>(xs, r). Ok (x # xs, r)))"

subsection \<open>The contract of a field\<close>

definition unread :: "reader \<Rightarrow> bytes" where
  "unread r = drop (rd_pos r) (rd_buf r)"

text \<open>A cursor inside a slice; a Rust slice is never longer than the address space.\<close>

definition reader_ok :: "reader \<Rightarrow> bool" where
  "reader_ok r \<longleftrightarrow> rd_pos r \<le> length (rd_buf r) \<and> length (rd_buf r) < 2 ^ 64"

definition advance :: "nat \<Rightarrow> reader \<Rightarrow> reader" where
  "advance n r = r\<lparr>rd_pos := rd_pos r + n\<rparr>"

lemma advance_0 [simp]: "advance 0 r = r"
  by (simp add: advance_def)

lemma advance_advance [simp]: "advance m (advance n r) = advance (n + m) r"
  by (simp add: advance_def)

lemma buf_advance [simp]: "rd_buf (advance n r) = rd_buf r"
  by (simp add: advance_def)

lemma unread_advance: "unread (advance n r) = drop n (unread r)"
  by (simp add: unread_def advance_def add.commute)

lemma unread_reader_new [simp]: "unread (reader_new buf) = buf"
  by (simp add: unread_def reader_new_def)

lemma buf_reader_new [simp]: "rd_buf (reader_new buf) = buf"
  by (simp add: reader_new_def)

lemma reader_ok_new [simp]: "reader_ok (reader_new buf) \<longleftrightarrow> length buf < 2 ^ 64"
  by (simp add: reader_ok_def reader_new_def)

lemma length_unread: "reader_ok r \<Longrightarrow> rd_pos r + length (unread r) = length (rd_buf r)"
  by (simp add: unread_def reader_ok_def)

lemma reader_ok_advance: "reader_ok r \<Longrightarrow> n \<le> length (unread r) \<Longrightarrow> reader_ok (advance n r)"
  using length_unread [of r] by (simp add: reader_ok_def advance_def)

lemma is_empty_iff: "reader_ok r \<Longrightarrow> rd_is_empty r \<longleftrightarrow> unread r = []"
  by (auto simp: rd_is_empty_def unread_def reader_ok_def)

lemma is_empty_advance: "reader_ok r \<Longrightarrow> unread r = bs \<Longrightarrow> rd_is_empty (advance (length bs) r)"
  using length_unread [of r] by (auto simp: rd_is_empty_def advance_def)

lemma rd_take_Ok_iff:
  assumes "reader_ok r"
  shows "rd_take n r = Ok (bs, r') \<longleftrightarrow> n \<le> length (unread r) \<and> bs = take n (unread r) \<and> r' = advance n r"
  using assms length_unread [OF assms]
  by (auto simp: rd_take_def unread_def advance_def reader_ok_def)

locale field_codec =
  fixes put :: "'a \<Rightarrow> bytes"
    and get :: "reader \<Rightarrow> ('a \<times> reader) decoded"
    and valid :: "'a \<Rightarrow> bool"
  assumes get_put: "reader_ok r \<Longrightarrow> valid x \<Longrightarrow> unread r = put x @ rest \<Longrightarrow>
      get r = Ok (x, advance (length (put x)) r)"
    and get_sound: "reader_ok r \<Longrightarrow> get r = Ok (x, r') \<Longrightarrow>
      valid x \<and> unread r = put x @ unread r' \<and> r' = advance (length (put x)) r"
begin

lemma get_reader_ok: "reader_ok r \<Longrightarrow> get r = Ok (x, r') \<Longrightarrow> reader_ok r'"
  using get_sound [of r x r'] reader_ok_advance [of r "length (put x)"] by simp

lemma get_append:
  assumes "reader_ok r" "valid x" "unread r = put x @ rest"
  shows "get r = Ok (x, advance (length (put x)) r)"
    and "reader_ok (advance (length (put x)) r)"
    and "unread (advance (length (put x)) r) = rest"
  using assms by (auto simp: get_put unread_advance intro!: reader_ok_advance)

lemma put_prefix_free:
  assumes "valid x" "valid y" "put x @ xs = put y @ ys" "length (put x @ xs) < 2 ^ 64"
  shows "x = y \<and> xs = ys"
proof -
  let ?r = "reader_new (put x @ xs)"
  have "get ?r = Ok (x, advance (length (put x)) ?r)"
    using assms by (intro get_put [where rest = xs]) auto
  moreover have "get ?r = Ok (y, advance (length (put y)) ?r)"
    using assms by (intro get_put [where rest = ys]) auto
  ultimately have "x = y" by simp
  with assms show ?thesis by simp
qed

lemma many_put:
  "reader_ok r \<Longrightarrow> list_all valid xs \<Longrightarrow> unread r = concat (map put xs) @ rest \<Longrightarrow>
     rd_many (length xs) get r = Ok (xs, advance (length (concat (map put xs))) r)"
proof (induction xs arbitrary: r)
  case (Cons x xs)
  then have "get r = Ok (x, advance (length (put x)) r)"
    and "reader_ok (advance (length (put x)) r)"
    and "unread (advance (length (put x)) r) = concat (map put xs) @ rest"
    using get_append [of r x "concat (map put xs) @ rest"] by auto
  then show ?case using Cons by simp
qed simp

lemma concat_put_inj:
  assumes "list_all valid xs" "list_all valid ys" "length xs = length ys"
    and eq: "concat (map put xs) = concat (map put ys)" and len: "length (concat (map put xs)) < 2 ^ 64"
  shows "xs = ys"
proof -
  let ?r = "reader_new (concat (map put xs))"
  have r: "reader_ok ?r" using len by (simp only: reader_ok_new)
  have "rd_many (length ys) get ?r = Ok (xs, advance (length (concat (map put xs))) ?r)"
    unfolding assms(3) [symmetric]
    by (rule many_put [OF r assms(1), of "[]"]) (simp only: unread_reader_new append_Nil2)
  moreover have "rd_many (length ys) get ?r = Ok (ys, advance (length (concat (map put ys))) ?r)"
    by (rule many_put [OF r assms(2), of "[]"]) (simp only: unread_reader_new append_Nil2 eq)
  ultimately show ?thesis by (simp only: sum.inject prod.inject)
qed

lemma many_sound:
  "reader_ok r \<Longrightarrow> rd_many n get r = Ok (xs, r') \<Longrightarrow>
     list_all valid xs \<and> length xs = n \<and> unread r = concat (map put xs) @ unread r' \<and>
     r' = advance (length (concat (map put xs))) r"
proof (induction n arbitrary: r xs)
  case (Suc n)
  then obtain x ys r1 where x: "get r = Ok (x, r1)" and ys: "rd_many n get r1 = Ok (ys, r')"
    and xs: "xs = x # ys"
    by auto
  note get_sound [OF Suc.prems(1) x] Suc.IH [OF get_reader_ok [OF Suc.prems(1) x] ys]
  then show ?case using xs by simp
qed simp

end

subsection \<open>The primitive fields\<close>

interpretation u8_field: field_codec "\<lambda>b. [b]" rd_u8 "\<lambda>_. True"
  by unfold_locales (auto simp: rd_u8_def rd_take_Ok_iff unread_advance take_Suc_conv_app_nth
      neq_Nil_conv Suc_le_length_iff)

interpretation array_field: field_codec "\<lambda>bs. bs" "rd_array n" "\<lambda>bs. length bs = n"
  by unfold_locales (auto simp: rd_array_def rd_take_Ok_iff unread_advance)

interpretation u16_field: field_codec u16_to_be_bytes rd_u16 "\<lambda>_. True"
  by unfold_locales (auto simp: rd_u16_def rd_take_Ok_iff unread_advance u16_be_canonical)

interpretation u64_field: field_codec u64_to_be_bytes rd_u64 "\<lambda>_. True"
  by unfold_locales (auto simp: rd_u64_def rd_take_Ok_iff unread_advance u64_be_canonical)

interpretation node_field: field_codec node_as_bytes "rd_map NodeId (rd_array NODE_ID_LEN)" wf_node
  by unfold_locales
    (auto simp: rd_map_def wf_node_def rd_array_def rd_take_Ok_iff unread_advance)

interpretation key_field: field_codec key_as_bytes "rd_map ContentKey (rd_array CONTENT_KEY_LEN)" wf_key
  by unfold_locales
    (auto simp: rd_map_def wf_key_def rd_array_def rd_take_Ok_iff unread_advance)

interpretation digest_field:
  field_codec digest_as_bytes "rd_map Blake3Digest (rd_array BLAKE3_DIGEST_LEN)" wf_digest
  by unfold_locales
    (auto simp: rd_map_def wf_digest_def rd_array_def rd_take_Ok_iff unread_advance)

end
