(* ===== verification/Record_Codec.thy ===== *)
theory Record_Codec
  imports Reader
begin

text \<open>
  The frozen wire codec of provider records, \<open>src/peer-fabric/src/record_codec.rs\<close>: offers,
  signing preimages, the encoders, the signing helpers and the fully validating decoder.
\<close>

subsection \<open>Constants and types\<close>

definition PROVIDER_RECORD_SCHEMA_VERSION :: u16 where "PROVIDER_RECORD_SCHEMA_VERSION = 1"
definition MAX_OFFERS_PER_RECORD :: nat where "MAX_OFFERS_PER_RECORD = 4"
definition MAX_PROVIDER_RECORD_BYTES :: nat where "MAX_PROVIDER_RECORD_BYTES = 1024"

definition SIGNING_DOMAIN :: bytes where
  "SIGNING_DOMAIN = map byte_of ''nix-p2p/discovery/ProviderRecord/v1'' @ [0]"

definition KIND_PROVIDE :: u8 where "KIND_PROVIDE = 0"
definition KIND_WITHDRAW :: u8 where "KIND_WITHDRAW = 1"
definition OFFER_IROH :: u8 where "OFFER_IROH = 0"
definition OFFER_BITTORRENT :: u8 where "OFFER_BITTORRENT = 1"
definition OFFER_LIBP2P :: u8 where "OFFER_LIBP2P = 2"
definition INFOHASH_V1 :: u8 where "INFOHASH_V1 = 1"
definition INFOHASH_V2 :: u8 where "INFOHASH_V2 = 2"
definition BODY_HEADER_LEN :: nat where "BODY_HEADER_LEN = 2 + 1 + 32 + 32 + 8 + 8 + 8"

lemmas wire_consts [codec_simps] =
  PROVIDER_RECORD_SCHEMA_VERSION_def MAX_OFFERS_PER_RECORD_def MAX_PROVIDER_RECORD_BYTES_def
  KIND_PROVIDE_def KIND_WITHDRAW_def OFFER_IROH_def OFFER_BITTORRENT_def OFFER_LIBP2P_def
  INFOHASH_V1_def INFOHASH_V2_def BODY_HEADER_LEN_def PROVIDER_SIGNATURE_LEN_def
  NODE_ID_LEN_def CONTENT_KEY_LEN_def BLAKE3_DIGEST_LEN_def MAX_LIBP2P_RELAY_HINTS_def

record provider_withdrawal =
  pw_key :: content_key
  pw_provider :: node_id
  pw_sequence :: u64
  pw_issued_at :: u64
  pw_expiry :: u64
  pw_signature :: bytes

datatype provider_assertion = Provide provider_record | Withdraw provider_withdrawal

fun pa_key :: "provider_assertion \<Rightarrow> content_key" where
  "pa_key (Provide r) = pr_key r"
| "pa_key (Withdraw w) = pw_key w"

fun pa_provider :: "provider_assertion \<Rightarrow> node_id" where
  "pa_provider (Provide r) = pr_provider r"
| "pa_provider (Withdraw w) = pw_provider w"

fun pa_sequence :: "provider_assertion \<Rightarrow> u64" where
  "pa_sequence (Provide r) = pr_sequence r"
| "pa_sequence (Withdraw w) = pw_sequence w"

fun pa_expiry :: "provider_assertion \<Rightarrow> u64" where
  "pa_expiry (Provide r) = pr_expiry r"
| "pa_expiry (Withdraw w) = pw_expiry w"

fun is_withdrawal :: "provider_assertion \<Rightarrow> bool" where
  "is_withdrawal (Provide r) = False"
| "is_withdrawal (Withdraw w) = True"

datatype record_encode_error =
    EncTooManyOffers nat nat
  | EncOversized nat nat
  | EncOffersNotCanonical
  | EncIrohNodeNotProvider node_id node_id
  | EncLibp2pNodeNotProvider node_id node_id
  | EncLibp2pRelayIsProvider node_id node_id
  | EncMultipleLibp2pOffers nat

subsection \<open>Encode\<close>

fun write_offer :: "bytes \<Rightarrow> transport_offer \<Rightarrow> bytes" where
  "write_offer out (Iroh node) = out @ [OFFER_IROH] @ node_as_bytes node"
| "write_offer out (BitTorrent infohash) = out @ [OFFER_BITTORRENT] @
     (case infohash of V1 b \<Rightarrow> [INFOHASH_V1] @ b | V2 b \<Rightarrow> [INFOHASH_V2] @ b)"
| "write_offer out (Libp2p node relay_hints) = out @ [OFFER_LIBP2P] @ node_as_bytes node @
     [of_nat (rh_length relay_hints)] @ concat (map node_as_bytes (rh_as_slice relay_hints))"

definition offer_encoding :: "transport_offer \<Rightarrow> bytes" where
  "offer_encoding offer = write_offer [] offer"

fun offers_are_canonical :: "transport_offer list \<Rightarrow> bool" where
  "offers_are_canonical (a # b # offers) \<longleftrightarrow>
     offer_encoding a < offer_encoding b \<and> offers_are_canonical (b # offers)"
| "offers_are_canonical _ \<longleftrightarrow> True"

fun check_provide_loop ::
  "node_id \<Rightarrow> nat \<Rightarrow> transport_offer list \<Rightarrow> (record_encode_error, nat) result" where
  "check_provide_loop provider libp2p_offers [] = Ok libp2p_offers"
| "check_provide_loop provider libp2p_offers (Iroh node # offers) =
     (if node \<noteq> provider then Err (EncIrohNodeNotProvider node provider)
      else check_provide_loop provider libp2p_offers offers)"
| "check_provide_loop provider libp2p_offers (Libp2p node relay_hints # offers) =
     (if node \<noteq> provider then Err (EncLibp2pNodeNotProvider node provider)
      else if List.member (rh_as_slice relay_hints) provider
        then Err (EncLibp2pRelayIsProvider provider provider)
      else check_provide_loop provider (libp2p_offers + 1) offers)"
| "check_provide_loop provider libp2p_offers (BitTorrent infohash # offers) =
     check_provide_loop provider libp2p_offers offers"

definition check_provide_invariants :: "provider_record \<Rightarrow> (record_encode_error, unit) result" where
  "check_provide_invariants r =
     (if length (pr_offers r) > MAX_OFFERS_PER_RECORD
        then Err (EncTooManyOffers (length (pr_offers r)) MAX_OFFERS_PER_RECORD)
      else if \<not> offers_are_canonical (pr_offers r) then Err EncOffersNotCanonical
      else and_then (check_provide_loop (pr_provider r) 0 (pr_offers r)) (\<lambda>libp2p_offers.
        if libp2p_offers > 1 then Err (EncMultipleLibp2pOffers libp2p_offers) else Ok ()))"

text \<open>\<open>provide_body\<close> asserts the offer cap before it narrows the count to a byte; \<open>None\<close> is that
  panic.\<close>

definition provide_body :: "provider_record \<Rightarrow> bytes option" where
  "provide_body r =
     (if length (pr_offers r) \<le> MAX_OFFERS_PER_RECORD then
        Some (u16_to_be_bytes PROVIDER_RECORD_SCHEMA_VERSION @ [KIND_PROVIDE] @
          key_as_bytes (pr_key r) @ node_as_bytes (pr_provider r) @
          u64_to_be_bytes (pr_sequence r) @ u64_to_be_bytes (pr_issued_at r) @
          u64_to_be_bytes (pr_expiry r) @ digest_as_bytes (pr_content r) @
          [of_nat (length (pr_offers r))] @
          foldl write_offer [] (pr_offers r))
      else None)"

definition withdraw_body :: "provider_withdrawal \<Rightarrow> bytes" where
  "withdraw_body w =
     u16_to_be_bytes PROVIDER_RECORD_SCHEMA_VERSION @ [KIND_WITHDRAW] @
     key_as_bytes (pw_key w) @ node_as_bytes (pw_provider w) @
     u64_to_be_bytes (pw_sequence w) @ u64_to_be_bytes (pw_issued_at w) @
     u64_to_be_bytes (pw_expiry w)"

definition signing_preimage :: "bytes \<Rightarrow> bytes" where
  "signing_preimage body = SIGNING_DOMAIN @ body"

definition provider_record_signing_bytes :: "provider_record \<Rightarrow> bytes option" where
  "provider_record_signing_bytes r = map_option signing_preimage (provide_body r)"

definition provider_withdrawal_signing_bytes :: "provider_withdrawal \<Rightarrow> bytes" where
  "provider_withdrawal_signing_bytes w = signing_preimage (withdraw_body w)"

definition check_encoded_size :: "nat \<Rightarrow> (record_encode_error, unit) result" where
  "check_encoded_size len =
     (if len > MAX_PROVIDER_RECORD_BYTES then Err (EncOversized len MAX_PROVIDER_RECORD_BYTES)
      else Ok ())"

text \<open>The cap is checked before \<open>provide_body\<close> runs, so its panic is out of reach here.\<close>

definition encode_provider_record :: "provider_record \<Rightarrow> (record_encode_error, bytes) result" where
  "encode_provider_record r =
     and_then (check_provide_invariants r) (\<lambda>_.
       let out = the (provide_body r) @ pr_signature r
       in and_then (check_encoded_size (length out)) (\<lambda>_. Ok out))"

definition encode_provider_withdrawal ::
  "provider_withdrawal \<Rightarrow> (record_encode_error, bytes) result" where
  "encode_provider_withdrawal w =
     (let out = withdraw_body w @ pw_signature w
      in and_then (check_encoded_size (length out)) (\<lambda>_. Ok out))"

fun encode_provider_assertion :: "provider_assertion \<Rightarrow> (record_encode_error, bytes) result" where
  "encode_provider_assertion (Provide r) = encode_provider_record r"
| "encode_provider_assertion (Withdraw w) = encode_provider_withdrawal w"

subsection \<open>Sign\<close>

definition UNSET_PROVIDER :: node_id where
  "UNSET_PROVIDER = NodeId (replicate NODE_ID_LEN 0)"

text \<open>The assertions of the signing loop; \<open>None\<close> is a failed \<open>assert!\<close>.\<close>

fun sign_offers_loop :: "node_id \<Rightarrow> nat \<Rightarrow> transport_offer list \<Rightarrow> nat option" where
  "sign_offers_loop provider libp2p_offers [] = Some libp2p_offers"
| "sign_offers_loop provider libp2p_offers (Iroh node # offers) =
     (if node = provider then sign_offers_loop provider libp2p_offers offers else None)"
| "sign_offers_loop provider libp2p_offers (Libp2p node relay_hints # offers) =
     (if node = provider \<and> \<not> List.member (rh_as_slice relay_hints) provider
      then sign_offers_loop provider (libp2p_offers + 1) offers else None)"
| "sign_offers_loop provider libp2p_offers (BitTorrent infohash # offers) =
     sign_offers_loop provider libp2p_offers offers"

text \<open>\<open>dbg\<close> says whether \<open>debug_assert!\<close> is compiled in.\<close>

definition sign_provider_record ::
  "ed25519 \<Rightarrow> bool \<Rightarrow> bytes \<Rightarrow> provider_record \<Rightarrow> provider_record option" where
  "sign_provider_record C dbg signing_key r =
     (let provider = NodeId (sk_verifying_key C signing_key) in
      if dbg \<and> \<not> (pr_provider r = UNSET_PROVIDER \<or> pr_provider r = provider) then None
      else Option.bind (sign_offers_loop provider 0 (pr_offers r)) (\<lambda>libp2p_offers.
        if libp2p_offers > 1 then None
        else let offers = sort_key offer_encoding (pr_offers r) in
          if \<not> offers_are_canonical offers then None
          else let signed = r\<lparr>pr_provider := provider, pr_offers := offers,
                              pr_signature := replicate PROVIDER_SIGNATURE_LEN 0\<rparr> in
            Option.bind (provider_record_signing_bytes signed) (\<lambda>m.
              Some (signed\<lparr>pr_signature := sk_sign C signing_key m\<rparr>))))"

definition sign_provider_withdrawal ::
  "ed25519 \<Rightarrow> bool \<Rightarrow> bytes \<Rightarrow> provider_withdrawal \<Rightarrow> provider_withdrawal option" where
  "sign_provider_withdrawal C dbg signing_key w =
     (let provider = NodeId (sk_verifying_key C signing_key) in
      if dbg \<and> \<not> (pw_provider w = UNSET_PROVIDER \<or> pw_provider w = provider) then None
      else let signed = w\<lparr>pw_provider := provider, pw_signature := replicate PROVIDER_SIGNATURE_LEN 0\<rparr> in
        Some (signed\<lparr>pw_signature := sk_sign C signing_key (provider_withdrawal_signing_bytes signed)\<rparr>))"

subsection \<open>Decode\<close>

fun relay_error :: "relay_hints_error \<Rightarrow> record_decode_error" where
  "relay_error (TooMany found cap) = TooManyRelayHints found cap"
| "relay_error (InvalidIdentity relay) = BadRelayIdentity relay"
| "relay_error (NotCanonical previous found) = RelayHintsNotCanonical"

abbreviation "rd_node \<equiv> rd_map NodeId (rd_array NODE_ID_LEN)"

definition read_offer :: "ed25519 \<Rightarrow> reader \<Rightarrow> (transport_offer \<times> reader) decoded" where
  "read_offer C r =
     and_then (rd_u8 r) (\<lambda>(tag, r).
       if tag = OFFER_IROH then and_then (rd_node r) (\<lambda>(node, r). Ok (Iroh node, r))
       else if tag = OFFER_BITTORRENT then
         and_then (rd_u8 r) (\<lambda>(version, r).
           if version = INFOHASH_V1 then and_then (rd_array 20 r) (\<lambda>(b, r). Ok (BitTorrent (V1 b), r))
           else if version = INFOHASH_V2 then and_then (rd_array 32 r) (\<lambda>(b, r). Ok (BitTorrent (V2 b), r))
           else Err (BadInfoHash version))
       else if tag = OFFER_LIBP2P then
         and_then (rd_node r) (\<lambda>(node, r).
         and_then (rd_u8 r) (\<lambda>(hint_count, r).
           if unat hint_count > MAX_LIBP2P_RELAY_HINTS
             then Err (TooManyRelayHints (unat hint_count) MAX_LIBP2P_RELAY_HINTS)
           else and_then (rd_many (unat hint_count) rd_node r) (\<lambda>(relay_nodes, r).
             and_then (map_err relay_error (try_from_nodes C relay_nodes)) (\<lambda>relay_hints.
               Ok (Libp2p node relay_hints, r)))))
       else Err (UnknownOffer tag))"

definition ED25519_ORDER_LE :: bytes where
  "ED25519_ORDER_LE =
     [0xed, 0xd3, 0xf5, 0x5c, 0x1a, 0x63, 0x12, 0x58, 0xd6, 0x9c, 0xf7, 0xa2, 0xde, 0xf9, 0xde, 0x14,
      0x00, 0x00, 0x00, 0x00, 0x00, 0x00, 0x00, 0x00, 0x00, 0x00, 0x00, 0x00, 0x00, 0x00, 0x00, 0x10]"

text \<open>\<open>scalar_below s l\<close> scans from the most significant byte, the last one, down.\<close>

fun scalar_below :: "nat \<Rightarrow> bytes \<Rightarrow> bytes \<Rightarrow> bool" where
  "scalar_below 0 s l = False"
| "scalar_below (Suc i) s l =
     (if s ! i < l ! i then True else if s ! i > l ! i then False else scalar_below i s l)"

definition signature_scalar_is_canonical :: "bytes \<Rightarrow> bool" where
  "signature_scalar_is_canonical sig_bytes = scalar_below 32 (drop 32 sig_bytes) ED25519_ORDER_LE"

definition verify :: "ed25519 \<Rightarrow> node_id \<Rightarrow> bytes \<Rightarrow> bytes \<Rightarrow> unit decoded" where
  "verify C provider body sig_bytes =
     (if \<not> signature_scalar_is_canonical sig_bytes then Err NonCanonicalSignature
      else if \<not> vk_from_bytes C (node_as_bytes provider) then Err BadProviderKey
      else if vk_verify_strict C (node_as_bytes provider) (signing_preimage body) sig_bytes then Ok ()
      else Err BadSignature)"

fun decode_offers_loop :: "node_id \<Rightarrow> nat \<Rightarrow> transport_offer list \<Rightarrow> nat decoded" where
  "decode_offers_loop provider libp2p_offers [] = Ok libp2p_offers"
| "decode_offers_loop provider libp2p_offers (Iroh node # offers) =
     (if node \<noteq> provider then Err (IrohNodeNotProvider node provider)
      else decode_offers_loop provider libp2p_offers offers)"
| "decode_offers_loop provider libp2p_offers (Libp2p node relay_hints # offers) =
     (if node \<noteq> provider then Err (Libp2pNodeNotProvider node provider)
      else if List.member (rh_as_slice relay_hints) provider
        then Err (Libp2pRelayIsProvider provider provider)
      else decode_offers_loop provider (libp2p_offers + 1) offers)"
| "decode_offers_loop provider libp2p_offers (BitTorrent infohash # offers) =
     decode_offers_loop provider libp2p_offers offers"

definition decode_offers ::
  "ed25519 \<Rightarrow> node_id \<Rightarrow> reader \<Rightarrow> (transport_offer list \<times> reader) decoded" where
  "decode_offers C provider r =
     and_then (rd_u8 r) (\<lambda>(offers_len, r).
       if unat offers_len > MAX_OFFERS_PER_RECORD
         then Err (TooManyOffers (unat offers_len) MAX_OFFERS_PER_RECORD)
       else and_then (rd_many (unat offers_len) (read_offer C) r) (\<lambda>(offers, r).
         and_then (decode_offers_loop provider 0 offers) (\<lambda>libp2p_offers.
           if libp2p_offers > 1 then Err (MultipleLibp2pOffers libp2p_offers)
           else if \<not> offers_are_canonical offers then Err OffersNotCanonical
           else Ok (offers, r))))"

definition decode_body ::
  "ed25519 \<Rightarrow> u8 \<Rightarrow> content_key \<Rightarrow> node_id \<Rightarrow> u64 \<Rightarrow> u64 \<Rightarrow> u64 \<Rightarrow> bytes \<Rightarrow> reader \<Rightarrow>
     (provider_assertion \<times> reader) decoded" where
  "decode_body C kind key provider sequence issued_at expiry sig_bytes r =
     (if kind = KIND_PROVIDE then
        and_then (rd_map Blake3Digest (rd_array BLAKE3_DIGEST_LEN) r) (\<lambda>(content, r).
        and_then (decode_offers C provider r) (\<lambda>(offers, r).
          Ok (Provide \<lparr> pr_key = key, pr_content = content, pr_provider = provider,
                pr_offers = offers, pr_sequence = sequence, pr_issued_at = issued_at,
                pr_expiry = expiry, pr_signature = sig_bytes \<rparr>, r)))
      else if kind = KIND_WITHDRAW then
        Ok (Withdraw \<lparr> pw_key = key, pw_provider = provider, pw_sequence = sequence,
              pw_issued_at = issued_at, pw_expiry = expiry, pw_signature = sig_bytes \<rparr>, r)
      else Err (UnknownKind kind))"

definition decode_provider_assertion ::
  "ed25519 \<Rightarrow> bytes \<Rightarrow> content_key \<Rightarrow> u64 \<Rightarrow> provider_assertion decoded" where
  "decode_provider_assertion C bytes expected_key now =
     (if length bytes > MAX_PROVIDER_RECORD_BYTES
        then Err (Oversized (length bytes) MAX_PROVIDER_RECORD_BYTES)
      else if length bytes < BODY_HEADER_LEN + PROVIDER_SIGNATURE_LEN
        then Err (Truncated (BODY_HEADER_LEN + PROVIDER_SIGNATURE_LEN) (length bytes))
      else
        let sig_start = length bytes - PROVIDER_SIGNATURE_LEN;
            body = take sig_start bytes;
            sig_bytes = drop sig_start bytes in
        and_then (rd_u16 (reader_new body)) (\<lambda>(version, r).
        if version \<noteq> PROVIDER_RECORD_SCHEMA_VERSION
          then Err (UnknownVersion version PROVIDER_RECORD_SCHEMA_VERSION)
        else
        and_then (rd_u8 r) (\<lambda>(kind, r).
        and_then (rd_map ContentKey (rd_array CONTENT_KEY_LEN) r) (\<lambda>(key, r).
        and_then (rd_node r) (\<lambda>(provider, r).
        and_then (rd_u64 r) (\<lambda>(sequence, r).
        and_then (rd_u64 r) (\<lambda>(issued_at, r).
        and_then (rd_u64 r) (\<lambda>(expiry, r).
        and_then (decode_body C kind key provider sequence issued_at expiry sig_bytes r) (\<lambda>(assertion, r).
        if \<not> rd_is_empty r then Err (TrailingBytes (rd_remaining r))
        else
        and_then (verify C provider body sig_bytes) (\<lambda>_.
        if key \<noteq> expected_key then Err (WrongKey expected_key key)
        else if expiry \<le> now then Err (Stale expiry now)
        else Ok assertion))))))))))"

subsection \<open>Offers are a field\<close>

lemma offer_encoding_simps [codec_simps]:
  "offer_encoding (Iroh node) = [OFFER_IROH] @ node_as_bytes node"
  "offer_encoding (BitTorrent (V1 b)) = [OFFER_BITTORRENT] @ [INFOHASH_V1] @ b"
  "offer_encoding (BitTorrent (V2 b)) = [OFFER_BITTORRENT] @ [INFOHASH_V2] @ b"
  "offer_encoding (Libp2p node h) = [OFFER_LIBP2P] @ node_as_bytes node @
     [of_nat (rh_length h)] @ concat (map node_as_bytes (rh_as_slice h))"
  by (simp_all add: offer_encoding_def)

lemma write_offer_append: "write_offer out offer = out @ offer_encoding offer"
  by (cases offer) (auto simp: offer_encoding_def)

lemma foldl_write_offer: "foldl write_offer out offers = out @ concat (map offer_encoding offers)"
  by (induction offers arbitrary: out) (auto simp: write_offer_append)

lemma read_offer_put_libp2p:
  assumes r: "reader_ok r" and wf: "wf_offer C (Libp2p node h)"
    and u: "unread r = offer_encoding (Libp2p node h) @ rest"
  shows "read_offer C r = Ok (Libp2p node h, advance (length (offer_encoding (Libp2p node h))) r)"
proof -
  let ?hints = "concat (map node_as_bytes (rh_as_slice h))"
  note len = wf_hints_length [of C h]
  from wf have h: "wf_hints C h" and node: "wf_node node" by auto
  note t = u8_field.get_append [OF r, of OFFER_LIBP2P
      "node_as_bytes node @ [of_nat (rh_length h)] @ ?hints @ rest"]
  note n = node_field.get_append [OF t(2) node, of "[of_nat (rh_length h)] @ ?hints @ rest"]
  note c = u8_field.get_append [OF n(2), of "of_nat (rh_length h)" "?hints @ rest"]
  have many: "rd_many (length (rh_as_slice h)) rd_node
      (advance 1 (advance (length (node_as_bytes node)) (advance 1 r))) =
      Ok (rh_as_slice h, advance (length ?hints)
        (advance 1 (advance (length (node_as_bytes node)) (advance 1 r))))"
    using c h t n u by (intro node_field.many_put) (auto simp: wf_hints_def codec_simps)
  show ?thesis
    using t n c many u len [OF h] wf_hints_try_from_nodes [OF h]
    by (auto simp: read_offer_def offer_encoding_simps wire_consts)
qed

lemma read_libp2p_sound:
  assumes r: "reader_ok r" and node: "rd_node r = Ok (node, r1)" and count: "rd_u8 r1 = Ok (n, r2)"
    and nodes: "rd_many (unat n) rd_node r2 = Ok (nodes, r')" and hints: "try_from_nodes C nodes = Ok h"
  shows "wf_offer C (Libp2p node h) \<and>
    unread r = node_as_bytes node @ [of_nat (rh_length h)] @ concat (map node_as_bytes (rh_as_slice h)) @ unread r' \<and>
    r' = advance (length (node_as_bytes node @ [of_nat (rh_length h)] @ concat (map node_as_bytes (rh_as_slice h)))) r"
proof -
  note a = node_field.get_sound [OF r node] node_field.get_reader_ok [OF r node]
  note b = u8_field.get_sound [OF a(2) count] u8_field.get_reader_ok [OF a(2) count]
  note c = node_field.many_sound [OF b(2) nodes]
  have wf: "wf_hints C h" and slice: "rh_as_slice h = nodes"
    using try_from_nodes_wf [OF hints] c by auto
  have "rh_length h = unat n"
    using wf_hints_length(1) [OF wf] slice c by simp
  then show ?thesis using a b c wf slice by auto
qed

interpretation offer_field: field_codec offer_encoding "read_offer C" "wf_offer C"
proof
  fix r x rest
  assume r: "reader_ok r" and wf: "wf_offer C x" and u: "unread r = offer_encoding x @ rest"
  show "read_offer C r = Ok (x, advance (length (offer_encoding x)) r)"
  proof (cases x)
    case (Iroh node)
    note t = u8_field.get_append [OF r, of OFFER_IROH "node_as_bytes node @ rest"]
    note n = node_field.get_append [OF t(2), of node rest]
    show ?thesis using t n u wf Iroh by (auto simp: read_offer_def codec_simps)
  next
    case (BitTorrent ih)
    show ?thesis
    proof (cases ih)
      case (V1 b)
      note t = u8_field.get_append [OF r, of OFFER_BITTORRENT "[INFOHASH_V1] @ b @ rest"]
      note v = u8_field.get_append [OF t(2), of INFOHASH_V1 "b @ rest"]
      note n = array_field.get_append [OF v(2), of b 20 rest]
      show ?thesis using t v n u wf BitTorrent V1 by (auto simp: read_offer_def codec_simps)
    next
      case (V2 b)
      note t = u8_field.get_append [OF r, of OFFER_BITTORRENT "[INFOHASH_V2] @ b @ rest"]
      note v = u8_field.get_append [OF t(2), of INFOHASH_V2 "b @ rest"]
      note n = array_field.get_append [OF v(2), of b 32 rest]
      show ?thesis using t v n u wf BitTorrent V2 by (auto simp: read_offer_def codec_simps)
    qed
  next
    case (Libp2p node h)
    then show ?thesis using read_offer_put_libp2p r wf u by simp
  qed
next
  fix r x r'
  assume r: "reader_ok r" and get: "read_offer C r = Ok (x, r')"
  show "wf_offer C x \<and> unread r = offer_encoding x @ unread r' \<and>
      r' = advance (length (offer_encoding x)) r"
  proof -
    obtain tag r1 where tag: "rd_u8 r = Ok (tag, r1)"
      using get by (auto simp: read_offer_def)
    note t = u8_field.get_sound [OF r tag] and r1 = u8_field.get_reader_ok [OF r tag]
    consider "tag = OFFER_IROH" | "tag = OFFER_BITTORRENT" | "tag = OFFER_LIBP2P"
      using get tag by (auto simp: read_offer_def split: if_splits)
    then show ?thesis
    proof cases
      case 1
      then obtain node where n: "rd_node r1 = Ok (node, r')" and x: "x = Iroh node"
        using get tag by (auto simp: read_offer_def)
      show ?thesis using node_field.get_sound [OF r1 n] 1 t x by (auto simp: offer_encoding_simps)
    next
      case 2
      then obtain v r2 where v: "rd_u8 r1 = Ok (v, r2)"
        using get tag by (auto simp: read_offer_def wire_consts split: if_splits)
      note w = u8_field.get_sound [OF r1 v] and r2 = u8_field.get_reader_ok [OF r1 v]
      from 2 get tag v consider b where "v = INFOHASH_V1" "rd_array 20 r2 = Ok (b, r')" "x = BitTorrent (V1 b)"
        | b where "v = INFOHASH_V2" "rd_array 32 r2 = Ok (b, r')" "x = BitTorrent (V2 b)"
        by (auto simp: read_offer_def wire_consts split: if_splits)
      then show ?thesis
      proof cases
        case b: 1
        show ?thesis using 2 t w b array_field.get_sound [OF r2 b(2)] by (auto simp: offer_encoding_simps)
      next
        case b: 2
        show ?thesis using 2 t w b array_field.get_sound [OF r2 b(2)] by (auto simp: offer_encoding_simps)
      qed
    next
      case 3
      then obtain node r2 n r3 nodes h where "rd_node r1 = Ok (node, r2)" "rd_u8 r2 = Ok (n, r3)"
        "rd_many (unat n) rd_node r3 = Ok (nodes, r')" "try_from_nodes C nodes = Ok h" "x = Libp2p node h"
        using get tag
        by (auto simp: read_offer_def OFFER_LIBP2P_def OFFER_IROH_def OFFER_BITTORRENT_def split: if_splits)
      then show ?thesis
        using read_libp2p_sound [OF r1, of node r2 n r3 nodes r' C h] 3 t
        by (auto simp: offer_encoding_simps)
    qed
  qed
qed

subsection \<open>The offer-list invariants\<close>

fun offer_in_context :: "node_id \<Rightarrow> transport_offer \<Rightarrow> bool" where
  "offer_in_context provider (Iroh node) \<longleftrightarrow> node = provider"
| "offer_in_context provider (BitTorrent infohash) \<longleftrightarrow> True"
| "offer_in_context provider (Libp2p node h) \<longleftrightarrow> node = provider \<and> provider \<notin> set (rh_as_slice h)"

definition libp2p_count :: "transport_offer list \<Rightarrow> nat" where
  "libp2p_count offers = length (filter (\<lambda>offer. tag_of offer = TagLibp2p) offers)"

text \<open>What every published offer list satisfies, whichever side checks it.\<close>

definition publishable :: "node_id \<Rightarrow> transport_offer list \<Rightarrow> bool" where
  "publishable provider offers \<longleftrightarrow>
     length offers \<le> MAX_OFFERS_PER_RECORD \<and> offers_are_canonical offers \<and>
     list_all (offer_in_context provider) offers \<and> libp2p_count offers \<le> 1"

lemma libp2p_count_simps [simp]:
  "libp2p_count [] = 0"
  "libp2p_count (Iroh n # offers) = libp2p_count offers"
  "libp2p_count (BitTorrent i # offers) = libp2p_count offers"
  "libp2p_count (Libp2p n h # offers) = Suc (libp2p_count offers)"
  by (simp_all add: libp2p_count_def)

lemma check_provide_loop_Ok_iff:
  "check_provide_loop p k offers = Ok n \<longleftrightarrow>
     list_all (offer_in_context p) offers \<and> n = k + libp2p_count offers"
  by (induction p k offers rule: check_provide_loop.induct) auto

lemma decode_offers_loop_Ok_iff:
  "decode_offers_loop p k offers = Ok n \<longleftrightarrow>
     list_all (offer_in_context p) offers \<and> n = k + libp2p_count offers"
  by (induction p k offers rule: decode_offers_loop.induct) auto

lemma sign_offers_loop_Some_iff:
  "sign_offers_loop p k offers = Some n \<longleftrightarrow>
     list_all (offer_in_context p) offers \<and> n = k + libp2p_count offers"
  by (induction p k offers rule: sign_offers_loop.induct) auto

lemma check_provide_invariants_Ok_iff:
  "check_provide_invariants r = Ok u \<longleftrightarrow> publishable (pr_provider r) (pr_offers r)"
  by (auto simp: check_provide_invariants_def publishable_def check_provide_loop_Ok_iff split: if_splits)

lemma offers_are_canonical_iff:
  "offers_are_canonical offers \<longleftrightarrow> sorted_wrt (\<lambda>a b. offer_encoding a < offer_encoding b) offers"
proof (induction offers rule: offers_are_canonical.induct)
  case (1 a b offers)
  then show ?case by (auto dest: order.strict_trans)
qed auto

subsection \<open>Sizes\<close>

lemma length_concat_nodes: "list_all wf_node ns \<Longrightarrow> length (concat (map node_as_bytes ns)) = 32 * length ns"
  by (induction ns) (auto simp: wf_node_def NODE_ID_LEN_def)

lemma length_offer_encoding: "wf_offer C offer \<Longrightarrow> length (offer_encoding offer) \<le> 98"
proof (cases offer)
  case (Libp2p node h)
  moreover assume "wf_offer C offer"
  ultimately have "wf_hints C h" and "wf_node node" by auto
  then show ?thesis
    using Libp2p wf_hints_length(2) [of C h] length_concat_nodes [of "rh_as_slice h"]
    by (simp add: offer_encoding_simps wf_hints_def wf_node_def NODE_ID_LEN_def del: length_concat)
next
  case (BitTorrent ih)
  moreover assume "wf_offer C offer"
  ultimately show ?thesis by (cases ih) (auto simp: offer_encoding_simps)
qed (auto simp: offer_encoding_simps wf_node_def NODE_ID_LEN_def)

lemma length_concat_offers:
  "list_all (wf_offer C) offers \<Longrightarrow>
     length (concat (map offer_encoding offers)) \<le> 98 * length offers"
proof (induction offers)
  case (Cons offer offers)
  then show ?case using length_offer_encoding [of C offer] by (simp del: length_concat)
qed simp

fun wf_assertion :: "ed25519 \<Rightarrow> provider_assertion \<Rightarrow> bool" where
  "wf_assertion C (Provide r) \<longleftrightarrow>
     wf_key (pr_key r) \<and> wf_digest (pr_content r) \<and> wf_node (pr_provider r) \<and>
     list_all (wf_offer C) (pr_offers r) \<and> length (pr_signature r) = PROVIDER_SIGNATURE_LEN"
| "wf_assertion C (Withdraw w) \<longleftrightarrow>
     wf_key (pw_key w) \<and> wf_node (pw_provider w) \<and> length (pw_signature w) = PROVIDER_SIGNATURE_LEN"

fun assertion_body :: "provider_assertion \<Rightarrow> bytes" where
  "assertion_body (Provide r) = the (provide_body r)"
| "assertion_body (Withdraw w) = withdraw_body w"

fun assertion_signature :: "provider_assertion \<Rightarrow> bytes" where
  "assertion_signature (Provide r) = pr_signature r"
| "assertion_signature (Withdraw w) = pw_signature w"

fun publishable_assertion :: "provider_assertion \<Rightarrow> bool" where
  "publishable_assertion (Provide r) \<longleftrightarrow> publishable (pr_provider r) (pr_offers r)"
| "publishable_assertion (Withdraw w) \<longleftrightarrow> True"

lemma length_assertion_body:
  assumes "wf_assertion C a" "publishable_assertion a"
  shows "length (assertion_body a) \<le> 516" "91 \<le> length (assertion_body a)"
proof -
  have "length (assertion_body a) \<le> 516 \<and> 91 \<le> length (assertion_body a)"
  proof (cases a)
    case (Provide r)
    then have "length (concat (map offer_encoding (pr_offers r))) \<le> 98 * 4"
      using assms length_concat_offers [of C "pr_offers r"]
      by (auto simp: publishable_def MAX_OFFERS_PER_RECORD_def simp del: length_concat)
    then show ?thesis
      using Provide assms
      by (auto simp: publishable_def provide_body_def foldl_write_offer wf_key_def wf_node_def
          wf_digest_def wire_consts simp del: length_concat)
  next
    case (Withdraw w)
    then show ?thesis using assms
      by (auto simp: withdraw_body_def wf_key_def wf_node_def wire_consts)
  qed
  then show "length (assertion_body a) \<le> 516" "91 \<le> length (assertion_body a)" by auto
qed

lemma encode_Ok_iff:
  assumes "wf_assertion C a"
  shows "encode_provider_assertion a = Ok bytes \<longleftrightarrow>
    publishable_assertion a \<and> bytes = assertion_body a @ assertion_signature a"
proof (cases "publishable_assertion a")
  case True
  then show ?thesis
    using assms length_assertion_body [OF assms True]
    by (cases a) (auto simp: encode_provider_record_def encode_provider_withdrawal_def Let_def
      check_provide_invariants_Ok_iff check_encoded_size_def wire_consts)
next
  case False
  then show ?thesis
    by (cases a) (auto simp: encode_provider_record_def check_provide_invariants_Ok_iff)
qed

subsection \<open>The decoder accepts exactly the encodings\<close>

fun pa_issued_at :: "provider_assertion \<Rightarrow> u64" where
  "pa_issued_at (Provide r) = pr_issued_at r"
| "pa_issued_at (Withdraw w) = pw_issued_at w"

fun assertion_kind :: "provider_assertion \<Rightarrow> u8" where
  "assertion_kind (Provide r) = KIND_PROVIDE"
| "assertion_kind (Withdraw w) = KIND_WITHDRAW"

fun assertion_tail :: "provider_assertion \<Rightarrow> bytes" where
  "assertion_tail (Provide r) = digest_as_bytes (pr_content r) @
     [of_nat (length (pr_offers r))] @ concat (map offer_encoding (pr_offers r))"
| "assertion_tail (Withdraw w) = []"

lemma assertion_body_layout:
  "publishable_assertion a \<Longrightarrow> assertion_body a =
     u16_to_be_bytes PROVIDER_RECORD_SCHEMA_VERSION @ [assertion_kind a] @ key_as_bytes (pa_key a) @
     node_as_bytes (pa_provider a) @ u64_to_be_bytes (pa_sequence a) @
     u64_to_be_bytes (pa_issued_at a) @ u64_to_be_bytes (pa_expiry a) @ assertion_tail a"
  by (cases a) (auto simp: publishable_def provide_body_def withdraw_body_def foldl_write_offer)

lemma decode_offers_put:
  assumes r: "reader_ok r" and wf: "list_all (wf_offer C) offers" and p: "publishable provider offers"
    and u: "unread r = [of_nat (length offers)] @ concat (map offer_encoding offers) @ rest"
  shows "decode_offers C provider r =
    Ok (offers, advance (Suc (length (concat (map offer_encoding offers)))) r)"
proof -
  note c = u8_field.get_append [OF r, of "of_nat (length offers)" "concat (map offer_encoding offers) @ rest"]
  have n: "unat (of_nat (length offers) :: u8) = length offers"
    using p by (simp add: unat_of_nat publishable_def MAX_OFFERS_PER_RECORD_def)
  have m: "rd_many (length offers) (read_offer C) (advance 1 r) =
      Ok (offers, advance (length (concat (map offer_encoding offers))) (advance 1 r))"
    using c u wf by (intro offer_field.many_put) auto
  show ?thesis
    using c u m n p
    by (auto simp: decode_offers_def publishable_def decode_offers_loop_Ok_iff and_then_Err_iff
        intro!: exI [of _ "libp2p_count offers"])
qed

lemma decode_offers_sound:
  assumes r: "reader_ok r" and d: "decode_offers C provider r = Ok (offers, r')"
  shows "list_all (wf_offer C) offers \<and> publishable provider offers \<and>
    unread r = [of_nat (length offers)] @ concat (map offer_encoding offers) @ unread r' \<and>
    r' = advance (Suc (length (concat (map offer_encoding offers)))) r"
proof -
  obtain n r1 where n: "rd_u8 r = Ok (n, r1)" and m: "rd_many (unat n) (read_offer C) r1 = Ok (offers, r')"
    and p: "publishable provider offers"
  proof -
    from d obtain n r1 where n: "rd_u8 r = Ok (n, r1)" "unat n \<le> MAX_OFFERS_PER_RECORD"
      and m: "rd_many (unat n) (read_offer C) r1 = Ok (offers, r')"
      and rest: "list_all (offer_in_context provider) offers" "libp2p_count offers \<le> 1"
        "offers_are_canonical offers"
      by (auto simp: decode_offers_def decode_offers_loop_Ok_iff split: if_splits)
    have "length offers = unat n"
      using offer_field.many_sound [OF u8_field.get_reader_ok [OF r n(1)] m] by simp
    then show ?thesis using that n m rest by (simp add: publishable_def)
  qed
  note c = u8_field.get_sound [OF r n] offer_field.many_sound [OF u8_field.get_reader_ok [OF r n] m]
  then show ?thesis using p by (auto simp del: length_concat)
qed

lemma decode_body_put:
  assumes r: "reader_ok r" and wf: "wf_assertion C a" and p: "publishable_assertion a"
    and u: "unread r = assertion_tail a"
  shows "decode_body C (assertion_kind a) (pa_key a) (pa_provider a) (pa_sequence a) (pa_issued_at a)
      (pa_expiry a) (assertion_signature a) r = Ok (a, advance (length (assertion_tail a)) r)"
proof (cases a)
  case (Provide rec)
  let ?os = "concat (map offer_encoding (pr_offers rec))"
  note d = digest_field.get_append [OF r, of "pr_content rec" "[of_nat (length (pr_offers rec))] @ ?os"]
  note o = decode_offers_put [OF d(2), of C "pr_offers rec" "pr_provider rec" "[]"]
  show ?thesis using d o u wf p Provide
    by (auto simp: decode_body_def simp del: length_concat)
next
  case (Withdraw w)
  then show ?thesis by (simp add: decode_body_def wire_consts)
qed

lemma decode_body_sound:
  assumes r: "reader_ok r" and wf: "wf_key key" "wf_node provider" "length sig = PROVIDER_SIGNATURE_LEN"
    and d: "decode_body C kind key provider sequence issued_at expiry sig r = Ok (a, r')"
  shows "wf_assertion C a \<and> publishable_assertion a \<and> kind = assertion_kind a \<and> key = pa_key a \<and>
    provider = pa_provider a \<and> sequence = pa_sequence a \<and> issued_at = pa_issued_at a \<and>
    expiry = pa_expiry a \<and> sig = assertion_signature a \<and>
    unread r = assertion_tail a @ unread r' \<and> r' = advance (length (assertion_tail a)) r"
proof (cases "kind = KIND_PROVIDE")
  case True
  then obtain content r1 offers where c: "rd_map Blake3Digest (rd_array BLAKE3_DIGEST_LEN) r = Ok (content, r1)"
    and o: "decode_offers C provider r1 = Ok (offers, r')"
    and a: "a = Provide \<lparr> pr_key = key, pr_content = content, pr_provider = provider,
                pr_offers = offers, pr_sequence = sequence, pr_issued_at = issued_at,
                pr_expiry = expiry, pr_signature = sig \<rparr>"
    using d by (auto simp: decode_body_def)
  note digest_field.get_sound [OF r c] decode_offers_sound [OF digest_field.get_reader_ok [OF r c] o]
  then show ?thesis using a True wf by (auto simp del: length_concat)
next
  case False
  then show ?thesis using d wf by (auto simp: decode_body_def split: if_splits)
qed

text \<open>The signature check the decoder runs over the received body.\<close>

definition authentic :: "ed25519 \<Rightarrow> provider_assertion \<Rightarrow> bool" where
  "authentic C a \<longleftrightarrow> verify C (pa_provider a) (assertion_body a) (assertion_signature a) = Ok ()"

lemma decode_complete:
  assumes wf: "wf_assertion C a" and enc: "encode_provider_assertion a = Ok bytes"
    and auth: "authentic C a" and fresh: "now < pa_expiry a"
  shows "decode_provider_assertion C bytes (pa_key a) now = Ok a"
proof -
  have p: "publishable_assertion a" and b: "bytes = assertion_body a @ assertion_signature a"
    using enc encode_Ok_iff [OF wf] by auto
  have sig: "length (assertion_signature a) = 64"
    using wf by (cases a) (auto simp: PROVIDER_SIGNATURE_LEN_def)
  have ks: "wf_key (pa_key a)" "wf_node (pa_provider a)"
    using wf by (cases a; auto)+
  note len = length_assertion_body [OF wf p]
  let ?r = "reader_new (assertion_body a)"
  have r: "reader_ok ?r" using len by simp
  note lay = assertion_body_layout [OF p]
  note v = u16_field.get_append [OF r TrueI unread_reader_new [THEN trans, OF lay]]
  note k = u8_field.get_append [OF v(2) TrueI v(3)]
  note ky = key_field.get_append [OF k(2) ks(1) k(3)]
  note pv = node_field.get_append [OF ky(2) ks(2) ky(3)]
  note sq = u64_field.get_append [OF pv(2) TrueI pv(3)]
  note iss = u64_field.get_append [OF sq(2) TrueI sq(3)]
  note ex = u64_field.get_append [OF iss(2) TrueI iss(3)]
  note bd = decode_body_put [OF ex(2) wf p ex(3)]
  note empty = is_empty_advance [OF ex(2,3)]
  have split: "take (length bytes - 64) bytes = assertion_body a"
      "drop (length bytes - 64) bytes = assertion_signature a"
    using b sig by auto
  have gates: "\<not> MAX_PROVIDER_RECORD_BYTES < length bytes" "\<not> length bytes < BODY_HEADER_LEN + 64"
    "\<not> pa_expiry a \<le> now"
    using len b sig fresh by (simp_all add: MAX_PROVIDER_RECORD_BYTES_def BODY_HEADER_LEN_def)
  show ?thesis
    unfolding decode_provider_assertion_def Let_def PROVIDER_SIGNATURE_LEN_def split
    by (simp only: gates v(1) k(1) ky(1) pv(1) sq(1) iss(1) ex(1) bd empty auth [unfolded authentic_def]
        and_then.simps prod.case simp_thms if_False)
qed

lemma decode_length_gate:
  "1024 < length bytes \<Longrightarrow> decode_provider_assertion C bytes k now = Err (Oversized (length bytes) 1024)"
  "length bytes < 155 \<Longrightarrow> decode_provider_assertion C bytes k now = Err (Truncated 155 (length bytes))"
  by (simp_all add: decode_provider_assertion_def wire_consts)

lemma decode_sound:
  assumes "decode_provider_assertion C bytes expected_key now = Ok a"
  shows "wf_assertion C a \<and> encode_provider_assertion a = Ok bytes \<and> authentic C a \<and>
    pa_key a = expected_key \<and> now < pa_expiry a"
proof -
  let ?n = "length bytes - 64"
  let ?body = "take ?n bytes" and ?sig = "drop ?n bytes"
  have len: "length bytes \<le> 1024" "155 \<le> length bytes"
    using assms decode_length_gate [of bytes C expected_key now] by fastforce+
  obtain version r1 kind r2 key r3 provider r4 sequence r5 issued_at r6 expiry r7 r8
    where 1: "rd_u16 (reader_new ?body) = Ok (version, r1)"
      and version: "version = PROVIDER_RECORD_SCHEMA_VERSION"
      and 2: "rd_u8 r1 = Ok (kind, r2)"
      and 3: "rd_map ContentKey (rd_array CONTENT_KEY_LEN) r2 = Ok (key, r3)"
      and 4: "rd_node r3 = Ok (provider, r4)"
      and 5: "rd_u64 r4 = Ok (sequence, r5)"
      and 6: "rd_u64 r5 = Ok (issued_at, r6)"
      and 7: "rd_u64 r6 = Ok (expiry, r7)"
      and 8: "decode_body C kind key provider sequence issued_at expiry ?sig r7 = Ok (a, r8)"
      and empty: "rd_is_empty r8" and verify: "verify C provider ?body ?sig = Ok ()"
      and key: "key = expected_key" and fresh: "now < expiry"
    using assms
    unfolding decode_provider_assertion_def Let_def PROVIDER_SIGNATURE_LEN_def
    by (elim result_elims, intro that)
      (assumption | erule notnotD | simp add: not_le)+
  have r0: "reader_ok (reader_new ?body)" using len by simp
  note s1 = u16_field.get_sound [OF r0 1] and o1 = u16_field.get_reader_ok [OF r0 1]
  note s2 = u8_field.get_sound [OF o1 2] and o2 = u8_field.get_reader_ok [OF o1 2]
  note s3 = key_field.get_sound [OF o2 3] and o3 = key_field.get_reader_ok [OF o2 3]
  note s4 = node_field.get_sound [OF o3 4] and o4 = node_field.get_reader_ok [OF o3 4]
  note s5 = u64_field.get_sound [OF o4 5] and o5 = u64_field.get_reader_ok [OF o4 5]
  note s6 = u64_field.get_sound [OF o5 6] and o6 = u64_field.get_reader_ok [OF o5 6]
  note s7 = u64_field.get_sound [OF o6 7] and o7 = u64_field.get_reader_ok [OF o6 7]
  have sig: "length ?sig = PROVIDER_SIGNATURE_LEN"
    using len by (simp add: PROVIDER_SIGNATURE_LEN_def)
  note s8 = decode_body_sound [OF o7 conjunct1 [OF s3] conjunct1 [OF s4] sig 8]
  have "reader_ok r8"
    using s8 reader_ok_advance [OF o7, of "length (assertion_tail a)"] by simp
  then have "unread r8 = []" using empty is_empty_iff by simp
  then have u8: "unread r7 = assertion_tail a" using s8 by simp
  note u = s1 [THEN conjunct2, THEN conjunct1] s2 [THEN conjunct2, THEN conjunct1]
    s3 [THEN conjunct2, THEN conjunct1] s4 [THEN conjunct2, THEN conjunct1]
    s5 [THEN conjunct2, THEN conjunct1] s6 [THEN conjunct2, THEN conjunct1]
    s7 [THEN conjunct2, THEN conjunct1] u8
  have f: "kind = assertion_kind a" "key = pa_key a" "provider = pa_provider a"
    "sequence = pa_sequence a" "issued_at = pa_issued_at a" "expiry = pa_expiry a"
    and a: "wf_assertion C a" "publishable_assertion a" "?sig = assertion_signature a"
    using s8 by simp_all
  have "unread (reader_new ?body) = assertion_body a"
    by (simp only: u version f assertion_body_layout [OF a(2)])
  then have body: "?body = assertion_body a" by simp
  have "bytes = assertion_body a @ assertion_signature a"
    using append_take_drop_id [of ?n bytes] body a(3) by simp
  then show ?thesis
    using a encode_Ok_iff [OF a(1)] verify key fresh body f by (simp add: authentic_def)
qed

lemma decode_iff:
  "decode_provider_assertion C bytes expected_key now = Ok a \<longleftrightarrow>
     wf_assertion C a \<and> encode_provider_assertion a = Ok bytes \<and> authentic C a \<and>
     pa_key a = expected_key \<and> now < pa_expiry a"
  using decode_sound [of C bytes expected_key now a] decode_complete [of C a bytes now] by auto

subsection \<open>The signature scalar\<close>

fun nat_of_le :: "bytes \<Rightarrow> nat" where
  "nat_of_le [] = 0"
| "nat_of_le (b # bs) = unat b + 256 * nat_of_le bs"

lemma nat_of_le_snoc: "nat_of_le (bs @ [b]) = nat_of_le bs + unat b * 256 ^ length bs"
  by (induction bs) auto

lemma nat_of_le_bound: "nat_of_le bs < 256 ^ length bs"
proof (induction bs)
  case (Cons b bs)
  then have "256 * Suc (nat_of_le bs) \<le> 256 * 256 ^ length bs"
    by (intro mult_le_mono2) simp
  then show ?case
    using unat_lt_256 [of b] by (simp only: nat_of_le.simps length_Cons power_Suc mult_Suc_right)
qed simp

lemma scalar_below_iff:
  "n \<le> length s \<Longrightarrow> n \<le> length l \<Longrightarrow>
     scalar_below n s l \<longleftrightarrow> nat_of_le (take n s) < nat_of_le (take n l)"
proof (induction n)
  case (Suc i)
  have step: "nat_of_le (take (Suc i) xs) = nat_of_le (take i xs) + unat (xs ! i) * 256 ^ i"
    and small: "nat_of_le (take i xs) < 256 ^ i" if "Suc i \<le> length xs" for xs
    using that nat_of_le_bound [of "take i xs"] by (simp_all add: take_Suc_conv_app_nth nat_of_le_snoc)
  have less: "nat_of_le (take (Suc i) xs) < nat_of_le (take (Suc i) ys)"
    if "xs ! i < ys ! i" "Suc i \<le> length xs" "Suc i \<le> length ys" for xs ys
  proof -
    have "nat_of_le (take i xs) + unat (xs ! i) * 256 ^ i < (unat (xs ! i) + 1) * 256 ^ i"
      using small [OF that(2)] by simp
    also have "\<dots> \<le> unat (ys ! i) * 256 ^ i"
      using that(1) by (intro mult_right_mono) (simp_all add: word_less_nat_alt)
    finally show ?thesis using step that by simp
  qed
  show ?case
    using less [of s l] less [of l s] step Suc by (cases "s ! i" "l ! i" rule: linorder_cases) auto
qed simp

lemma order_value: "nat_of_le ED25519_ORDER_LE = 2 ^ 252 + 27742317777372353535851937790883648493"
  by (simp add: ED25519_ORDER_LE_def)

lemma signature_scalar_canonical_iff:
  "length sig_bytes = 64 \<Longrightarrow> signature_scalar_is_canonical sig_bytes \<longleftrightarrow>
     nat_of_le (drop 32 sig_bytes) < 2 ^ 252 + 27742317777372353535851937790883648493"
  using scalar_below_iff [of 32 "drop 32 sig_bytes" ED25519_ORDER_LE]
  by (simp add: signature_scalar_is_canonical_def order_value [symmetric]) (simp add: ED25519_ORDER_LE_def)

subsection \<open>Signing preimages\<close>

fun unsigned_assertion :: "provider_assertion \<Rightarrow> provider_assertion" where
  "unsigned_assertion (Provide r) = Provide (r\<lparr>pr_signature := []\<rparr>)"
| "unsigned_assertion (Withdraw w) = Withdraw (w\<lparr>pw_signature := []\<rparr>)"

lemma unsigned_assertion_eqI:
  assumes "assertion_kind a = assertion_kind b" "pa_key a = pa_key b" "pa_provider a = pa_provider b"
    "pa_sequence a = pa_sequence b" "pa_issued_at a = pa_issued_at b" "pa_expiry a = pa_expiry b"
    "wf_assertion C a" "wf_assertion C b" "publishable_assertion a" "publishable_assertion b"
    "assertion_tail a = assertion_tail b"
  shows "unsigned_assertion a = unsigned_assertion b"
proof (cases a)
  case (Provide r)
  then obtain s where b: "b = Provide s"
    using assms(1) by (cases b) (auto simp: wire_consts)
  let ?os = "\<lambda>r. concat (map offer_encoding (pr_offers r))"
  have r: "list_all (wf_offer C) (pr_offers r)" "length (pr_offers r) \<le> 4" "wf_digest (pr_content r)"
    and s: "list_all (wf_offer C) (pr_offers s)" "length (pr_offers s) \<le> 4" "wf_digest (pr_content s)"
    using assms Provide b by (auto simp: publishable_def MAX_OFFERS_PER_RECORD_def)
  have content: "pr_content r = pr_content s"
    and n: "(of_nat (length (pr_offers r)) :: u8) = of_nat (length (pr_offers s))"
    and os: "?os r = ?os s"
    using assms(11) Provide b r(3) s(3) by (auto simp: wf_digest_def blake3_digest.expand)
  have "length (pr_offers r) = length (pr_offers s)"
    using of_nat_u8_inj [OF n] r(2) s(2) by simp
  moreover have "length (?os r) < 2 ^ 64"
    using length_concat_offers [OF r(1)] r(2) by (simp del: length_concat)
  ultimately have "pr_offers r = pr_offers s"
    by (intro offer_field.concat_put_inj [OF r(1) s(1) _ os])
  then show ?thesis using assms Provide b content by auto
next
  case (Withdraw w)
  then show ?thesis using assms by (cases b) (auto simp: wire_consts)
qed

lemma signing_preimage_inj:
  assumes wf: "wf_assertion C a" "wf_assertion C b" and p: "publishable_assertion a" "publishable_assertion b"
    and eq: "signing_preimage (assertion_body a) = signing_preimage (assertion_body b)"
  shows "unsigned_assertion a = unsigned_assertion b"
proof -
  have w: "length (key_as_bytes (pa_key a)) = 32" "length (key_as_bytes (pa_key b)) = 32"
    "length (node_as_bytes (pa_provider a)) = 32" "length (node_as_bytes (pa_provider b)) = 32"
    using wf by (cases a; cases b; auto simp: wf_key_def wf_node_def wire_consts)+
  have "assertion_body a = assertion_body b" using eq by (simp add: signing_preimage_def)
  then have eqs: "assertion_kind a = assertion_kind b" "key_as_bytes (pa_key a) = key_as_bytes (pa_key b)"
    "node_as_bytes (pa_provider a) = node_as_bytes (pa_provider b)"
    "u64_to_be_bytes (pa_sequence a) = u64_to_be_bytes (pa_sequence b)"
    "u64_to_be_bytes (pa_issued_at a) = u64_to_be_bytes (pa_issued_at b)"
    "u64_to_be_bytes (pa_expiry a) = u64_to_be_bytes (pa_expiry b)"
    "assertion_tail a = assertion_tail b"
    using p w by (auto simp: assertion_body_layout)
  show ?thesis
    by (rule unsigned_assertion_eqI [OF eqs(1) _ _ _ _ _ wf p eqs(7)])
      (use eqs(2-6) in \<open>auto intro: content_key.expand node_id.expand dest: arg_cong [of _ _ u64_from_be_bytes]\<close>)
qed

subsection \<open>Signing\<close>

text \<open>What RFC 8032 promises of an honest key pair: the public key is a 32-byte point, a signature has
  64 bytes with a reduced scalar, and it verifies.\<close>

definition ed25519_signer :: "ed25519 \<Rightarrow> bytes \<Rightarrow> bool" where
  "ed25519_signer C sk \<longleftrightarrow>
     length (sk_verifying_key C sk) = NODE_ID_LEN \<and> vk_from_bytes C (sk_verifying_key C sk) \<and>
     (\<forall>m. length (sk_sign C sk m) = PROVIDER_SIGNATURE_LEN \<and>
          signature_scalar_is_canonical (sk_sign C sk m) \<and>
          vk_verify_strict C (sk_verifying_key C sk) m (sk_sign C sk m))"

lemma offers_canonical_sorted:
  "offers_are_canonical (sort_key offer_encoding offers) \<longleftrightarrow> distinct (map offer_encoding offers)"
proof -
  have "offers_are_canonical xs \<longleftrightarrow> sorted (map offer_encoding xs) \<and> distinct (map offer_encoding xs)" for xs
    unfolding offers_are_canonical_iff strict_sorted_iff [symmetric] by (simp add: sorted_wrt_map)
  then show ?thesis
    by (simp add: distinct_map)
qed

lemma libp2p_count_sort [simp]: "libp2p_count (sort_key f offers) = libp2p_count offers"
  by (simp add: libp2p_count_def filter_sort)

lemma sign_provider_record_Some:
  assumes "sign_provider_record C dbg sk r = Some r'"
  shows "pr_provider r' = NodeId (sk_verifying_key C sk) \<and> pr_key r' = pr_key r \<and>
    pr_content r' = pr_content r \<and> pr_sequence r' = pr_sequence r \<and> pr_issued_at r' = pr_issued_at r \<and>
    pr_expiry r' = pr_expiry r \<and> pr_offers r' = sort_key offer_encoding (pr_offers r) \<and>
    publishable (pr_provider r') (pr_offers r') \<and>
    pr_signature r' = sk_sign C sk (signing_preimage (assertion_body (Provide r')))"
  using assms
  by (auto simp: sign_provider_record_def Let_def publishable_def sign_offers_loop_Some_iff
      provider_record_signing_bytes_def provide_body_def list_all_iff bind_eq_Some_conv split: if_splits)


lemma signed_record_decodes:
  assumes signer: "ed25519_signer C sk"
    and wf: "wf_key (pr_key r)" "wf_digest (pr_content r)" "list_all (wf_offer C) (pr_offers r)"
    and signed: "sign_provider_record C dbg sk r = Some r'" and fresh: "now < pr_expiry r"
  shows "\<exists>bytes. encode_provider_record r' = Ok bytes \<and>
    decode_provider_assertion C bytes (pr_key r) now = Ok (Provide r')"
proof -
  note s = sign_provider_record_Some [OF signed]
  have wf': "wf_assertion C (Provide r')"
    using s wf signer by (auto simp: wf_node_def ed25519_signer_def list_all_iff)
  obtain bytes where enc: "encode_provider_assertion (Provide r') = Ok bytes"
    using encode_Ok_iff [OF wf'] s by auto
  have "authentic C (Provide r')"
    using s signer by (auto simp: authentic_def verify_def ed25519_signer_def)
  then show ?thesis
    using decode_complete [OF wf' enc] fresh enc s by auto
qed

lemma signed_withdrawal_decodes:
  assumes signer: "ed25519_signer C sk" and wf: "wf_key (pw_key w)"
    and signed: "sign_provider_withdrawal C dbg sk w = Some w'" and fresh: "now < pw_expiry w"
  shows "\<exists>bytes. encode_provider_withdrawal w' = Ok bytes \<and>
    decode_provider_assertion C bytes (pw_key w) now = Ok (Withdraw w')"
proof -
  have s: "pw_provider w' = NodeId (sk_verifying_key C sk)" "pw_key w' = pw_key w" "pw_expiry w' = pw_expiry w"
    "pw_signature w' = sk_sign C sk (signing_preimage (withdraw_body w'))"
    using signed by (auto simp: sign_provider_withdrawal_def Let_def provider_withdrawal_signing_bytes_def
        withdraw_body_def split: if_splits)
  have wf': "wf_assertion C (Withdraw w')"
    using s wf signer by (auto simp: wf_node_def ed25519_signer_def)
  obtain bytes where enc: "encode_provider_assertion (Withdraw w') = Ok bytes"
    using encode_Ok_iff [OF wf'] by auto
  have "authentic C (Withdraw w')"
    using s signer by (auto simp: authentic_def verify_def ed25519_signer_def)
  then show ?thesis
    using decode_complete [OF wf' enc] fresh enc s by auto
qed

section \<open>Properties\<close>

text \<open>A concrete instance of the signature scheme and a record, for the witnesses below.\<close>

definition demo_ed25519 :: ed25519 where
  "demo_ed25519 = \<lparr> vk_from_bytes = (\<lambda>k. length k = 32), vk_is_weak = (\<lambda>k. False),
     vk_verify_strict = (\<lambda>k m s. s = take 32 k @ replicate 32 0),
     sk_verifying_key = (\<lambda>sk. replicate 32 7), sk_sign = (\<lambda>sk m. replicate 32 7 @ replicate 32 0) \<rparr>"

definition demo_node :: node_id where "demo_node = NodeId (replicate 32 7)"

definition demo_key :: content_key where "demo_key = ContentKey (replicate 32 1)"

definition demo_offers :: "transport_offer list" where
  "demo_offers = [Libp2p demo_node relay_hints_empty, Iroh demo_node]"

definition demo_unsigned :: provider_record where
  "demo_unsigned = \<lparr> pr_key = demo_key, pr_content = Blake3Digest (replicate 32 2),
     pr_provider = UNSET_PROVIDER, pr_offers = demo_offers, pr_sequence = 5, pr_issued_at = 10,
     pr_expiry = 100, pr_signature = [] \<rparr>"

definition demo_record :: provider_record where
  "demo_record = demo_unsigned\<lparr> pr_provider := demo_node,
     pr_offers := [Iroh demo_node, Libp2p demo_node relay_hints_empty],
     pr_signature := replicate 32 7 @ replicate 32 0 \<rparr>"

definition demo_withdrawal :: provider_withdrawal where
  "demo_withdrawal = \<lparr> pw_key = demo_key, pw_provider = demo_node, pw_sequence = 6, pw_issued_at = 20,
     pw_expiry = 200, pw_signature = replicate 32 7 @ replicate 32 0 \<rparr>"


lemmas demo_defs = demo_ed25519_def demo_node_def demo_key_def demo_offers_def demo_unsigned_def
  demo_record_def demo_withdrawal_def

lemma demo_fields [simp]:
  "pr_key demo_record = demo_key" "pr_provider demo_record = demo_node"
  "pr_sequence demo_record = 5" "pr_expiry demo_record = 100"
  "pr_content demo_record = pr_content demo_unsigned"
  "pr_signature demo_record = replicate 32 7 @ replicate 32 0"
  "pr_key demo_unsigned = demo_key" "pr_expiry demo_unsigned = 100"
  "pw_key demo_withdrawal = demo_key" "pw_provider demo_withdrawal = demo_node"
  "pw_sequence demo_withdrawal = 6" "pw_expiry demo_withdrawal = 200"
  by (simp_all add: demo_record_def demo_unsigned_def demo_withdrawal_def)

lemma nat_of_le_zeros: "nat_of_le (replicate n 0) = 0"
  by (induction n) auto

lemma demo_signature_canonical: "signature_scalar_is_canonical (replicate 32 7 @ replicate 32 0)"
  by (subst signature_scalar_canonical_iff) (simp_all add: nat_of_le_zeros)

lemma demo_signer: "ed25519_signer demo_ed25519 sk"
  using demo_signature_canonical
  by (simp add: ed25519_signer_def demo_ed25519_def NODE_ID_LEN_def PROVIDER_SIGNATURE_LEN_def)

lemma demo_offers_sorted:
  "sort_key offer_encoding demo_offers = [Iroh demo_node, Libp2p demo_node relay_hints_empty]"
  "offers_are_canonical [Iroh demo_node, Libp2p demo_node relay_hints_empty]"
  by (simp_all add: demo_offers_def codec_simps wire_consts)

lemma demo_hints: "rh_as_slice relay_hints_empty = []" "wf_hints C relay_hints_empty"
  by (simp_all add: rh_as_slice_def relay_hints_empty_def wf_hints_def pack_hints_def hintable_def)

lemma demo_signs: "sign_provider_record demo_ed25519 True [] demo_unsigned = Some demo_record"
  using demo_offers_sorted
  by (simp add: sign_provider_record_def Let_def demo_defs demo_hints
   provider_record_signing_bytes_def provide_body_def MAX_OFFERS_PER_RECORD_def)

lemma demo_wf: "wf_key demo_key" "wf_digest (pr_content demo_unsigned)"
  "list_all (wf_offer demo_ed25519) (pr_offers demo_unsigned)" "wf_node demo_node"
  by (simp_all add: demo_defs wf_key_def wf_digest_def wf_node_def demo_hints wire_consts)


lemma demo_authentic:
  "wf_assertion demo_ed25519 (Provide demo_record)" "publishable_assertion (Provide demo_record)"
  "authentic demo_ed25519 (Provide demo_record)"
proof -
  show wf: "wf_assertion demo_ed25519 (Provide demo_record)"
    using demo_wf by (simp add: wire_consts) (simp add: demo_record_def demo_offers_def demo_unsigned_def)
  show "publishable_assertion (Provide demo_record)"
    using sign_provider_record_Some [OF demo_signs] by auto
  show "authentic demo_ed25519 (Provide demo_record)"
    using demo_signature_canonical
    by (simp add: authentic_def verify_def demo_ed25519_def demo_node_def)
qed

text \<open>C2: The decoder accepts a byte string under a key at a time exactly when the string is the canonical
  encoding of a well-formed assertion for that key that its provider signed and that has not expired.\<close>

theorem decode_accepts_exactly:
  "decode_provider_assertion C bytes expected_key now = Ok a \<longleftrightarrow>
     wf_assertion C a \<and> encode_provider_assertion a = Ok bytes \<and> authentic C a \<and>
     pa_key a = expected_key \<and> now < pa_expiry a"
  by (rule decode_iff)

text \<open>Signing and publishing work end to end: whatever an honest key signs is encodable, and a
  consumer that asks for its key before the expiry decodes exactly the signed record.\<close>

theorem sign_then_decode:
  assumes "ed25519_signer C sk"
    and "wf_key (pr_key r)" "wf_digest (pr_content r)" "list_all (wf_offer C) (pr_offers r)"
    and "sign_provider_record C dbg sk r = Some r'" and "now < pr_expiry r"
  shows "\<exists>bytes. encode_provider_record r' = Ok bytes \<and>
    decode_provider_assertion C bytes (pr_key r) now = Ok (Provide r')"
  using assms by (rule signed_record_decodes)

theorem sign_then_decode_witness:
  "\<exists>bytes. encode_provider_record demo_record = Ok bytes \<and>
    decode_provider_assertion demo_ed25519 bytes demo_key 50 = Ok (Provide demo_record)"
  using sign_then_decode [OF demo_signer _ _ _ demo_signs, of 50] demo_wf by simp

text \<open>The same holds for a signed withdrawal.\<close>

theorem sign_withdrawal_then_decode:
  assumes "ed25519_signer C sk" "wf_key (pw_key w)"
    and "sign_provider_withdrawal C dbg sk w = Some w'" "now < pw_expiry w"
  shows "\<exists>bytes. encode_provider_withdrawal w' = Ok bytes \<and>
    decode_provider_assertion C bytes (pw_key w) now = Ok (Withdraw w')"
  using assms by (rule signed_withdrawal_decodes)

lemma demo_signs_withdrawal:
  "sign_provider_withdrawal demo_ed25519 True [] demo_withdrawal = Some demo_withdrawal"
  by (simp add: sign_provider_withdrawal_def demo_withdrawal_def demo_node_def demo_ed25519_def)

theorem sign_withdrawal_then_decode_witness:
  "\<exists>bytes. encode_provider_withdrawal demo_withdrawal = Ok bytes \<and>
    decode_provider_assertion demo_ed25519 bytes demo_key 150 = Ok (Withdraw demo_withdrawal)"
  using sign_withdrawal_then_decode [OF demo_signer _ demo_signs_withdrawal, of 150] demo_wf by simp

text \<open>C23: Two publishable assertions with the same signing preimage agree on every signed field, so a
  signature binds the kind, key, provider, counters, content and offers: no other record and no
  withdrawal can be presented under it.\<close>

theorem signature_binds_all_fields:
  assumes "wf_assertion C a" "wf_assertion C b" "publishable_assertion a" "publishable_assertion b"
    and "signing_preimage (assertion_body a) = signing_preimage (assertion_body b)"
  shows "unsigned_assertion a = unsigned_assertion b"
  using assms by (rule signing_preimage_inj)

theorem signature_binds_all_fields_witness:
  "unsigned_assertion (Provide demo_record) = unsigned_assertion (Provide (demo_record\<lparr>pr_signature := replicate 64 0\<rparr>))"
proof (rule signature_binds_all_fields [of demo_ed25519])
  show "wf_assertion demo_ed25519 (Provide (demo_record\<lparr>pr_signature := replicate 64 0\<rparr>))"
    using demo_authentic(1) by (simp add: wire_consts)
  show "publishable_assertion (Provide (demo_record\<lparr>pr_signature := replicate 64 0\<rparr>))"
    using demo_authentic(2) by simp
  show "signing_preimage (assertion_body (Provide demo_record)) =
      signing_preimage (assertion_body (Provide (demo_record\<lparr>pr_signature := replicate 64 0\<rparr>)))"
    by (simp add: provide_body_def)
qed (rule demo_authentic)+

lemma check_provide_loop_not_oversized: "check_provide_loop p n os \<noteq> Err (EncOversized i j)"
  by (induction p n os rule: check_provide_loop.induct) auto

lemma check_provide_invariants_not_oversized: "check_provide_invariants r \<noteq> Err (EncOversized i j)"
  using check_provide_loop_not_oversized [of "pr_provider r" 0 "pr_offers r" i j]
  by (auto simp: check_provide_invariants_def and_then_Err_iff split: if_splits)

text \<open>Encoding a well-formed assertion succeeds exactly when its offers respect the cap, the canonical
  order and the provider binding, and then the wire form has between 155 and 580 bytes, so the size
  limit of the codec is never the reason for a failure.\<close>

theorem encode_size:
  assumes "wf_assertion C a"
  shows "case encode_provider_assertion a of
      Ok bytes \<Rightarrow> publishable_assertion a \<and> 155 \<le> length bytes \<and> length bytes \<le> 580
    | Err e \<Rightarrow> \<not> publishable_assertion a \<and> (\<forall>n m. e \<noteq> EncOversized n m)"
proof (cases "encode_provider_assertion a")
  case (Inl e)
  have no: "\<not> publishable_assertion a" using Inl encode_Ok_iff [OF assms] by auto
  then obtain r where r: "a = Provide r" by (cases a) auto
  have "check_provide_invariants r = Err e"
    using Inl no r by (auto simp: encode_provider_record_def check_provide_invariants_Ok_iff and_then_Err_iff)
  then show ?thesis using Inl no check_provide_invariants_not_oversized [of r] by auto
next
  case (Inr bytes)
  have "length (assertion_signature a) = 64"
    using assms by (cases a) (auto simp: wire_consts)
  moreover have "publishable_assertion a" "bytes = assertion_body a @ assertion_signature a"
    using Inr encode_Ok_iff [OF assms] by auto
  ultimately show ?thesis using Inr length_assertion_body [OF assms] by simp
qed

theorem encode_size_witness:
  "case encode_provider_assertion (Provide demo_record) of
     Ok bytes \<Rightarrow> 155 \<le> length bytes \<and> length bytes \<le> 580 | Err e \<Rightarrow> False"
  using encode_size [OF demo_authentic(1)] demo_authentic(2) by (auto split: sum.splits)

text \<open>The malleability check reads the signature scalar as a little-endian integer and accepts it
  exactly when it is below the order of the ed25519 base point.\<close>

theorem scalar_check_is_order_comparison:
  assumes "length sig_bytes = 64"
  shows "signature_scalar_is_canonical sig_bytes \<longleftrightarrow>
     nat_of_le (drop 32 sig_bytes) < 2 ^ 252 + 27742317777372353535851937790883648493"
  using assms by (rule signature_scalar_canonical_iff)

theorem scalar_check_is_order_comparison_witness:
  "signature_scalar_is_canonical (replicate 32 0 @ ED25519_ORDER_LE) = False"
  using scalar_check_is_order_comparison [of "replicate 32 0 @ ED25519_ORDER_LE"]
  by (simp add: order_value) (simp add: ED25519_ORDER_LE_def)

text \<open>Signing a record returns, instead of panicking, exactly when the documented preconditions hold.\<close>

theorem sign_provider_record_total:
  "(\<exists>r'. sign_provider_record C dbg sk r = Some r') \<longleftrightarrow>
     (dbg \<longrightarrow> pr_provider r = UNSET_PROVIDER \<or> pr_provider r = NodeId (sk_verifying_key C sk)) \<and>
     list_all (offer_in_context (NodeId (sk_verifying_key C sk))) (pr_offers r) \<and>
     libp2p_count (pr_offers r) \<le> 1 \<and> distinct (map offer_encoding (pr_offers r)) \<and>
     length (pr_offers r) \<le> MAX_OFFERS_PER_RECORD"
  by (auto simp: sign_provider_record_def Let_def sign_offers_loop_Some_iff offers_canonical_sorted
      provider_record_signing_bytes_def provide_body_def bind_eq_Some_conv split: if_splits)

theorem sign_provider_record_total_witness:
  "sign_provider_record demo_ed25519 True [] (demo_unsigned\<lparr>pr_provider := NodeId []\<rparr>) = None"
  using sign_provider_record_total [of demo_ed25519 True "[]" "demo_unsigned\<lparr>pr_provider := NodeId []\<rparr>"]
  by (auto simp: UNSET_PROVIDER_def NODE_ID_LEN_def demo_ed25519_def)

end
