(* ===== verification/Hash_Map.thy ===== *)
theory Hash_Map
  imports Prelude "HOL-Library.AList"
begin

text \<open>
  The part of \<^verbatim>\<open>std::collections::HashMap\<close> that the sources use. A hash map is an
  association list with distinct keys; the position of an entry stands for the
  iteration order, which Rust leaves unspecified, so no lemma of the development
  depends on it. The lemmas describe every operation by what a later lookup
  returns and by what it does to the number of entries.
\<close>

type_synonym ('k, 'v) hash_map = "('k \<times> 'v) list"

named_theorems hash_map_simps

definition hm_ok :: "('k, 'v) hash_map \<Rightarrow> bool" where
  "hm_ok m \<longleftrightarrow> distinct (map fst m)"

definition hm_get :: "('k, 'v) hash_map \<Rightarrow> 'k \<Rightarrow> 'v option" where
  "hm_get m k = map_of m k"

definition hm_contains :: "('k, 'v) hash_map \<Rightarrow> 'k \<Rightarrow> bool" where
  "hm_contains m k \<longleftrightarrow> hm_get m k \<noteq> None"

definition hm_insert :: "('k, 'v) hash_map \<Rightarrow> 'k \<Rightarrow> 'v \<Rightarrow> ('k, 'v) hash_map" where
  "hm_insert m k v = AList.update k v m"

definition hm_remove :: "('k, 'v) hash_map \<Rightarrow> 'k \<Rightarrow> ('k, 'v) hash_map" where
  "hm_remove m k = AList.delete k m"

definition hm_retain :: "('k \<Rightarrow> 'v \<Rightarrow> bool) \<Rightarrow> ('k, 'v) hash_map \<Rightarrow> ('k, 'v) hash_map" where
  "hm_retain f m = filter (\<lambda>(k, v). f k v) m"

definition hm_map_values :: "('v \<Rightarrow> 'w) \<Rightarrow> ('k, 'v) hash_map \<Rightarrow> ('k, 'w) hash_map" where
  "hm_map_values f m = map (\<lambda>(k, v). (k, f v)) m"

definition hm_values :: "('k, 'v) hash_map \<Rightarrow> 'v list" where
  "hm_values m = map snd m"

definition hm_entry_or :: "('k, 'v) hash_map \<Rightarrow> 'k \<Rightarrow> 'v \<Rightarrow> 'v" where
  "hm_entry_or m k d = (case hm_get m k of Some v \<Rightarrow> v | None \<Rightarrow> d)"


subsection \<open>Lookups\<close>

lemma hm_get_Nil [simp]: "hm_get [] k = None"
  by (simp add: hm_get_def)

lemma hm_get_insert [simp]: "hm_get (hm_insert m k v) j = (if j = k then Some v else hm_get m j)"
  by (simp add: hm_get_def hm_insert_def update_conv')

lemma hm_get_remove [simp]: "hm_get (hm_remove m k) j = (if j = k then None else hm_get m j)"
  by (simp add: hm_get_def hm_remove_def delete_conv')

lemma hm_get_map_values [simp]: "hm_get (hm_map_values f m) k = map_option f (hm_get m k)"
  by (induction m) (auto simp: hm_get_def hm_map_values_def)

lemma hm_get_SomeD: "hm_get m k = Some v \<Longrightarrow> (k, v) \<in> set m"
  by (simp add: hm_get_def map_of_SomeD)

lemma hm_get_None_iff: "hm_get m k = None \<longleftrightarrow> k \<notin> fst ` set m"
  by (simp add: hm_get_def map_of_eq_None_iff)

lemma hm_contains_iff: "hm_contains m k \<longleftrightarrow> k \<in> fst ` set m"
  by (simp add: hm_contains_def hm_get_None_iff)

lemma hm_get_eq_Some_iff: "hm_ok m \<Longrightarrow> hm_get m k = Some v \<longleftrightarrow> (k, v) \<in> set m"
  by (simp add: hm_get_def hm_ok_def)

lemma hm_get_retain:
  assumes "hm_ok m"
  shows "hm_get (hm_retain f m) k =
    (case hm_get m k of Some v \<Rightarrow> if f k v then Some v else None | None \<Rightarrow> None)"
  using assms unfolding hm_ok_def hm_get_def hm_retain_def
  by (induction m) (auto split: option.splits simp: map_of_eq_None_iff image_iff)

lemma hm_get_retain_SomeD: "hm_ok m \<Longrightarrow> hm_get (hm_retain f m) k = Some v \<Longrightarrow> hm_get m k = Some v \<and> f k v"
  by (auto simp: hm_get_retain split: option.splits if_splits)

lemma in_hm_values_iff: "hm_ok m \<Longrightarrow> v \<in> set (hm_values m) \<longleftrightarrow> (\<exists>k. hm_get m k = Some v)"
  by (force simp: hm_values_def hm_get_eq_Some_iff)


subsection \<open>Well-formedness and size\<close>

lemma hm_ok_Nil [simp, intro]: "hm_ok []"
  by (simp add: hm_ok_def)

lemma hm_ok_insert [simp, intro]: "hm_ok m \<Longrightarrow> hm_ok (hm_insert m k v)"
  by (simp add: hm_ok_def hm_insert_def distinct_update)

lemma hm_ok_remove [simp, intro]: "hm_ok m \<Longrightarrow> hm_ok (hm_remove m k)"
  by (simp add: hm_ok_def hm_remove_def distinct_delete)

lemma hm_ok_retain [simp, intro]: "hm_ok m \<Longrightarrow> hm_ok (hm_retain f m)"
  unfolding hm_ok_def hm_retain_def by (rule distinct_map_filter)

lemma hm_ok_map_values [simp]: "hm_ok (hm_map_values f m) \<longleftrightarrow> hm_ok m"
  by (simp add: hm_ok_def hm_map_values_def comp_def case_prod_unfold)

lemma hm_insert_not_Nil [simp]: "hm_insert m k v \<noteq> []"
  unfolding hm_insert_def by (cases m) auto

lemma hm_remove_absent: "hm_get m k = None \<Longrightarrow> hm_remove m k = m"
  by (simp add: hm_remove_def hm_get_None_iff delete_id)

lemma length_hm_insert:
  "length (hm_insert m k v) = (if hm_contains m k then length m else Suc (length m))"
  unfolding hm_insert_def hm_contains_iff by (induction m) auto

lemma length_hm_retain_le: "length (hm_retain f m) \<le> length m"
  by (simp add: hm_retain_def)

lemma length_hm_map_values [simp]: "length (hm_map_values f m) = length m"
  by (simp add: hm_map_values_def)

lemma hm_keys_card: "hm_ok m \<Longrightarrow> length m = card (dom (hm_get m))"
  by (metis distinct_card dom_map_of_conv_image_fst hm_get_def hm_ok_def length_map list.set_map
      ext)

lemma hm_contains_insert: "hm_contains (hm_insert m k v) j \<longleftrightarrow> j = k \<or> hm_contains m j"
  by (simp add: hm_contains_def)

lemma hm_contains_remove: "hm_contains (hm_remove m k) j \<longleftrightarrow> j \<noteq> k \<and> hm_contains m j"
  by (simp add: hm_contains_def)

lemma finite_dom_hm_get [simp, intro]: "finite (dom (hm_get m))"
proof -
  have "hm_get m = map_of m" by (rule ext) (simp add: hm_get_def)
  then show ?thesis by (simp add: finite_dom_map_of)
qed

lemma length_hm_remove:
  assumes "hm_ok m"
  shows "length (hm_remove m k) = (if hm_contains m k then length m - 1 else length m)"
proof -
  have "dom (hm_get (hm_remove m k)) = dom (hm_get m) - {k}"
    by (auto split: if_splits)
  then show ?thesis
    using assms hm_keys_card [of m] hm_keys_card [of "hm_remove m k"]
    by (simp add: card_Diff_singleton_if hm_contains_def domIff)
qed

lemmas [hash_map_simps] = hm_get_insert hm_get_remove hm_get_map_values hm_get_retain
  hm_contains_insert hm_contains_remove length_hm_insert

end
