(* ===== verification/Max_Register.thy ===== *)
theory Max_Register
  imports Prelude
begin

text \<open>
  The contract that every store of monotonic floors keeps: a family of cells, one
  per target, in which an event writes its value exactly when the event is valid
  and the cell is empty or holds a value of smaller rank. The lemmas say what a
  cell holds after any sequence of events; they are used for the slots of the
  provider record set.
\<close>

locale max_register =
  fixes step :: "'s \<Rightarrow> 'e \<Rightarrow> 's"
    and view :: "'s \<Rightarrow> 'x \<Rightarrow> 'v option"
    and target :: "'e \<Rightarrow> 'x"
    and written :: "'e \<Rightarrow> 'v"
    and valid :: "'e \<Rightarrow> bool"
    and rank :: "'v \<Rightarrow> 'r::linorder"
  assumes view_step:
    "view (step s e) x =
      (if x = target e \<and> valid e \<and>
          (case view s x of None \<Rightarrow> True | Some v \<Rightarrow> rank v < rank (written e))
       then Some (written e) else view s x)"
begin

lemma step_other: "x \<noteq> target e \<Longrightarrow> view (step s e) x = view s x"
  by (simp add: view_step)

lemma step_grows: "view s x = Some v \<Longrightarrow> \<exists>w. view (step s e) x = Some w \<and> rank v \<le> rank w"
  by (auto simp: view_step)

lemma step_valid:
  "valid e \<Longrightarrow> \<exists>w. view (step s e) (target e) = Some w \<and> rank (written e) \<le> rank w"
  by (auto simp: view_step split: option.splits)

lemma run_grows: "view s x = Some v \<Longrightarrow> \<exists>w. view (foldl step s es) x = Some w \<and> rank v \<le> rank w"
proof (induction es arbitrary: s v)
  case (Cons e es)
  obtain u where u: "view (step s e) x = Some u" "rank v \<le> rank u"
    using step_grows [OF Cons.prems] by blast
  then show ?case using Cons.IH [OF u(1)] by (auto intro: order_trans)
qed simp

lemma run_keeps_or_exceeds:
  "view s x = Some v \<Longrightarrow>
   view (foldl step s es) x = Some v \<or> (\<exists>w. view (foldl step s es) x = Some w \<and> rank v < rank w)"
proof (induction es arbitrary: s)
  case (Cons e es)
  show ?case
  proof (cases "view (step s e) x = Some v")
    case True
    then show ?thesis using Cons.IH by simp
  next
    case False
    then have "view (step s e) x = Some (written e)" "rank v < rank (written e)"
      using Cons.prems by (auto simp: view_step split: if_splits)
    then show ?thesis using run_grows [of "step s e" x "written e" es] by (auto intro: less_le_trans)
  qed
qed simp

lemma run_other: "(\<And>e. e \<in> set es \<Longrightarrow> target e \<noteq> x) \<Longrightarrow> view (foldl step s es) x = view s x"
  by (induction es arbitrary: s) (auto simp: view_step)

lemma run_bound:
  "e \<in> set es \<Longrightarrow> valid e \<Longrightarrow>
   \<exists>w. view (foldl step s es) (target e) = Some w \<and> rank (written e) \<le> rank w"
proof (induction es arbitrary: s)
  case (Cons d es)
  show ?case
  proof (cases "e = d")
    case True
    obtain u where u: "view (step s e) (target e) = Some u" "rank (written e) \<le> rank u"
      using step_valid [OF Cons.prems(2)] by blast
    then show ?thesis using run_grows [OF u(1), of es] True by (auto intro: order_trans)
  qed (use Cons in auto)
qed simp

lemma run_source:
  "view (foldl step s es) x = Some v \<Longrightarrow>
   view s x = Some v \<or> (\<exists>e \<in> set es. valid e \<and> target e = x \<and> written e = v)"
proof (induction es arbitrary: s)
  case (Cons e es)
  then show ?case by (fastforce simp: view_step split: if_splits)
qed simp

lemma run_None_iff:
  "view (foldl step s es) x = None \<longleftrightarrow>
   view s x = None \<and> (\<forall>e \<in> set es. valid e \<longrightarrow> target e \<noteq> x)"
proof
  assume none: "view (foldl step s es) x = None"
  show "view s x = None \<and> (\<forall>e \<in> set es. valid e \<longrightarrow> target e \<noteq> x)"
    using none run_grows [of s x _ es] run_bound [of _ es s]
    by (metis not_None_eq option.discI)
next
  assume "view s x = None \<and> (\<forall>e \<in> set es. valid e \<longrightarrow> target e \<noteq> x)"
  then show "view (foldl step s es) x = None"
    using run_source [of s es x] by (metis not_None_eq option.discI)
qed

text \<open>
  Two runs over the same set of events agree on every cell whose events name one
  value per rank, whatever the order and the repetitions.
\<close>

lemma run_converges:
  assumes empty: "view s x = None" "view s' x = None"
    and same: "set es = set es'"
    and one: "\<And>d e. d \<in> set es \<Longrightarrow> e \<in> set es \<Longrightarrow> valid d \<Longrightarrow> valid e \<Longrightarrow>
      target d = x \<Longrightarrow> target e = x \<Longrightarrow> rank (written d) = rank (written e) \<Longrightarrow> written d = written e"
  shows "view (foldl step s es) x = view (foldl step s' es') x"
proof (cases "view (foldl step s es) x")
  case None
  then have "view (foldl step s' es') x = None" using empty same by (simp add: run_None_iff)
  then show ?thesis using None by simp
next
  case (Some v)
  then obtain e where e: "e \<in> set es" "valid e" "target e = x" "written e = v"
    using run_source [OF Some] empty by auto
  obtain w where w: "view (foldl step s' es') x = Some w" "rank v \<le> rank w"
    using run_bound [of e es' s'] e same by auto
  obtain d where d: "d \<in> set es'" "valid d" "target d = x" "written d = w"
    using run_source [OF w(1)] empty by auto
  have "rank w \<le> rank v"
    using run_bound [of d es s] d Some same by auto
  then have "rank v = rank w" using w(2) by simp
  then have "v = w" using one [of e d] e d same by simp
  then show ?thesis using Some w by simp
qed

end

end
