(* ===== verification/Record_Store.thy ===== *)
theory Record_Store
  imports Record_Codec Hash_Map Max_Register
begin

text \<open>
  The provider record set of \<^verbatim>\<open>peer-fabric/src/record_store.rs\<close>: one slot per
  (content key, provider), holding the live record or a withdrawal tombstone.
  Every verified assertion goes through \<open>apply_assertion\<close>; garbage collection and the
  durable export and restore of the floors are the operations below it.

  The slots are related to an abstract partial map from (key, provider) pairs to
  slots by \<open>slot_at\<close>; \<open>spec_apply\<close> is the contract of one application on that map,
  and the concrete operations are shown to implement it.
\<close>

section \<open>Definitions\<close>

datatype apply_outcome =
    Applied
  | WithdrawnOutcome
  | Idempotent
  | RejectedStale u64 u64
  | RejectedExpired u64 u64

datatype slot = SlotActive provider_record | SlotWithdrawn u64 u64

fun slot_sequence :: "slot \<Rightarrow> u64" where
  "slot_sequence (SlotActive r) = pr_sequence r"
| "slot_sequence (SlotWithdrawn sq ex) = sq"

fun slot_expiry :: "slot \<Rightarrow> u64" where
  "slot_expiry (SlotActive r) = pr_expiry r"
| "slot_expiry (SlotWithdrawn sq ex) = ex"

datatype slot_floor = FloorActive provider_record | FloorWithdrawn u64 u64

record provider_record_set =
  by_key :: "(content_key, (node_id, slot) hash_map) hash_map"

definition new_record_set :: provider_record_set where
  "new_record_set = \<lparr> by_key = [] \<rparr>"

text \<open>What an accepted assertion writes to its slot, and what it reports.\<close>

fun slot_of :: "provider_assertion \<Rightarrow> slot" where
  "slot_of (Provide r) = SlotActive r"
| "slot_of (Withdraw w) = SlotWithdrawn (pw_sequence w) (pw_expiry w)"

fun outcome_of :: "provider_assertion \<Rightarrow> apply_outcome" where
  "outcome_of (Provide r) = Applied"
| "outcome_of (Withdraw w) = WithdrawnOutcome"

text \<open>The same-sequence arm of the occupied entry.\<close>

fun same_sequence :: "provider_assertion \<Rightarrow> slot \<Rightarrow> u64 \<Rightarrow> u64 \<Rightarrow> apply_outcome" where
  "same_sequence (Provide r) (SlotActive existing) current offered =
     (if r = existing then Idempotent else RejectedStale current offered)"
| "same_sequence (Withdraw w) (SlotWithdrawn sq ex) current offered =
     (if pw_sequence w = sq \<and> pw_expiry w = ex then Idempotent
      else RejectedStale current offered)"
| "same_sequence a s current offered = RejectedStale current offered"

text \<open>
  The entry access creates the inner map of the key before it is known
  whether the assertion is accepted, as the entry API of the source does.
\<close>

definition apply_assertion ::
  "provider_record_set \<Rightarrow> provider_assertion \<Rightarrow> u64 \<Rightarrow> provider_record_set \<times> apply_outcome" where
  "apply_assertion s a now =
    (let expiry = pa_expiry a in
     if expiry \<le> now then (s, RejectedExpired expiry now)
     else
       let key = pa_key a; provider = pa_provider a; offered = pa_sequence a;
           providers = hm_entry_or (by_key s) key [];
           store = (\<lambda>ps. s\<lparr> by_key := hm_insert (by_key s) key ps \<rparr>)
       in case hm_get providers provider of
            None \<Rightarrow> (store (hm_insert providers provider (slot_of a)), outcome_of a)
          | Some slot \<Rightarrow>
              let current = slot_sequence slot in
              if offered = current then (store providers, same_sequence a slot current offered)
              else if offered < current then (store providers, RejectedStale current offered)
              else (store (hm_insert providers provider (slot_of a)), outcome_of a))"

fun live_record :: "u64 \<Rightarrow> slot \<Rightarrow> provider_record option" where
  "live_record now (SlotActive r) = (if pr_expiry r > now then Some r else None)"
| "live_record now (SlotWithdrawn sq ex) = None"

definition find_providers :: "provider_record_set \<Rightarrow> content_key \<Rightarrow> u64 \<Rightarrow> provider_record list" where
  "find_providers s key now =
    (case hm_get (by_key s) key of
       None \<Rightarrow> []
     | Some providers \<Rightarrow> List.map_filter (live_record now) (hm_values providers))"

definition slot_count :: "provider_record_set \<Rightarrow> nat" where
  "slot_count s = sum_list (map length (hm_values (by_key s)))"

definition contains_slot :: "provider_record_set \<Rightarrow> content_key \<Rightarrow> node_id \<Rightarrow> bool" where
  "contains_slot s key provider \<longleftrightarrow>
    (case hm_get (by_key s) key of None \<Rightarrow> False | Some providers \<Rightarrow> hm_contains providers provider)"

text \<open>
  The closure of the outer \<open>retain\<close> shrinks each inner map, adds to the counter and
  keeps the key when something is left: a loop over the entries.
\<close>

fun evict_loop ::
  "u64 \<Rightarrow> (content_key, (node_id, slot) hash_map) hash_map \<Rightarrow> nat \<Rightarrow>
    (content_key, (node_id, slot) hash_map) hash_map \<times> nat" where
  "evict_loop now [] removed = ([], removed)"
| "evict_loop now ((key, providers) # rest) removed =
    (let before = length providers;
         kept = hm_retain (\<lambda>_ slot. slot_expiry slot > now) providers;
         (rest', removed') = evict_loop now rest (removed + (before - length kept))
     in (if kept \<noteq> [] then (key, kept) # rest' else rest', removed'))"

definition evict_expired :: "provider_record_set \<Rightarrow> u64 \<Rightarrow> provider_record_set \<times> nat" where
  "evict_expired s now =
    (let (kept, removed) = evict_loop now (by_key s) 0 in (s\<lparr> by_key := kept \<rparr>, removed))"

definition remove_slot ::
  "provider_record_set \<Rightarrow> content_key \<Rightarrow> node_id \<Rightarrow> provider_record_set \<times> bool" where
  "remove_slot s key provider =
    (case hm_get (by_key s) key of
       None \<Rightarrow> (s, False)
     | Some providers \<Rightarrow>
         let existed = hm_contains providers provider;
             providers' = hm_remove providers provider
         in (s\<lparr> by_key := (if providers' = [] then hm_remove (by_key s) key
                           else hm_insert (by_key s) key providers') \<rparr>, existed))"

fun floor_of_slot :: "slot \<Rightarrow> slot_floor" where
  "floor_of_slot (SlotActive r) = FloorActive r"
| "floor_of_slot (SlotWithdrawn sq ex) = FloorWithdrawn sq ex"

fun slot_of_floor :: "slot_floor \<Rightarrow> slot" where
  "slot_of_floor (FloorActive r) = SlotActive r"
| "slot_of_floor (FloorWithdrawn sq ex) = SlotWithdrawn sq ex"

definition export_floors :: "provider_record_set \<Rightarrow> (content_key \<times> node_id \<times> slot_floor) list" where
  "export_floors s =
    concat (map (\<lambda>(key, providers). map (\<lambda>(provider, slot). (key, provider, floor_of_slot slot)) providers)
      (by_key s))"

definition restore_floor ::
  "provider_record_set \<Rightarrow> content_key \<Rightarrow> node_id \<Rightarrow> slot_floor \<Rightarrow> provider_record_set" where
  "restore_floor s key provider floor =
    s\<lparr> by_key := hm_insert (by_key s) key
        (hm_insert (hm_entry_or (by_key s) key []) provider (slot_of_floor floor)) \<rparr>"

definition restore_floors ::
  "provider_record_set \<Rightarrow> (content_key \<times> node_id \<times> slot_floor) list \<Rightarrow> provider_record_set" where
  "restore_floors s fs = fold (\<lambda>(key, provider, floor) s. restore_floor s key provider floor) fs s"


section \<open>The abstract slot map\<close>

text \<open>
  The contract: a partial map from (key, provider) to slots. An application
  writes the slot exactly when the assertion is unexpired and the slot is absent
  or holds a smaller sequence.
\<close>

type_synonym slot_map = "content_key \<times> node_id \<Rightarrow> slot option"

definition slot_at :: "provider_record_set \<Rightarrow> slot_map" where
  "slot_at s = (\<lambda>(k, p). case hm_get (by_key s) k of None \<Rightarrow> None | Some ps \<Rightarrow> hm_get ps p)"

definition slot_id :: "provider_assertion \<Rightarrow> content_key \<times> node_id" where
  "slot_id a = (pa_key a, pa_provider a)"

definition supersedes :: "slot_map \<Rightarrow> provider_assertion \<Rightarrow> u64 \<Rightarrow> bool" where
  "supersedes m a now \<longleftrightarrow> now < pa_expiry a \<and>
    (case m (slot_id a) of None \<Rightarrow> True | Some sl \<Rightarrow> slot_sequence sl < pa_sequence a)"

definition spec_apply :: "slot_map \<Rightarrow> provider_assertion \<Rightarrow> u64 \<Rightarrow> slot_map" where
  "spec_apply m a now = (if supersedes m a now then m(slot_id a \<mapsto> slot_of a) else m)"

definition spec_outcome :: "slot_map \<Rightarrow> provider_assertion \<Rightarrow> u64 \<Rightarrow> apply_outcome" where
  "spec_outcome m a now =
    (if pa_expiry a \<le> now then RejectedExpired (pa_expiry a) now
     else case m (slot_id a) of
         None \<Rightarrow> outcome_of a
       | Some sl \<Rightarrow>
           if slot_sequence sl < pa_sequence a then outcome_of a
           else if sl = slot_of a then Idempotent
           else RejectedStale (slot_sequence sl) (pa_sequence a))"

definition store_ok :: "provider_record_set \<Rightarrow> bool" where
  "store_ok s \<longleftrightarrow> hm_ok (by_key s) \<and> (\<forall>(k, ps) \<in> set (by_key s). hm_ok ps \<and> ps \<noteq> [])"

text \<open>Every live record is filed under its own key and its own provider.\<close>

definition filed :: "slot_map \<Rightarrow> bool" where
  "filed m \<longleftrightarrow> (\<forall>k p r. m (k, p) = Some (SlotActive r) \<longrightarrow> pr_key r = k \<and> pr_provider r = p)"

lemma slot_floor_inverse [simp]: "slot_of_floor (floor_of_slot sl) = sl"
  by (cases sl) auto

lemma slot_sequence_slot_of [simp]: "slot_sequence (slot_of a) = pa_sequence a"
  by (cases a) auto

lemma slot_expiry_slot_of [simp]: "slot_expiry (slot_of a) = pa_expiry a"
  by (cases a) auto

lemma same_sequence_eq:
  "same_sequence a sl current offered =
    (if sl = slot_of a then Idempotent else RejectedStale current offered)"
  by (cases a; cases sl) auto

section \<open>The operations implement the contract\<close>

lemma slot_at_eq:
  "slot_at s (k, p) = (case hm_get (by_key s) k of None \<Rightarrow> None | Some ps \<Rightarrow> hm_get ps p)"
  by (simp add: slot_at_def)

lemma slot_at_new [simp]: "slot_at new_record_set x = None"
  by (cases x) (simp add: slot_at_def new_record_set_def)

lemma hm_get_entry_or: "hm_get (hm_entry_or (by_key s) k []) p = slot_at s (k, p)"
  by (simp add: hm_entry_or_def slot_at_eq split: option.splits)

lemma slot_at_store:
  "slot_at (s\<lparr> by_key := hm_insert (by_key s) k ps \<rparr>) (k', p) =
    (if k' = k then hm_get ps p else slot_at s (k', p))"
  by (simp add: slot_at_eq)

lemma apply_refines: "slot_at (fst (apply_assertion s a now)) = spec_apply (slot_at s) a now"
proof (rule ext)
  fix x :: "content_key \<times> node_id"
  obtain k p where x: "x = (k, p)" by (cases x)
  show "slot_at (fst (apply_assertion s a now)) x = spec_apply (slot_at s) a now x"
    unfolding x apply_assertion_def spec_apply_def supersedes_def slot_id_def Let_def
    by (auto simp: hm_get_entry_or slot_at_store split: option.splits)
qed

lemma apply_outcome_refines: "snd (apply_assertion s a now) = spec_outcome (slot_at s) a now"
proof (cases "pa_expiry a \<le> now")
  case True
  then show ?thesis by (simp add: apply_assertion_def spec_outcome_def)
next
  case live: False
  show ?thesis
  proof (cases "slot_at s (slot_id a)")
    case None
    then show ?thesis using live
      by (simp add: apply_assertion_def spec_outcome_def slot_id_def Let_def hm_get_entry_or)
  next
    case (Some sl)
    have get: "hm_get (hm_entry_or (by_key s) (pa_key a) []) (pa_provider a) = Some sl"
      using Some by (simp add: hm_get_entry_or slot_id_def)
    have "snd (apply_assertion s a now) =
        (if pa_sequence a = slot_sequence sl then same_sequence a sl (slot_sequence sl) (pa_sequence a)
         else if pa_sequence a < slot_sequence sl then RejectedStale (slot_sequence sl) (pa_sequence a)
         else outcome_of a)"
      using live by (simp add: apply_assertion_def Let_def get)
    also have "\<dots> = spec_outcome (slot_at s) a now"
      using live Some by (auto simp: spec_outcome_def same_sequence_eq)
    finally show ?thesis .
  qed
qed

lemma remove_slot_at: "slot_at (fst (remove_slot s k p)) = (slot_at s)((k, p) := None)"
proof (rule ext)
  fix x :: "content_key \<times> node_id"
  obtain k' p' where x: "x = (k', p')" by (cases x)
  show "slot_at (fst (remove_slot s k p)) x = ((slot_at s)((k, p) := None)) x"
  proof (cases "hm_get (by_key s) k")
    case None
    then show ?thesis by (auto simp: x remove_slot_def slot_at_eq)
  next
    case (Some ps)
    have "hm_remove ps p = [] \<Longrightarrow> q \<noteq> p \<Longrightarrow> hm_get ps q = None" for q
      by (metis hm_get_Nil hm_get_remove)
    then show ?thesis using Some by (auto simp: x remove_slot_def slot_at_eq Let_def)
  qed
qed

lemma remove_slot_existed: "snd (remove_slot s k p) \<longleftrightarrow> slot_at s (k, p) \<noteq> None"
  by (auto simp: remove_slot_def slot_at_eq Let_def hm_contains_def split: option.splits)

lemma contains_slot_iff: "contains_slot s k p \<longleftrightarrow> slot_at s (k, p) \<noteq> None"
  by (simp add: contains_slot_def slot_at_eq hm_contains_def split: option.splits)

lemma restore_slot_at: "slot_at (restore_floor s k p f) = (slot_at s)((k, p) \<mapsto> slot_of_floor f)"
  by (rule ext) (auto simp: restore_floor_def slot_at_store hm_get_entry_or split: if_splits)


section \<open>The representation invariant\<close>

lemma store_okI:
  assumes "hm_ok (by_key s)"
    and "\<And>k ps. hm_get (by_key s) k = Some ps \<Longrightarrow> hm_ok ps \<and> ps \<noteq> []"
  shows "store_ok s"
  using assms hm_get_eq_Some_iff [OF assms(1)] unfolding store_ok_def by blast

lemma store_okD: "store_ok s \<Longrightarrow> hm_ok (by_key s)"
  by (simp add: store_ok_def)

lemma store_ok_inner: "store_ok s \<Longrightarrow> hm_get (by_key s) k = Some ps \<Longrightarrow> hm_ok ps \<and> ps \<noteq> []"
  by (auto simp: store_ok_def dest!: hm_get_SomeD)

lemma store_ok_entry: "store_ok s \<Longrightarrow> hm_ok (hm_entry_or (by_key s) k [])"
  by (auto simp: hm_entry_or_def dest: store_ok_inner split: option.splits)

lemma store_ok_store:
  assumes "store_ok s" "hm_ok ps" "ps \<noteq> []"
  shows "store_ok (s\<lparr> by_key := hm_insert (by_key s) k ps \<rparr>)"
  using assms by (intro store_okI) (auto simp: store_okD dest: store_ok_inner split: if_splits)

lemma store_ok_new [simp, intro]: "store_ok new_record_set"
  by (simp add: store_ok_def new_record_set_def)

lemma store_ok_apply:
  assumes "store_ok s"
  shows "store_ok (fst (apply_assertion s a now))"
proof -
  have inner: "hm_ok (hm_entry_or (by_key s) (pa_key a) [])"
    using assms by (rule store_ok_entry)
  have "hm_get (hm_entry_or (by_key s) (pa_key a) []) p = Some sl \<Longrightarrow>
      hm_entry_or (by_key s) (pa_key a) [] \<noteq> []" for p sl
    by auto
  then show ?thesis
    using assms inner unfolding apply_assertion_def Let_def
    by (auto intro!: store_ok_store split: option.splits)
qed

lemma store_ok_restore: "store_ok s \<Longrightarrow> store_ok (restore_floor s k p f)"
  unfolding restore_floor_def by (intro store_ok_store) (auto intro: store_ok_entry)

lemma store_ok_remove:
  assumes "store_ok s"
  shows "store_ok (fst (remove_slot s k p))"
proof (cases "hm_get (by_key s) k")
  case None
  then show ?thesis using assms by (simp add: remove_slot_def)
next
  case (Some ps)
  have ps: "hm_ok ps" using store_ok_inner [OF assms Some] by simp
  show ?thesis
  proof (cases "hm_remove ps p = []")
    case True
    have "store_ok (s\<lparr> by_key := hm_remove (by_key s) k \<rparr>)"
      using assms by (intro store_okI) (auto simp: store_okD dest: store_ok_inner split: if_splits)
    then show ?thesis using Some True by (simp add: remove_slot_def)
  next
    case False
    then show ?thesis
      using store_ok_store [OF assms hm_ok_remove [OF ps] False] Some by (simp add: remove_slot_def)
  qed
qed


section \<open>Counting, eviction and the durable snapshot\<close>

text \<open>The slots as one list of ((key, provider), slot) entries.\<close>

definition slot_entries ::
  "(content_key, (node_id, slot) hash_map) hash_map \<Rightarrow> ((content_key \<times> node_id) \<times> slot) list" where
  "slot_entries m = concat (map (\<lambda>(k, ps). map (\<lambda>(p, sl). ((k, p), sl)) ps) m)"

lemma slot_entries_simps [simp]:
  "slot_entries [] = []"
  "slot_entries ((k, ps) # m) = map (\<lambda>(p, sl). ((k, p), sl)) ps @ slot_entries m"
  by (simp_all add: slot_entries_def)

lemma fst_slot_entries: "((k, p), sl) \<in> set (slot_entries m) \<Longrightarrow> k \<in> fst ` set m"
  by (force simp: slot_entries_def)

lemma map_of_inner: "map_of (map (\<lambda>(p, sl). ((k, p), sl)) ps) (k', p) = (if k' = k then map_of ps p else None)"
  by (induction ps) auto

lemma map_of_slot_entries:
  "distinct (map fst m) \<Longrightarrow> map_of (slot_entries m) (k, p) =
    (case map_of m k of None \<Rightarrow> None | Some ps \<Rightarrow> map_of ps p)"
proof (induction m)
  case (Cons e m)
  obtain k' ps where e: "e = (k', ps)" by (cases e)
  have "k = k' \<Longrightarrow> map_of m k = None" using Cons.prems by (simp add: e map_of_eq_None_iff)
  then show ?case using Cons
    by (auto simp: e map_add_def map_of_inner split: option.splits)
qed simp

lemma distinct_slot_entries:
  "distinct (map fst m) \<Longrightarrow> (\<forall>(k, ps) \<in> set m. hm_ok ps) \<Longrightarrow> distinct (map fst (slot_entries m))"
proof (induction m)
  case (Cons e m)
  obtain k ps where e: "e = (k, ps)" by (cases e)
  have "map fst (map (\<lambda>(p, sl). ((k, p), sl)) ps) = map (Pair k) (map fst ps)" by auto
  moreover have "distinct (map fst ps)" using Cons.prems by (simp add: e hm_ok_def)
  ultimately have "distinct (map fst (map (\<lambda>(p, sl). ((k, p), sl)) ps))"
    by (metis distinct_map inj_onI prod.inject)
  moreover have "x \<notin> fst ` set (slot_entries m)"
    if "x \<in> fst ` set (map (\<lambda>(p, sl). ((k, p), sl)) ps)" for x
    using that Cons.prems by (auto simp: e dest: fst_slot_entries)
  then have "fst ` set (map (\<lambda>(p, sl). ((k, p), sl)) ps) \<inter> fst ` set (slot_entries m) = {}"
    by blast
  moreover have "distinct (map fst (slot_entries m))" using Cons by (simp add: e)
  ultimately show ?case by (simp add: e image_image)
qed simp

lemma slot_at_entries:
  assumes "store_ok s"
  shows "slot_at s = hm_get (slot_entries (by_key s))" "hm_ok (slot_entries (by_key s))"
proof -
  have ok: "distinct (map fst (by_key s))" "\<forall>(k, ps) \<in> set (by_key s). hm_ok ps"
    using assms by (auto simp: store_ok_def hm_ok_def)
  show "slot_at s = hm_get (slot_entries (by_key s))"
    using map_of_slot_entries [OF ok(1)]
    by (simp add: fun_eq_iff slot_at_eq hm_get_def split: option.splits)
  show "hm_ok (slot_entries (by_key s))"
    unfolding hm_ok_def using ok by (rule distinct_slot_entries)
qed

lemma length_slot_entries: "length (slot_entries m) = sum_list (map length (map snd m))"
  by (induction m) auto

lemma slot_count_card:
  assumes "store_ok s"
  shows "slot_count s = card (dom (slot_at s))" "finite (dom (slot_at s))"
  using hm_keys_card [OF slot_at_entries(2) [OF assms]] slot_at_entries(1) [OF assms]
  by (simp_all add: slot_count_def hm_values_def length_slot_entries)

definition unexpired :: "u64 \<Rightarrow> slot_map \<Rightarrow> slot_map" where
  "unexpired now m x = (case m x of Some sl \<Rightarrow> if now < slot_expiry sl then Some sl else None | None \<Rightarrow> None)"

lemma evict_loop_kept:
  "fst (evict_loop now m n) =
    filter (\<lambda>(k, ps). ps \<noteq> []) (hm_map_values (hm_retain (\<lambda>_ sl. now < slot_expiry sl)) m)"
  by (induction now m n rule: evict_loop.induct)
    (auto simp: hm_map_values_def Let_def split: prod.splits)

lemma evict_loop_count:
  "snd (evict_loop now m n) + length (slot_entries (fst (evict_loop now m n))) =
    n + length (slot_entries m)"
proof (induction now m n rule: evict_loop.induct)
  case (2 now key providers rest removed)
  let ?kept = "hm_retain (\<lambda>_ slot. slot_expiry slot > now) providers"
  show ?case
    using 2 [OF refl refl] length_hm_retain_le [of "\<lambda>_ slot. slot_expiry slot > now" providers]
    by (auto simp: Let_def split: prod.splits)
qed simp

lemma evict_by_key:
  "by_key (fst (evict_expired s now)) =
    hm_retain (\<lambda>_ ps. ps \<noteq> []) (hm_map_values (hm_retain (\<lambda>_ sl. now < slot_expiry sl)) (by_key s))"
  by (simp add: evict_expired_def evict_loop_kept hm_retain_def case_prod_unfold)

lemma store_ok_evict:
  assumes "store_ok s"
  shows "store_ok (fst (evict_expired s now))"
  using assms
  by (intro store_okI)
    (auto simp: evict_by_key store_okD dest!: hm_get_retain_SomeD [rotated]
      dest: store_ok_inner intro!: hm_ok_retain)

lemma evict_slot_at:
  assumes "store_ok s"
  shows "slot_at (fst (evict_expired s now)) = unexpired now (slot_at s)"
proof (rule ext)
  fix x :: "content_key \<times> node_id"
  obtain k p where x: "x = (k, p)" by (cases x)
  have inner: "hm_get (hm_retain (\<lambda>_ sl. now < slot_expiry sl) ps) p =
      (case hm_get ps p of Some sl \<Rightarrow> if now < slot_expiry sl then Some sl else None | None \<Rightarrow> None)"
    if "hm_get (by_key s) k = Some ps" for ps
    using store_ok_inner [OF assms that] by (simp add: hm_get_retain)
  show "slot_at (fst (evict_expired s now)) x = unexpired now (slot_at s) x"
  proof (cases "hm_get (by_key s) k")
    case None
    then show ?thesis
      using assms by (simp add: x slot_at_eq unexpired_def evict_by_key hm_get_retain store_okD)
  next
    case (Some ps)
    show ?thesis
    proof (cases "hm_retain (\<lambda>_ sl. now < slot_expiry sl) ps = []")
      case True
      then show ?thesis using assms Some inner [OF Some]
        by (simp add: x slot_at_eq unexpired_def evict_by_key hm_get_retain store_okD)
    next
      case False
      then show ?thesis using assms Some inner [OF Some]
        by (simp add: x slot_at_eq unexpired_def evict_by_key hm_get_retain store_okD)
    qed
  qed
qed

lemma evict_count: "snd (evict_expired s now) + slot_count (fst (evict_expired s now)) = slot_count s"
  using evict_loop_count [of now "by_key s" 0]
  by (simp add: evict_expired_def slot_count_def hm_values_def length_slot_entries Let_def
      case_prod_unfold)


subsection \<open>Export and restore\<close>

lemma export_floors_entries:
  "export_floors s = map (\<lambda>((k, p), sl). (k, p, floor_of_slot sl)) (slot_entries (by_key s))"
  by (simp add: export_floors_def slot_entries_def map_concat comp_def case_prod_unfold)

lemma slot_at_restore_floors:
  "slot_at (restore_floors s (map (\<lambda>((k, p), sl). (k, p, floor_of_slot sl)) es)) =
    slot_at s ++ map_of (rev es)"
  by (induction es arbitrary: s)
    (auto simp: restore_floors_def restore_slot_at map_add_def fun_eq_iff split: option.splits)

lemma map_of_rev: "distinct (map fst es) \<Longrightarrow> map_of (rev es) = map_of es"
  by (rule map_of_eqI) (auto simp: rev_map [symmetric] distinct_rev)

lemma restore_export:
  assumes "store_ok s"
  shows "slot_at (restore_floors new_record_set (export_floors s)) = slot_at s"
proof -
  have "distinct (map fst (slot_entries (by_key s)))"
    using slot_at_entries(2) [OF assms] by (simp add: hm_ok_def)
  then show ?thesis
    by (simp add: export_floors_entries slot_at_restore_floors map_of_rev
        slot_at_entries(1) [OF assms] fun_eq_iff map_add_def hm_get_def split: option.splits)
qed

lemma store_ok_restore_floors: "store_ok s \<Longrightarrow> store_ok (restore_floors s fs)"
  unfolding restore_floors_def
  by (induction fs arbitrary: s) (auto intro: store_ok_restore)


section \<open>Lookups of live providers\<close>

lemma in_find_providers_iff:
  assumes "store_ok s"
  shows "r \<in> set (find_providers s k now) \<longleftrightarrow>
    (\<exists>p. slot_at s (k, p) = Some (SlotActive r)) \<and> now < pr_expiry r"
proof (cases "hm_get (by_key s) k")
  case None
  then show ?thesis by (simp add: find_providers_def slot_at_eq)
next
  case (Some ps)
  have ok: "hm_ok ps" using store_ok_inner [OF assms Some] by simp
  have live: "live_record now sl = Some r \<longleftrightarrow> sl = SlotActive r \<and> now < pr_expiry r" for sl
    by (cases sl) auto
  have "r \<in> set (find_providers s k now) \<longleftrightarrow>
      (\<exists>sl \<in> set (hm_values ps). live_record now sl = Some r)"
    using Some by (force simp: find_providers_def map_filter_def)
  also have "\<dots> \<longleftrightarrow> SlotActive r \<in> set (hm_values ps) \<and> now < pr_expiry r"
    by (auto simp: live)
  finally show ?thesis using Some by (simp add: in_hm_values_iff [OF ok] slot_at_eq)
qed

lemma filed_spec_apply: "filed m \<Longrightarrow> filed (spec_apply m a now)"
  by (cases a) (auto simp: filed_def spec_apply_def slot_id_def)

lemma in_find_providers_filed:
  assumes "store_ok s" "filed (slot_at s)"
  shows "r \<in> set (find_providers s k now) \<longleftrightarrow>
    slot_at s (k, pr_provider r) = Some (SlotActive r) \<and> now < pr_expiry r"
  using assms by (auto simp: in_find_providers_iff filed_def)


section \<open>Sequences of applications\<close>

text \<open>
  A log is the sequence of assertions handed to the set with the clock of each
  application. The record set is a max register whose rank is the sequence number.
\<close>

type_synonym apply_log = "(provider_assertion \<times> u64) list"

definition apply_step :: "provider_record_set \<Rightarrow> provider_assertion \<times> u64 \<Rightarrow> provider_record_set" where
  "apply_step s e = fst (apply_assertion s (fst e) (snd e))"

definition apply_all :: "provider_record_set \<Rightarrow> apply_log \<Rightarrow> provider_record_set" where
  "apply_all s es = foldl apply_step s es"

definition admissible :: "provider_assertion \<times> u64 \<Rightarrow> bool" where
  "admissible e \<longleftrightarrow> snd e < pa_expiry (fst e)"

interpretation slots: max_register apply_step slot_at "\<lambda>e. slot_id (fst e)" "\<lambda>e. slot_of (fst e)"
  admissible slot_sequence
  by unfold_locales
    (auto simp: apply_step_def apply_refines spec_apply_def supersedes_def admissible_def
      split: option.splits if_splits)

lemma store_ok_apply_all: "store_ok s \<Longrightarrow> store_ok (apply_all s es)"
  unfolding apply_all_def
  by (induction es arbitrary: s) (auto simp: apply_step_def intro: store_ok_apply)

lemma filed_apply_all: "filed (slot_at s) \<Longrightarrow> filed (slot_at (apply_all s es))"
  unfolding apply_all_def
  by (induction es arbitrary: s) (simp_all add: apply_step_def apply_refines filed_spec_apply)

lemma filed_new: "filed (slot_at new_record_set)"
  by (simp add: filed_def)

lemma spec_outcome_accepted:
  "spec_outcome m a now = outcome_of a \<longleftrightarrow> supersedes m a now"
  by (cases a) (auto simp: spec_outcome_def supersedes_def split: option.splits)

lemma apply_all_active:
  assumes "r \<in> set (find_providers (apply_all s log) k now)" "store_ok s" "filed (slot_at s)"
  shows "slot_at (apply_all s log) (k, pr_provider r) = Some (SlotActive r)" "pr_key r = k"
    "now < pr_expiry r"
proof -
  have ok: "store_ok (apply_all s log)" "filed (slot_at (apply_all s log))"
    using assms store_ok_apply_all filed_apply_all by auto
  show at: "slot_at (apply_all s log) (k, pr_provider r) = Some (SlotActive r)" "now < pr_expiry r"
    using assms(1) by (auto simp: in_find_providers_filed [OF ok])
  show "pr_key r = k" using at ok(2) by (auto simp: filed_def)
qed

lemma apply_all_cong:
  "slot_at s = slot_at s' \<Longrightarrow> slot_at (apply_all s log) = slot_at (apply_all s' log)"
  unfolding apply_all_def
  by (induction log arbitrary: s s') (simp_all add: apply_step_def apply_refines)

lemma live_entries: "List.map_filter (live_record now) (hm_values ps) =
    map (\<lambda>(p, sl). the (live_record now sl)) (filter (\<lambda>(p, sl). live_record now sl \<noteq> None) ps)"
  by (induction ps) (auto simp: map_filter_def hm_values_def)

lemma distinct_find_providers:
  assumes "store_ok s" "filed (slot_at s)"
  shows "distinct (map pr_provider (find_providers s k now))"
proof (cases "hm_get (by_key s) k")
  case None
  then show ?thesis by (simp add: find_providers_def)
next
  case (Some ps)
  let ?live = "filter (\<lambda>(p, sl). live_record now sl \<noteq> None) ps"
  have ok: "hm_ok ps" using store_ok_inner [OF assms(1) Some] by simp
  have "pr_provider (the (live_record now sl)) = p" if "(p, sl) \<in> set ?live" for p sl
  proof -
    have "slot_at s (k, p) = Some sl" using that Some by (simp add: slot_at_eq hm_get_eq_Some_iff [OF ok])
    then show ?thesis using that assms(2) by (cases sl) (auto simp: filed_def split: if_splits)
  qed
  then have "map (pr_provider \<circ> (\<lambda>(p, sl). the (live_record now sl))) ?live = map fst ?live"
    by (intro map_cong refl) (simp only: comp_def case_prod_unfold prod.collapse split_paired_all fst_conv snd_conv)
  moreover have "distinct (map fst ?live)"
    using ok unfolding hm_ok_def by (rule distinct_map_filter)
  ultimately show ?thesis
    by (simp only: find_providers_def live_entries Some option.case map_map)
qed


section \<open>Properties\<close>

text \<open>C21: One application implements the contract of the slot map: it writes its slot exactly when the
  assertion is unexpired and newer than what the slot holds, touches no other slot, and reports the
  branch that was taken.\<close>

theorem apply_implements_contract:
  "slot_at (fst (apply_assertion s a now)) = spec_apply (slot_at s) a now \<and>
   snd (apply_assertion s a now) = spec_outcome (slot_at s) a now"
  by (simp add: apply_refines apply_outcome_refines)

text \<open>C4: After any sequence of applications to an empty set, a slot is empty exactly when no admissible
  assertion for it arrived; otherwise it holds one that did arrive, and no admissible assertion for the
  slot has a larger sequence.\<close>

theorem slot_holds_maximum:
  "case slot_at (apply_all new_record_set log) x of
     None \<Rightarrow> (\<forall>e \<in> set log. admissible e \<longrightarrow> slot_id (fst e) \<noteq> x)
   | Some sl \<Rightarrow>
       (\<exists>e \<in> set log. admissible e \<and> slot_id (fst e) = x \<and> slot_of (fst e) = sl) \<and>
       (\<forall>e \<in> set log. admissible e \<longrightarrow> slot_id (fst e) = x \<longrightarrow> pa_sequence (fst e) \<le> slot_sequence sl)"
proof (cases "slot_at (apply_all new_record_set log) x")
  case None
  then show ?thesis using slots.run_None_iff [of new_record_set log x] by (simp add: apply_all_def)
next
  case (Some sl)
  then show ?thesis
    using slots.run_source [of new_record_set log x sl] slots.run_bound [of _ log new_record_set]
    by (fastforce simp: apply_all_def)
qed

lemma demo_apply:
  "apply_all new_record_set [(Withdraw demo_withdrawal, 50), (Provide demo_record, 50)] =
    \<lparr> by_key = [(demo_key, [(demo_node, SlotWithdrawn 6 200)])] \<rparr>"
  by (simp add: apply_all_def apply_step_def apply_assertion_def new_record_set_def hm_entry_or_def
      hm_get_def hm_insert_def)

theorem slot_holds_maximum_witness:
  "slot_at (apply_all new_record_set [(Withdraw demo_withdrawal, 50), (Provide demo_record, 50)])
     (demo_key, demo_node) = Some (SlotWithdrawn 6 200) \<and> (5::u64) \<le> 6"
  using slot_holds_maximum [of "[(Withdraw demo_withdrawal, 50), (Provide demo_record, 50)]" "(demo_key, demo_node)"]
  by (simp add: demo_apply slot_at_eq hm_get_def admissible_def slot_id_def)

text \<open>Delivery order and duplication do not matter: two nodes that applied the same set of assertions
  agree on every slot for which one sequence names one state.\<close>

theorem slots_converge:
  assumes "set log = set log'"
    and "\<And>d e. d \<in> set log \<Longrightarrow> e \<in> set log \<Longrightarrow> admissible d \<Longrightarrow> admissible e \<Longrightarrow>
      slot_id (fst d) = x \<Longrightarrow> slot_id (fst e) = x \<Longrightarrow> pa_sequence (fst d) = pa_sequence (fst e) \<Longrightarrow>
      slot_of (fst d) = slot_of (fst e)"
  shows "slot_at (apply_all new_record_set log) x = slot_at (apply_all new_record_set log') x"
  unfolding apply_all_def
proof (rule slots.run_converges [OF _ _ assms(1)])
  fix d e
  assume "d \<in> set log" "e \<in> set log" "admissible d" "admissible e" "slot_id (fst d) = x"
    "slot_id (fst e) = x" "slot_sequence (slot_of (fst d)) = slot_sequence (slot_of (fst e))"
  then show "slot_of (fst d) = slot_of (fst e)" by (intro assms(2)) simp_all
qed simp_all

theorem slots_converge_witness:
  "slot_at (apply_all new_record_set [(Provide demo_record, 50), (Withdraw demo_withdrawal, 50)]) (demo_key, demo_node) =
   slot_at (apply_all new_record_set [(Withdraw demo_withdrawal, 50), (Provide demo_record, 50)]) (demo_key, demo_node)"
  by (rule slots_converge) auto

text \<open>C6: Once a withdrawal took effect, no later sequence of applications makes the provider visible
  again with a record whose sequence is not above that of the withdrawal.\<close>

theorem no_resurrection:
  assumes "store_ok s" "filed (slot_at s)"
    and "snd (apply_assertion s (Withdraw w) t) = WithdrawnOutcome"
    and "r \<in> set (find_providers (apply_all (fst (apply_assertion s (Withdraw w) t)) log) (pw_key w) now)"
    and "pr_provider r = pw_provider w"
  shows "pw_sequence w < pr_sequence r"
proof -
  let ?s = "fst (apply_assertion s (Withdraw w) t)"
  let ?x = "(pw_key w, pw_provider w)"
  have "supersedes (slot_at s) (Withdraw w) t"
    using assms(3) spec_outcome_accepted [of "slot_at s" "Withdraw w" t]
    by (simp add: apply_outcome_refines)
  then have here: "slot_at ?s ?x = Some (SlotWithdrawn (pw_sequence w) (pw_expiry w))"
    by (simp add: apply_refines spec_apply_def slot_id_def)
  have "slot_at (apply_all ?s log) ?x = Some (SlotActive r)"
    using apply_all_active(1) [OF assms(4)] assms store_ok_apply filed_spec_apply
    by (simp add: apply_refines)
  then show ?thesis
    using slots.run_keeps_or_exceeds [OF here, of log] by (auto simp: apply_all_def)
qed

theorem no_resurrection_witness:
  "pw_sequence demo_withdrawal < pr_sequence (demo_record\<lparr>pr_sequence := 7\<rparr>)"
proof (rule no_resurrection [of new_record_set demo_withdrawal 50 _ "[(Provide (demo_record\<lparr>pr_sequence := 7\<rparr>), 60)]" 70])
  show "snd (apply_assertion new_record_set (Withdraw demo_withdrawal) 50) = WithdrawnOutcome"
    by (simp add: apply_assertion_def new_record_set_def hm_entry_or_def)
  show "demo_record\<lparr>pr_sequence := 7\<rparr> \<in> set (find_providers (apply_all
      (fst (apply_assertion new_record_set (Withdraw demo_withdrawal) 50))
      [(Provide (demo_record\<lparr>pr_sequence := 7\<rparr>), 60)]) (pw_key demo_withdrawal) 70)"
    by (simp add: apply_all_def apply_step_def apply_assertion_def new_record_set_def hm_entry_or_def
        find_providers_def hm_values_def map_filter_def
        hm_get_def hm_insert_def)
qed (auto simp: filed_new)

text \<open>C24: The lookup returns exactly the live records of the key, at most one per provider, each filed
  under its own key and provider.\<close>

theorem find_providers_exact:
  assumes "s = apply_all new_record_set log"
  shows "distinct (map pr_provider (find_providers s k now)) \<and>
    (\<forall>r. r \<in> set (find_providers s k now) \<longleftrightarrow>
      pr_key r = k \<and> slot_at s (k, pr_provider r) = Some (SlotActive r) \<and> now < pr_expiry r)"
proof -
  have ok: "store_ok s" "filed (slot_at s)"
    using assms by (simp_all add: store_ok_apply_all filed_apply_all filed_new)
  then show ?thesis
    using distinct_find_providers [OF ok] in_find_providers_filed [OF ok] by (auto simp: filed_def)
qed

theorem find_providers_exact_witness:
  "\<forall>r. r \<in> set (find_providers (apply_all new_record_set [(Provide demo_record, 50)]) demo_key 60) \<longleftrightarrow> r = demo_record"
  using find_providers_exact [OF refl, of "[(Provide demo_record, 50)]" demo_key 60]
  by (auto simp: apply_all_def apply_step_def apply_assertion_def new_record_set_def hm_entry_or_def
      slot_at_eq hm_get_def hm_insert_def split: if_splits)

text \<open>Eviction removes exactly the expired slots and counts them, and no lookup at that time or later
  sees a difference.\<close>

theorem evict_expired_exact:
  assumes "store_ok s" "filed (slot_at s)" "now \<le> later"
  shows "slot_at (fst (evict_expired s now)) = unexpired now (slot_at s) \<and>
    snd (evict_expired s now) = card (dom (slot_at s)) - card (dom (unexpired now (slot_at s))) \<and>
    set (find_providers (fst (evict_expired s now)) k later) = set (find_providers s k later)"
proof -
  have at: "slot_at (fst (evict_expired s now)) = unexpired now (slot_at s)"
    by (rule evict_slot_at [OF assms(1)])
  have ok: "store_ok (fst (evict_expired s now))" by (rule store_ok_evict [OF assms(1)])
  have "filed (slot_at (fst (evict_expired s now)))"
    using assms(2) by (auto simp: at filed_def unexpired_def split: option.splits if_splits)
  then have "set (find_providers (fst (evict_expired s now)) k later) = set (find_providers s k later)"
    using assms by (auto simp: in_find_providers_filed ok at unexpired_def split: option.splits if_splits)
  then show ?thesis
    using at evict_count [of s now] slot_count_card(1) [OF ok] slot_count_card(1) [OF assms(1)] by simp
qed

theorem evict_expired_exact_witness:
  "slot_at (fst (evict_expired new_record_set 3)) = unexpired 3 (slot_at new_record_set)"
  using evict_expired_exact [of new_record_set 3 4] filed_new by simp

text \<open>C22: A node that restarts from its exported floors decides every later assertion as if it had never
  stopped.\<close>

theorem restart_preserves_decisions:
  assumes "store_ok s"
  shows "snd (apply_assertion (apply_all (restore_floors new_record_set (export_floors s)) log) a now) =
    snd (apply_assertion (apply_all s log) a now)"
  using apply_all_cong [OF restore_export [OF assms], of log] by (simp add: apply_outcome_refines)

theorem restart_preserves_decisions_witness:
  "snd (apply_assertion (apply_all (restore_floors new_record_set (export_floors
      (apply_all new_record_set [(Withdraw demo_withdrawal, 50), (Provide demo_record, 50)]))) [])
      (Provide demo_record) 60) = RejectedStale 6 5"
proof -
  let ?s = "apply_all new_record_set [(Withdraw demo_withdrawal, 50), (Provide demo_record, 50)]"
  have "snd (apply_assertion (apply_all ?s []) (Provide demo_record) 60) = RejectedStale 6 5"
    unfolding demo_apply
    by (simp add: apply_all_def apply_assertion_def Let_def hm_entry_or_def hm_get_def)
  then show ?thesis
    using restart_preserves_decisions [of ?s "[]" "Provide demo_record" 60] by (simp add: store_ok_apply_all)
qed

end
