(* ===== verification/Text_Lines.thy ===== *)
theory Text_Lines
  imports Prelude
begin

text \<open>
  The slice and string functions of the Rust standard library that the line-oriented formats of
  the sources use: \<^verbatim>\<open>split\<close>, \<^verbatim>\<open>split_inclusive\<close>, \<^verbatim>\<open>lines\<close>, \<^verbatim>\<open>split_once\<close>, \<^verbatim>\<open>strip_suffix\<close>
  and the ASCII trim, over lists so that they serve both byte slices and strings.
\<close>

named_theorems text_simps

fun split_on :: "'a \<Rightarrow> 'a list \<Rightarrow> 'a list list" where
  "split_on c [] = [[]]"
| "split_on c (x # xs) =
     (if x = c then [] # split_on c xs
      else (case split_on c xs of [] \<Rightarrow> [[x]] | seg # segs \<Rightarrow> (x # seg) # segs))"

fun split_inclusive :: "'a \<Rightarrow> 'a list \<Rightarrow> 'a list list" where
  "split_inclusive c [] = []"
| "split_inclusive c (x # xs) =
     (if x = c then [x] # split_inclusive c xs
      else (case split_inclusive c xs of [] \<Rightarrow> [[x]] | seg # segs \<Rightarrow> (x # seg) # segs))"

definition strip_suffix :: "'a list \<Rightarrow> 'a list \<Rightarrow> 'a list option" where
  "strip_suffix p s =
     (if length p \<le> length s \<and> drop (length s - length p) s = p
      then Some (take (length s - length p) s) else None)"

definition NEWLINE :: char where "NEWLINE = CHR 0x0A"

definition CARRIAGE_RETURN :: char where "CARRIAGE_RETURN = CHR 0x0D"

text \<open>A line loses its newline and then one carriage return; a last line without a newline is
  left as it is.\<close>

definition strip_line_end :: "string \<Rightarrow> string" where
  "strip_line_end line =
     (case strip_suffix [NEWLINE] line of
        None \<Rightarrow> line
      | Some l \<Rightarrow> (case strip_suffix [CARRIAGE_RETURN] l of None \<Rightarrow> l | Some l' \<Rightarrow> l'))"

definition str_lines :: "string \<Rightarrow> string list" where
  "str_lines s = map strip_line_end (split_inclusive NEWLINE s)"

definition split_once :: "'a \<Rightarrow> 'a list \<Rightarrow> ('a list \<times> 'a list) option" where
  "split_once c s =
     (case dropWhile (\<lambda>x. x \<noteq> c) s of [] \<Rightarrow> None | _ # rest \<Rightarrow> Some (takeWhile (\<lambda>x. x \<noteq> c) s, rest))"

definition trim :: "('a \<Rightarrow> bool) \<Rightarrow> 'a list \<Rightarrow> 'a list" where
  "trim space s = rev (dropWhile space (rev (dropWhile space s)))"


section \<open>Splitting\<close>

lemma in_set_map_filter: "y \<in> set (List.map_filter f xs) \<longleftrightarrow> (\<exists>x \<in> set xs. f x = Some y)"
  by (force simp: map_filter_def)

lemma split_on_not_Nil [simp]: "split_on c xs \<noteq> []"
  by (cases xs) (auto split: list.splits)

lemma split_on_free [text_simps]: "c \<notin> set xs \<Longrightarrow> split_on c xs = [xs]"
  by (induction xs) auto

lemma split_on_append [text_simps]: "c \<notin> set xs \<Longrightarrow> split_on c (xs @ c # ys) = xs # split_on c ys"
  by (induction xs) auto

lemma split_on_segments: "seg \<in> set (split_on c xs) \<Longrightarrow> c \<notin> set seg"
proof (induction xs arbitrary: seg)
  case (Cons x xs)
  obtain s ss where s: "split_on c xs = s # ss" by (cases "split_on c xs") auto
  then show ?case using Cons.prems Cons.IH by (auto split: if_splits)
qed simp

lemma concat_split_inclusive [simp]: "concat (split_inclusive c xs) = xs"
  by (induction xs) (auto split: list.splits)

lemma split_inclusive_append [text_simps]:
  "c \<notin> set xs \<Longrightarrow> split_inclusive c (xs @ c # ys) = (xs @ [c]) # split_inclusive c ys"
  by (induction xs) auto

lemma split_inclusive_free: "c \<notin> set xs \<Longrightarrow> xs \<noteq> [] \<Longrightarrow> split_inclusive c xs = [xs]"
proof (induction xs)
  case (Cons x xs)
  then show ?case by (cases xs) auto
qed simp

lemma strip_suffix_Some_iff [simp]: "strip_suffix p s = Some r \<longleftrightarrow> s = r @ p"
  by (auto simp: strip_suffix_def) (metis append_take_drop_id)

lemma strip_suffix_append [simp]: "strip_suffix p (r @ p) = Some r"
  by simp

lemma strip_suffix_None_iff: "strip_suffix p s = None \<longleftrightarrow> (\<forall>r. s \<noteq> r @ p)"
  by (metis not_None_eq strip_suffix_Some_iff)

lemma strip_line_end_newline:
  assumes "CARRIAGE_RETURN \<notin> set l"
  shows "strip_line_end (l @ [NEWLINE]) = l"
proof -
  have "strip_suffix [CARRIAGE_RETURN] l = None"
    using assms by (auto simp: strip_suffix_None_iff)
  then show ?thesis by (simp add: strip_line_end_def)
qed

text \<open>Printed lines are read back: a file of lines, each ended by a newline.\<close>

definition unlines :: "string list \<Rightarrow> string" where
  "unlines ls = concat (map (\<lambda>l. l @ [NEWLINE]) ls)"

lemma unlines_simps [simp]:
  "unlines [] = []" "unlines (l # ls) = l @ NEWLINE # unlines ls" "unlines (ks @ ls) = unlines ks @ unlines ls"
  by (simp_all add: unlines_def)

definition plain_line :: "string \<Rightarrow> bool" where
  "plain_line l \<longleftrightarrow> NEWLINE \<notin> set l \<and> CARRIAGE_RETURN \<notin> set l"

lemma str_lines_unlines: "list_all plain_line ls \<Longrightarrow> str_lines (unlines ls) = ls"
  unfolding str_lines_def
  by (induction ls) (auto simp: split_inclusive_append strip_line_end_newline plain_line_def)

fun words_of :: "'a \<Rightarrow> 'a list list \<Rightarrow> 'a list" where
  "words_of c [] = []"
| "words_of c [w] = w"
| "words_of c (w # ws) = w @ c # words_of c ws"

lemma split_on_words:
  "ws \<noteq> [] \<Longrightarrow> (\<forall>w \<in> set ws. c \<notin> set w) \<Longrightarrow> split_on c (words_of c ws) = ws"
  by (induction c ws rule: words_of.induct) (auto simp: text_simps)

lemma set_words_of: "set (words_of c ws) \<subseteq> insert c (\<Union> (set ` set ws))"
  by (induction c ws rule: words_of.induct) auto


section \<open>Trimming\<close>

lemma trim_idem [simp]: "trim space (trim space s) = trim space s"
proof -
  have hd: "dropWhile space s = [] \<or> \<not> space (hd (dropWhile space s))"
    using hd_dropWhile by blast
  show ?thesis
  proof (cases "dropWhile space (rev (dropWhile space s))")
    case Nil
    then show ?thesis unfolding trim_def by (simp only: Nil rev.simps dropWhile.simps)
  next
    case (Cons y ys)
    let ?t = "rev (dropWhile space (rev (dropWhile space s)))"
    have ne: "dropWhile space s \<noteq> []" using Cons by (metis dropWhile.simps(1) list.distinct(1) rev.simps(1))
    obtain pre where split: "dropWhile space s = ?t @ pre"
      by (metis rev_append rev_rev_ident takeWhile_dropWhile_id)
    have "hd ?t = hd (dropWhile space s)" using split Cons by (metis hd_append2 rev_is_Nil_conv list.distinct(1))
    then have "dropWhile space ?t = ?t"
      using hd ne Cons by (cases ?t) auto
    moreover have "dropWhile space (rev ?t) = rev ?t"
      using Cons hd_dropWhile [of space "rev (dropWhile space s)"] by simp
    ultimately show ?thesis by (simp add: trim_def)
  qed
qed

lemma trim_plain: "(\<forall>x \<in> set s. \<not> space x) \<Longrightarrow> trim space s = s"
proof -
  assume *: "\<forall>x \<in> set s. \<not> space x"
  have "dropWhile space xs = xs" if "set xs = set s" for xs
    using * that by (cases xs) auto
  then show ?thesis by (simp add: trim_def)
qed

lemma set_trim: "set (trim space s) \<subseteq> set s"
proof
  fix x
  assume "x \<in> set (trim space s)"
  then have "x \<in> set (rev (dropWhile space s))" unfolding trim_def by (metis set_dropWhileD set_rev)
  then show "x \<in> set s" by (metis set_dropWhileD set_rev)
qed

end
