(* ===== verification/Persist.thy ===== *)
theory Persist
  imports Record_Store Text_Lines
begin

text \<open>
  The durable text form of the anti-rollback floors and of the announce sequences,
  \<^verbatim>\<open>fabric-libp2p/src/persist.rs\<close>. The printers and the parsers are modelled over the text of the
  file; reading and replacing the file is the operating system's part.
\<close>

section \<open>Definitions\<close>

definition FLOOR_HEADER :: string where
  "FLOOR_HEADER = ''# nix-p2p fabric-libp2p directory-floor v1''"

definition SEQ_HEADER :: string where
  "SEQ_HEADER = ''# nix-p2p fabric-libp2p announce-seq v1''"

definition to_hex :: "bytes \<Rightarrow> string" where
  "to_hex bs = concat (map (\<lambda>b. [from_digit16 (drop_bit 4 b), from_digit16 (b AND 0x0f)]) bs)"

text \<open>\<^verbatim>\<open>char::to_digit(16)\<close>: both cases are digits.\<close>

definition to_digit16 :: "char \<Rightarrow> u8 option" where
  "to_digit16 c =
     (let b = byte_of c in
      if 48 \<le> b \<and> b \<le> 57 then Some (b - 48)
      else if 97 \<le> b \<and> b \<le> 102 then Some (b - 97 + 10)
      else if 65 \<le> b \<and> b \<le> 70 then Some (b - 65 + 10)
      else None)"

fun from_hex_pairs :: "string \<Rightarrow> bytes option" where
  "from_hex_pairs (a # b # s) =
     Option.bind (to_digit16 a) (\<lambda>hi.
     Option.bind (to_digit16 b) (\<lambda>lo.
     Option.bind (from_hex_pairs s) (\<lambda>out. Some ((hi * 16 + lo) # out))))"
| "from_hex_pairs s = Some []"

definition from_hex :: "string \<Rightarrow> bytes option" where
  "from_hex s = (if length s mod 2 \<noteq> 0 then None else from_hex_pairs s)"

definition hex32 :: "string \<Rightarrow> bytes option" where
  "hex32 s = Option.bind (from_hex s) (\<lambda>bs. if length bs = 32 then Some bs else None)"

type_synonym floor_entry = "content_key \<times> node_id \<times> slot_floor"

definition SPACE :: char where "SPACE = CHR '' ''"

fun serialize_floor :: "floor_entry \<Rightarrow> string" where
  "serialize_floor (key, provider, FloorActive r) =
     (case encode_provider_record r of
        Ok bytes \<Rightarrow> ''A '' @ to_hex (key_as_bytes key) @ [SPACE] @ to_hex bytes @ [NEWLINE]
      | Err why \<Rightarrow> [])"
| "serialize_floor (key, provider, FloorWithdrawn sequence expiry) =
     ''W '' @ to_hex (key_as_bytes key) @ [SPACE] @ to_hex (node_as_bytes provider) @ [SPACE] @
     decimal (unat sequence) @ [SPACE] @ decimal (unat expiry) @ [NEWLINE]"

definition serialize_floors :: "floor_entry list \<Rightarrow> string" where
  "serialize_floors floors = foldl (\<lambda>out f. out @ serialize_floor f) (FLOOR_HEADER @ [NEWLINE]) floors"

definition parse_active_line :: "ed25519 \<Rightarrow> string list \<Rightarrow> floor_entry option" where
  "parse_active_line C parts =
     (case parts of
        [k, b] \<Rightarrow>
          Option.bind (hex32 k) (\<lambda>key.
          Option.bind (from_hex b) (\<lambda>bytes.
            case decode_provider_assertion C bytes (ContentKey key) 0 of
              Ok (Provide r) \<Rightarrow> Some (ContentKey key, pr_provider r, FloorActive r)
            | _ \<Rightarrow> None))
      | _ \<Rightarrow> None)"

definition parse_withdrawn_line :: "string list \<Rightarrow> floor_entry option" where
  "parse_withdrawn_line parts =
     (case parts of
        [k, p, s, e] \<Rightarrow>
          Option.bind (hex32 k) (\<lambda>key.
          Option.bind (hex32 p) (\<lambda>provider.
          Option.bind (parse_u64 s) (\<lambda>sequence.
          Option.bind (parse_u64 e) (\<lambda>expiry.
            Some (ContentKey key, NodeId provider, FloorWithdrawn sequence expiry)))))
      | _ \<Rightarrow> None)"

definition parse_floor_line :: "ed25519 \<Rightarrow> string \<Rightarrow> floor_entry option" where
  "parse_floor_line C line =
     (case split_on SPACE line of
        tag # parts \<Rightarrow>
          if tag = ''A'' then parse_active_line C parts
          else if tag = ''W'' then parse_withdrawn_line parts
          else None
      | [] \<Rightarrow> None)"

text \<open>A blank line is skipped and so is a malformed one; only the warning differs. The blanks of the
  model are the ASCII ones: a line of other Unicode white space is malformed and skipped as well.\<close>

definition is_blank :: "string \<Rightarrow> bool" where
  "is_blank line \<longleftrightarrow> list_all (\<lambda>c. of_char c \<in> {9..13::nat} \<union> {32}) line"

definition deserialize_floors :: "ed25519 \<Rightarrow> string \<Rightarrow> floor_entry list" where
  "deserialize_floors C text =
     (case str_lines text of
        [] \<Rightarrow> []
      | header # lines \<Rightarrow>
          if header = FLOOR_HEADER
          then List.map_filter (\<lambda>line. if is_blank line then None else parse_floor_line C line) lines
          else [])"

type_synonym seq_entry = "content_key \<times> u64 \<times> u64"

fun serialize_seq :: "seq_entry \<Rightarrow> string" where
  "serialize_seq (key, sequence, expiry) =
     to_hex (key_as_bytes key) @ [SPACE] @ decimal (unat sequence) @ [SPACE] @ decimal (unat expiry) @ [NEWLINE]"

definition serialize_seqs :: "seq_entry list \<Rightarrow> string" where
  "serialize_seqs seqs = foldl (\<lambda>out s. out @ serialize_seq s) (SEQ_HEADER @ [NEWLINE]) seqs"

definition parse_seq_line :: "string \<Rightarrow> seq_entry option" where
  "parse_seq_line line =
     (case split_on SPACE line of
        [k, s, e] \<Rightarrow>
          Option.bind (hex32 k) (\<lambda>key.
          Option.bind (parse_u64 s) (\<lambda>sequence.
          Option.bind (parse_u64 e) (\<lambda>expiry. Some (ContentKey key, sequence, expiry))))
      | _ \<Rightarrow> None)"

definition deserialize_seqs :: "string \<Rightarrow> seq_entry list" where
  "deserialize_seqs text =
     (case str_lines text of
        [] \<Rightarrow> []
      | header # lines \<Rightarrow>
          if header = SEQ_HEADER
          then List.map_filter (\<lambda>line. if is_blank line then None else parse_seq_line line) lines
          else [])"

text \<open>Loading: an absent or unreadable file is an empty floor.\<close>

definition load_floors :: "ed25519 \<Rightarrow> string option \<Rightarrow> floor_entry list" where
  "load_floors C file = (case file of Some text \<Rightarrow> deserialize_floors C text | None \<Rightarrow> [])"

definition load_seqs :: "string option \<Rightarrow> seq_entry list" where
  "load_seqs file = (case file of Some text \<Rightarrow> deserialize_seqs text | None \<Rightarrow> [])"


section \<open>Hexadecimal fields\<close>

lemma to_hex_encode: "to_hex bs = encode bs"
  by (induction bs) (auto simp: to_hex_def)

lemma to_digit16_lower [simp]: "d < 16 \<Longrightarrow> to_digit16 (from_digit16 d) = Some d"
  using lower_nibble_from_digit16 [of d]
  by (auto simp: to_digit16_def lower_nibble_def Let_def split: if_splits)

lemma join_digits: "drop_bit 4 b * 16 + (b AND 15) = (b::u8)"
proof -
  have "unat b div 16 * 16 < 256" using unat_lt_256 [of b] by linarith
  then show ?thesis
    by (simp add: word_unat_eq_iff unat_word_ariths unat_high_nibble unat_low_nibble)
qed

lemma from_hex_pairs_encode: "from_hex_pairs (encode bs) = Some bs"
  by (induction bs) (auto simp: join_digits)

lemma from_hex_to_hex [simp]: "from_hex (to_hex bs) = Some bs"
  by (simp add: from_hex_def to_hex_encode from_hex_pairs_encode)

lemma hex32_to_hex [simp]: "hex32 (to_hex bs) = (if length bs = 32 then Some bs else None)"
  by (simp add: hex32_def)

lemma from_digit16_hex: "d < 16 \<Longrightarrow> of_char (from_digit16 d) \<in> ({48..57} \<union> {97..102} :: nat set)"
  by (auto simp: from_digit16_def word_less_nat_alt)

lemma to_hex_chars: "c \<in> set (to_hex bs) \<Longrightarrow> of_char c \<in> ({48..57} \<union> {97..102} :: nat set)"
  unfolding to_hex_encode
proof (induction bs)
  case (Cons b bs)
  then have "c = from_digit16 (drop_bit 4 b) \<or> c = from_digit16 (b AND 15) \<or> c \<in> set (encode bs)"
    by simp
  then show ?case using Cons.IH from_digit16_hex [OF high_nibble_lt] from_digit16_hex [OF low_nibble_lt]
    by metis
qed simp

lemma decimal_chars: "c \<in> set (decimal n) \<Longrightarrow> of_char c \<in> ({48..57} :: nat set)"
  using decimal_digits [of c n] by (auto simp: digit_value_def Let_def split: if_splits)

text \<open>The characters of the fields, none of which is a separator or a line end.\<close>

definition field_char :: "char \<Rightarrow> bool" where
  "field_char c \<longleftrightarrow> c \<noteq> SPACE \<and> c \<noteq> NEWLINE \<and> c \<noteq> CARRIAGE_RETURN"

lemma not_separator: "of_char c \<in> ({48..57} \<union> {97..102} :: nat set) \<Longrightarrow> field_char c"
  by (auto simp: field_char_def SPACE_def NEWLINE_def CARRIAGE_RETURN_def)

lemma field_chars: "list_all field_char (to_hex bs)" "list_all field_char (decimal n)"
  using to_hex_chars decimal_chars not_separator by (auto simp: list_all_iff)


section \<open>Lines\<close>

text \<open>What a floor entry must satisfy to be written and read back: the active record is one that the
  codec accepted, filed under its own key and provider.\<close>

fun storable :: "ed25519 \<Rightarrow> floor_entry \<Rightarrow> bool" where
  "storable C (key, provider, FloorActive r) \<longleftrightarrow>
     key = pr_key r \<and> provider = pr_provider r \<and> wf_assertion C (Provide r) \<and>
     publishable_assertion (Provide r) \<and> authentic C (Provide r) \<and> 0 < pr_expiry r"
| "storable C (key, provider, FloorWithdrawn sequence expiry) \<longleftrightarrow> wf_key key \<and> wf_node provider"

fun floor_words :: "floor_entry \<Rightarrow> string list" where
  "floor_words (key, provider, FloorActive r) =
     [''A'', to_hex (key_as_bytes key), to_hex (assertion_body (Provide r) @ assertion_signature (Provide r))]"
| "floor_words (key, provider, FloorWithdrawn sequence expiry) =
     [''W'', to_hex (key_as_bytes key), to_hex (node_as_bytes provider), decimal (unat sequence), decimal (unat expiry)]"

definition floor_line :: "floor_entry \<Rightarrow> string" where
  "floor_line f = words_of SPACE (floor_words f)"

lemma encode_storable:
  "storable C (key, provider, FloorActive r) \<Longrightarrow>
   encode_provider_record r = Ok (assertion_body (Provide r) @ assertion_signature (Provide r))"
  using encode_Ok_iff [of C "Provide r"] by auto

lemma serialize_floor_line: "storable C f \<Longrightarrow> serialize_floor f = floor_line f @ [NEWLINE]"
  by (cases f rule: serialize_floor.cases)
    (auto simp: floor_line_def SPACE_def encode_storable simp del: assertion_body.simps assertion_signature.simps
      storable.simps(1))

lemma field_words: "w \<in> set (floor_words f) \<Longrightarrow> list_all field_char w"
  using field_chars
  by (cases f rule: floor_words.cases)
    (auto simp: field_char_def SPACE_def NEWLINE_def CARRIAGE_RETURN_def)

lemma split_floor_line: "split_on SPACE (floor_line f) = floor_words f"
  unfolding floor_line_def
  by (rule split_on_words, cases f rule: floor_words.cases, simp_all)
    (auto dest!: field_words simp: list_all_iff field_char_def)

lemma plain_floor_line: "plain_line (floor_line f)" "\<not> is_blank (floor_line f)"
proof -
  have "set (floor_line f) \<subseteq> insert SPACE (\<Union> (set ` set (floor_words f)))"
    unfolding floor_line_def by (rule set_words_of)
  then show "plain_line (floor_line f)"
    using field_words [of _ f]
    by (fastforce simp: plain_line_def list_all_iff field_char_def SPACE_def NEWLINE_def CARRIAGE_RETURN_def)
  show "\<not> is_blank (floor_line f)"
    by (cases f rule: floor_words.cases) (auto simp: floor_line_def is_blank_def)
qed

lemma parse_floor_line_words:
  assumes "storable C f"
  shows "parse_floor_line C (floor_line f) = Some f"
proof (cases f rule: floor_words.cases)
  case (1 key provider r)
  let ?a = "Provide r"
  have wf: "wf_assertion C ?a" "authentic C ?a" "pr_key r = key" "pr_provider r = provider" "0 < pr_expiry r"
    "wf_key key"
    using assms 1 by auto
  have "decode_provider_assertion C (assertion_body ?a @ assertion_signature ?a) key 0 = Ok ?a"
    using decode_complete [OF wf(1) _ wf(2), of _ 0] encode_storable [of C key provider r] assms 1 wf by simp
  then show ?thesis
    using wf 1 by (simp add: parse_floor_line_def split_floor_line parse_active_line_def wf_key_def
        CONTENT_KEY_LEN_def del: assertion_body.simps assertion_signature.simps)
next
  case (2 key provider sequence expiry)
  then show ?thesis
    using assms by (simp add: parse_floor_line_def split_floor_line parse_withdrawn_line_def wf_key_def
        wf_node_def CONTENT_KEY_LEN_def NODE_ID_LEN_def)
qed

lemma foldl_append: "foldl (\<lambda>out x. out @ f x) a xs = a @ concat (map f xs)"
  by (induction xs arbitrary: a) auto

lemma serialize_floors_unlines:
  "list_all (storable C) fs \<Longrightarrow> serialize_floors fs = unlines (FLOOR_HEADER # map floor_line fs)"
  unfolding serialize_floors_def foldl_append
  by (induction fs) (auto simp: serialize_floor_line)

lemma map_filter_all: "(\<And>x. x \<in> set xs \<Longrightarrow> f (g x) = Some x) \<Longrightarrow> List.map_filter f (map g xs) = xs"
  by (induction xs) (auto simp: map_filter_def)

lemma deserialize_serialize_floors:
  assumes "list_all (storable C) fs"
  shows "deserialize_floors C (serialize_floors fs) = fs"
proof -
  have "list_all plain_line (FLOOR_HEADER # map floor_line fs)"
    using plain_floor_line by (auto simp: list_all_iff plain_line_def FLOOR_HEADER_def NEWLINE_def CARRIAGE_RETURN_def)
  then have "str_lines (serialize_floors fs) = FLOOR_HEADER # map floor_line fs"
    by (simp add: serialize_floors_unlines [OF assms] str_lines_unlines del: unlines_simps)
  then show ?thesis
    using assms plain_floor_line(2) parse_floor_line_words
    by (auto simp: deserialize_floors_def list_all_iff intro!: map_filter_all)
qed


subsection \<open>Announce sequences\<close>

definition seq_line :: "seq_entry \<Rightarrow> string" where
  "seq_line e = (case e of (key, s, x) \<Rightarrow>
     words_of SPACE [to_hex (key_as_bytes key), decimal (unat s), decimal (unat x)])"

lemma seq_line_props:
  assumes "wf_key key"
  shows "plain_line (seq_line (key, s, x))" "\<not> is_blank (seq_line (key, s, x))"
    "parse_seq_line (seq_line (key, s, x)) = Some (key, s, x)"
    "serialize_seq (key, s, x) = seq_line (key, s, x) @ [NEWLINE]"
proof -
  let ?ws = "[to_hex (key_as_bytes key), decimal (unat s), decimal (unat x)]"
  have ws: "\<forall>w \<in> set ?ws. list_all field_char w" by (simp add: field_chars)
  have line: "seq_line (key, s, x) = words_of SPACE ?ws" by (simp add: seq_line_def)
  have "set (words_of SPACE ?ws) \<subseteq> insert SPACE (\<Union> (set ` set ?ws))" by (rule set_words_of)
  then show "plain_line (seq_line (key, s, x))"
    using ws unfolding line
    by (fastforce simp: plain_line_def list_all_iff field_char_def SPACE_def NEWLINE_def CARRIAGE_RETURN_def)
  have split: "split_on SPACE (seq_line (key, s, x)) = ?ws"
    unfolding line using ws by (intro split_on_words) (auto simp: list_all_iff field_char_def)
  show "parse_seq_line (seq_line (key, s, x)) = Some (key, s, x)"
    using assms by (simp add: parse_seq_line_def split wf_key_def CONTENT_KEY_LEN_def)
  obtain c where c: "c \<in> set (decimal (unat s))" by (cases "decimal (unat s)") auto
  then have "c \<in> set (seq_line (key, s, x))" by (simp add: line)
  then show "\<not> is_blank (seq_line (key, s, x))"
    using decimal_chars [OF c] by (force simp: is_blank_def list_all_iff)
  show "serialize_seq (key, s, x) = seq_line (key, s, x) @ [NEWLINE]" by (simp add: line)
qed

lemma deserialize_serialize_seqs:
  assumes "list_all (\<lambda>(key, s, x). wf_key key) es"
  shows "deserialize_seqs (serialize_seqs es) = es"
proof -
  have "serialize_seqs es = unlines (SEQ_HEADER # map seq_line es)"
    using assms unfolding serialize_seqs_def foldl_append
    by (induction es) (auto simp: seq_line_def)
  moreover have "list_all plain_line (SEQ_HEADER # map seq_line es)"
    using assms seq_line_props(1)
    by (fastforce simp: list_all_iff plain_line_def SEQ_HEADER_def NEWLINE_def CARRIAGE_RETURN_def)
  ultimately have "str_lines (serialize_seqs es) = SEQ_HEADER # map seq_line es"
    by (simp add: str_lines_unlines del: unlines_simps)
  then show ?thesis
    using assms seq_line_props(2,3)
    by (fastforce simp: deserialize_seqs_def list_all_iff intro!: map_filter_all)
qed



section \<open>Properties\<close>

text \<open>C29: What the floor file says is what was saved: reading a written file returns the saved floors in
  order, for floors whose active records the codec accepted.\<close>

theorem floor_file_round_trip:
  assumes "list_all (storable C) fs"
  shows "deserialize_floors C (serialize_floors fs) = fs"
  using assms by (rule deserialize_serialize_floors)

theorem floor_file_round_trip_witness:
  "deserialize_floors demo_ed25519 (serialize_floors
     [(demo_key, demo_node, FloorActive demo_record), (demo_key, demo_node, FloorWithdrawn 6 200)]) =
   [(demo_key, demo_node, FloorActive demo_record), (demo_key, demo_node, FloorWithdrawn 6 200)]"
  by (rule floor_file_round_trip)
    (use demo_authentic demo_wf in \<open>simp add: demo_fields del: wf_assertion.simps publishable_assertion.simps\<close>)

text \<open>The announce-sequence file reads back as it was saved.\<close>

theorem seq_file_round_trip:
  assumes "list_all (\<lambda>(key, s, x). wf_key key) es"
  shows "deserialize_seqs (serialize_seqs es) = es"
  using assms by (rule deserialize_serialize_seqs)

theorem seq_file_round_trip_witness:
  "deserialize_seqs (serialize_seqs [(demo_key, 3, 100), (demo_key, 4, 90)]) = [(demo_key, 3, 100), (demo_key, 4, 90)]"
  by (rule seq_file_round_trip) (use demo_wf in simp)

end
