(* ===== verification/Floor_Store.thy ===== *)
theory Floor_Store
  imports Persist
begin

text \<open>
  The bounded anti-rollback floor of the directory: the admission decision \<open>admit\<close> of
  \<^verbatim>\<open>fabric-libp2p/src/directory.rs\<close> and the capped, durable store around it,
  \<^verbatim>\<open>fabric-libp2p/src/floor_store.rs\<close>.

  The libp2p derivation of a peer id from a provider key is the parameter \<open>pid\<close>. The file of a durable
  store is part of the state (\<open>fs_file\<close>); \<open>wr\<close> says whether replacing it by a given text succeeds.
\<close>

section \<open>Definitions\<close>

record admitted =
  ad_record :: "provider_record option"
  ad_floor_advanced :: bool

fun provided :: "provider_assertion \<Rightarrow> provider_record option" where
  "provided (Provide r) = Some r"
| "provided (Withdraw w) = None"

fun admitted_of :: "provider_assertion \<Rightarrow> apply_outcome \<Rightarrow> admitted" where
  "admitted_of a Applied = \<lparr> ad_record = provided a, ad_floor_advanced = True \<rparr>"
| "admitted_of a Idempotent = \<lparr> ad_record = provided a, ad_floor_advanced = False \<rparr>"
| "admitted_of a WithdrawnOutcome = \<lparr> ad_record = None, ad_floor_advanced = True \<rparr>"
| "admitted_of a (RejectedStale current offered) = \<lparr> ad_record = None, ad_floor_advanced = False \<rparr>"
| "admitted_of a (RejectedExpired expiry now) = \<lparr> ad_record = None, ad_floor_advanced = False \<rparr>"

definition admit ::
  "(node_id \<Rightarrow> 'p option) \<Rightarrow> provider_record_set \<Rightarrow> 'p \<Rightarrow> provider_assertion \<Rightarrow> u64 \<Rightarrow>
    provider_record_set \<times> admitted" where
  "admit pid store peer a now =
     (if pid (pa_provider a) \<noteq> Some peer then (store, \<lparr> ad_record = None, ad_floor_advanced = False \<rparr>)
      else let (store', outcome) = apply_assertion store a now in (store', admitted_of a outcome))"

definition DEFAULT_STORE_CAP :: nat where "DEFAULT_STORE_CAP = 4096"

record floor_store =
  fs_inner :: provider_record_set
  fs_order :: "(content_key \<times> node_id) list"
  fs_cap :: nat
  fs_file :: "string option option"

definition with_cap :: "nat \<Rightarrow> floor_store" where
  "with_cap cap = \<lparr> fs_inner = new_record_set, fs_order = [], fs_cap = max cap 1, fs_file = None \<rparr>"

definition floor_store_new :: floor_store where
  "floor_store_new = with_cap DEFAULT_STORE_CAP"

definition durable :: "ed25519 \<Rightarrow> string option \<Rightarrow> nat \<Rightarrow> floor_store" where
  "durable C file cap =
     foldl (\<lambda>st (key, provider, floor).
         st\<lparr> fs_inner := restore_floor (fs_inner st) key provider floor,
             fs_order := fs_order st @ [(key, provider)] \<rparr>)
       \<lparr> fs_inner = new_record_set, fs_order = [], fs_cap = max cap 1, fs_file = Some file \<rparr>
       (load_floors C file)"

definition touch :: "floor_store \<Rightarrow> content_key \<Rightarrow> node_id \<Rightarrow> floor_store" where
  "touch st key provider =
     st\<lparr> fs_order := filter (\<lambda>slot. slot \<noteq> (key, provider)) (fs_order st) @ [(key, provider)] \<rparr>"

fun lru_loop ::
  "nat \<Rightarrow> provider_record_set \<Rightarrow> (content_key \<times> node_id) list \<Rightarrow> bool \<Rightarrow>
    provider_record_set \<times> (content_key \<times> node_id) list \<times> bool" where
  "lru_loop cap inner [] removed = (inner, [], removed)"
| "lru_loop cap inner ((k, p) # order) removed =
     (if slot_count inner > cap then lru_loop cap (fst (remove_slot inner k p)) order True
      else (inner, (k, p) # order, removed))"

definition enforce_cap :: "floor_store \<Rightarrow> u64 \<Rightarrow> floor_store \<times> bool" where
  "enforce_cap st now =
     (if slot_count (fs_inner st) \<le> fs_cap st then (st, False)
      else
        let (inner, evicted) = evict_expired (fs_inner st) now;
            removed = evicted > 0;
            order = (if removed then filter (\<lambda>(k, p). contains_slot inner k p) (fs_order st) else fs_order st);
            (inner, order, removed) = lru_loop (fs_cap st) inner order removed
        in (st\<lparr> fs_inner := inner, fs_order := order \<rparr>, removed))"

text \<open>\<open>wr\<close> says whether the new text replaced the file. The caller only logs the error of a save, so a write whose rename
  succeeded and whose directory could not be synced afterwards is one that replaced the file.\<close>

definition save_floors :: "(string \<Rightarrow> bool) \<Rightarrow> string option option \<Rightarrow> floor_entry list \<Rightarrow> string option option" where
  "save_floors wr file floors =
     (case file of
        None \<Rightarrow> None
      | Some content \<Rightarrow>
          let text = serialize_floors floors in if wr text then Some (Some text) else Some content)"

definition persist :: "(string \<Rightarrow> bool) \<Rightarrow> floor_store \<Rightarrow> floor_store" where
  "persist wr st = st\<lparr> fs_file := save_floors wr (fs_file st) (export_floors (fs_inner st)) \<rparr>"

definition floor_admit ::
  "(node_id \<Rightarrow> 'p option) \<Rightarrow> (string \<Rightarrow> bool) \<Rightarrow> floor_store \<Rightarrow> 'p \<Rightarrow> provider_assertion \<Rightarrow> u64 \<Rightarrow>
    floor_store \<times> provider_record option" where
  "floor_admit pid wr st peer a now =
     (let key = pa_key a; provider = pa_provider a;
          (inner, ad) = admit pid (fs_inner st) peer a now;
          st = st\<lparr> fs_inner := inner \<rparr>;
          st = (if contains_slot inner key provider then touch st key provider else st);
          (st, evicted) = enforce_cap st now;
          st = (if fs_file st \<noteq> None \<and> (ad_floor_advanced ad \<or> evicted) then persist wr st else st)
      in (st, ad_record ad))"


section \<open>Removing least recently used slots\<close>

text \<open>
  The contract of a store whose entries can be dropped one by one: the client drops entries from the
  front of an order that covers the store until a count is reached.
\<close>

locale evictable =
  fixes ok :: "'s \<Rightarrow> bool"
    and keys :: "'s \<Rightarrow> 'k set"
    and count :: "'s \<Rightarrow> nat"
    and remove :: "'s \<Rightarrow> 'k \<Rightarrow> 's"
  assumes ok_remove: "ok s \<Longrightarrow> ok (remove s k)"
    and keys_remove: "ok s \<Longrightarrow> keys (remove s k) = keys s - {k}"
    and count_keys: "ok s \<Longrightarrow> count s = card (keys s)"
    and finite_keys: "ok s \<Longrightarrow> finite (keys s)"
begin

lemma drain: "ok s \<Longrightarrow> ok (foldl remove s ks) \<and> keys (foldl remove s ks) = keys s - set ks"
  by (induction ks arbitrary: s) (auto simp: ok_remove keys_remove)

lemma drain_covered: "ok s \<Longrightarrow> keys s \<subseteq> set ks \<Longrightarrow> count (foldl remove s ks) = 0"
  using drain [of s ks] count_keys [of "foldl remove s ks"] by (simp add: Diff_eq_empty_iff [THEN iffD2])

lemma drain_but_last: "ok s \<Longrightarrow> keys s \<subseteq> set (ks @ [k]) \<Longrightarrow> count (foldl remove s ks) \<le> 1"
proof -
  assume s: "ok s" "keys s \<subseteq> set (ks @ [k])"
  have "keys (foldl remove s ks) \<subseteq> {k}" using drain [of s ks] s by auto
  then have "card (keys (foldl remove s ks)) \<le> card {k}" by (intro card_mono) auto
  then show ?thesis using drain [of s ks] s count_keys by simp
qed

end

definition drop_slot :: "provider_record_set \<Rightarrow> content_key \<times> node_id \<Rightarrow> provider_record_set" where
  "drop_slot s x = fst (remove_slot s (fst x) (snd x))"

interpretation record_slots: evictable store_ok "\<lambda>s. dom (slot_at s)" slot_count drop_slot
  by unfold_locales
    (auto simp: drop_slot_def store_ok_remove remove_slot_at slot_count_card split: if_splits)

lemma drop_slots_at: "slot_at (foldl drop_slot s xs) = slot_at s |` (- set xs)"
proof (induction xs arbitrary: s)
  case (Cons x xs)
  have "slot_at (drop_slot s x) = (slot_at s)(x := None)" by (simp add: drop_slot_def remove_slot_at)
  then show ?case using Cons by (auto simp: restrict_map_def fun_eq_iff)
qed (simp add: restrict_map_def)

lemma lru_loop_drops:
  "lru_loop cap s order removed = (s', order', removed') \<Longrightarrow>
   \<exists>n \<le> length order. s' = foldl drop_slot s (take n order) \<and> order' = drop n order \<and>
     removed' = (removed \<or> 0 < n) \<and> (\<forall>m < n. cap < slot_count (foldl drop_slot s (take m order))) \<and>
     (slot_count s' \<le> cap \<or> order' = [])"
proof (induction cap s order removed arbitrary: s' order' removed' rule: lru_loop.induct)
  case (2 cap inner k p order removed)
  show ?case
  proof (cases "slot_count inner > cap")
    case True
    have eq: "fst (remove_slot inner k p) = drop_slot inner (k, p)" by (simp add: drop_slot_def)
    have "lru_loop cap (drop_slot inner (k, p)) order True = (s', order', removed')"
      using 2(2) True by (simp add: eq)
    then obtain n where n: "n \<le> length order" "s' = foldl drop_slot (drop_slot inner (k, p)) (take n order)"
      "order' = drop n order" "removed'"
      "\<forall>m < n. cap < slot_count (foldl drop_slot (drop_slot inner (k, p)) (take m order))"
      "slot_count s' \<le> cap \<or> order' = []"
      using 2(1) [OF True, unfolded eq] by blast
    have "cap < slot_count (foldl drop_slot inner (take m ((k, p) # order)))" if "m < Suc n" for m
      using that True n(5) by (cases m) auto
    then show ?thesis using n by (intro exI [of _ "Suc n"]) auto
  next
    case False
    then show ?thesis using 2 by (intro exI [of _ 0]) auto
  qed
qed auto

lemma lru_loop_spec:
  assumes ok: "store_ok s" and cover: "dom (slot_at s) \<subseteq> set order"
    and run: "lru_loop cap s order removed = (s', order', removed')"
  shows "store_ok s'" "slot_count s' \<le> cap" "dom (slot_at s') \<subseteq> set order'"
    "slot_at s' \<subseteq>\<^sub>m slot_at s" "\<not> removed' \<Longrightarrow> s' = s"
proof -
  obtain n where n: "n \<le> length order" "s' = foldl drop_slot s (take n order)" "order' = drop n order"
    "removed' = (removed \<or> 0 < n)" "slot_count s' \<le> cap \<or> order' = []"
    using lru_loop_drops [OF run] by auto
  note d = record_slots.drain [OF ok, of "take n order"]
  show "store_ok s'" using d n by simp
  show "slot_count s' \<le> cap"
  proof (cases "order' = []")
    case True
    then show ?thesis using n record_slots.drain_covered [OF ok, of order] cover by simp
  qed (use n in auto)
  have "set order \<subseteq> set (take n order) \<union> set (drop n order)"
    by (metis append_take_drop_id set_append subset_refl)
  then show "dom (slot_at s') \<subseteq> set order'" using d n cover by auto
  show "slot_at s' \<subseteq>\<^sub>m slot_at s"
    using n(2) by (auto simp: drop_slots_at map_le_def)
  show "\<not> removed' \<Longrightarrow> s' = s" using n by simp
qed


text \<open>The slot at the most recently used end survives.\<close>

lemma lru_loop_keeps_last:
  assumes ok: "store_ok s" and cover: "dom (slot_at s) \<subseteq> set (order @ [x])" and x: "x \<notin> set order"
    and cap: "1 \<le> cap" and run: "lru_loop cap s (order @ [x]) removed = (s', order', removed')"
  shows "slot_at s' x = slot_at s x"
proof -
  obtain n where n: "n \<le> Suc (length order)" "s' = foldl drop_slot s (take n (order @ [x]))"
    "\<forall>m < n. cap < slot_count (foldl drop_slot s (take m (order @ [x])))"
    using lru_loop_drops [OF run] by auto
  have "slot_count (foldl drop_slot s order) \<le> cap"
    using record_slots.drain_but_last [OF ok cover] cap by simp
  then have "n \<le> length order" using n(3) by (metis append_eq_conv_conj leD not_le)
  then show ?thesis using n(2) x by (simp add: drop_slots_at restrict_map_def) (meson in_set_takeD)
qed


section \<open>The invariant of the bounded floor\<close>

definition floor_ok :: "floor_store \<Rightarrow> bool" where
  "floor_ok st \<longleftrightarrow> store_ok (fs_inner st) \<and> dom (slot_at (fs_inner st)) \<subseteq> set (fs_order st) \<and> 1 \<le> fs_cap st"

lemma floor_ok_with_cap: "floor_ok (with_cap cap)"
  by (auto simp: floor_ok_def with_cap_def)

lemma durable_fold:
  "foldl (\<lambda>st (key, provider, floor).
       st\<lparr> fs_inner := restore_floor (fs_inner st) key provider floor,
           fs_order := fs_order st @ [(key, provider)] \<rparr>) st fs =
   st\<lparr> fs_inner := restore_floors (fs_inner st) fs,
       fs_order := fs_order st @ map (\<lambda>(key, provider, floor). (key, provider)) fs \<rparr>"
  by (induction fs arbitrary: st) (auto simp: restore_floors_def)

lemma durable_eq:
  "durable C file cap =
    \<lparr> fs_inner = restore_floors new_record_set (load_floors C file),
      fs_order = map (\<lambda>(key, provider, floor). (key, provider)) (load_floors C file),
      fs_cap = max cap 1, fs_file = Some file \<rparr>"
  by (simp add: durable_def durable_fold)

lemma dom_restore_floors:
  "dom (slot_at (restore_floors s fs)) \<subseteq> dom (slot_at s) \<union> (\<lambda>(key, provider, floor). (key, provider)) ` set fs"
proof (induction fs arbitrary: s)
  case (Cons f fs)
  obtain k p fl where f: "f = (k, p, fl)" by (cases f)
  have "dom (slot_at (restore_floor s k p fl)) = insert (k, p) (dom (slot_at s))"
    by (simp add: restore_slot_at)
  then show ?case using Cons [of "restore_floor s k p fl"] by (simp add: f restore_floors_def)
qed (simp add: restore_floors_def)

lemma floor_ok_durable: "floor_ok (durable C file cap)"
  using dom_restore_floors [of new_record_set "load_floors C file"]
  by (auto simp: floor_ok_def durable_eq store_ok_restore_floors)

lemma enforce_cap_spec:
  assumes ok: "floor_ok st" and run: "enforce_cap st now = (st', removed)"
  shows "floor_ok st'" "slot_count (fs_inner st') \<le> fs_cap st'" "fs_cap st' = fs_cap st"
    "fs_file st' = fs_file st" "slot_at (fs_inner st') \<subseteq>\<^sub>m slot_at (fs_inner st)"
    "\<not> removed \<Longrightarrow> slot_at (fs_inner st') = slot_at (fs_inner st)"
proof -
  have "floor_ok st' \<and> slot_count (fs_inner st') \<le> fs_cap st' \<and> fs_cap st' = fs_cap st \<and>
    fs_file st' = fs_file st \<and> slot_at (fs_inner st') \<subseteq>\<^sub>m slot_at (fs_inner st) \<and>
    (\<not> removed \<longrightarrow> slot_at (fs_inner st') = slot_at (fs_inner st))"
  proof (cases "slot_count (fs_inner st) \<le> fs_cap st")
    case True
    then show ?thesis using assms by (simp add: enforce_cap_def)
  next
    case False
    obtain inner n where ev: "evict_expired (fs_inner st) now = (inner, n)" by fastforce
    have okI: "store_ok (fs_inner st)" using ok by (simp add: floor_ok_def)
    have inner: "store_ok inner" "slot_at inner = unexpired now (slot_at (fs_inner st))"
      using store_ok_evict [OF okI, of now] evict_slot_at [OF okI, of now] ev by simp_all
    define order where "order = (if 0 < n then filter (\<lambda>(k, p). contains_slot inner k p) (fs_order st) else fs_order st)"
    obtain inner' order' rm where lru: "lru_loop (fs_cap st) inner order (0 < n) = (inner', order', rm)"
      by (cases "lru_loop (fs_cap st) inner order (0 < n)")
    have st': "st' = st\<lparr> fs_inner := inner', fs_order := order' \<rparr>" "removed = rm"
      using run False ev lru by (auto simp: enforce_cap_def Let_def order_def)
    have le: "slot_at inner \<subseteq>\<^sub>m slot_at (fs_inner st)"
      by (auto simp: inner(2) unexpired_def map_le_def split: option.splits if_splits)
    have "dom (slot_at inner) \<subseteq> set order"
      using ok map_le_implies_dom_le [OF le] by (auto simp: floor_ok_def order_def contains_slot_iff)
    note spec = lru_loop_spec [OF inner(1) this lru]
    have "slot_at inner = slot_at (fs_inner st)" if "n = 0"
    proof -
      have "card (dom (slot_at inner)) = card (dom (slot_at (fs_inner st)))"
        using evict_count [of "fs_inner st" now] ev that slot_count_card(1) [OF okI]
          slot_count_card(1) [OF inner(1)] by simp
      then have "dom (slot_at inner) = dom (slot_at (fs_inner st))"
        using card_subset_eq [OF slot_count_card(2) [OF okI] map_le_implies_dom_le [OF le]] by simp
      then show ?thesis using le by (metis map_le_antisym map_le_def)
    qed
    moreover have "\<not> rm \<Longrightarrow> n = 0" using lru_loop_drops [OF lru] by auto
    ultimately show ?thesis
      using ok spec st' map_le_trans [OF spec(4) le] by (auto simp: floor_ok_def)
  qed
  then show "floor_ok st'" "slot_count (fs_inner st') \<le> fs_cap st'" "fs_cap st' = fs_cap st"
    "fs_file st' = fs_file st" "slot_at (fs_inner st') \<subseteq>\<^sub>m slot_at (fs_inner st)"
    "\<not> removed \<Longrightarrow> slot_at (fs_inner st') = slot_at (fs_inner st)"
    by auto
qed


lemma enforce_cap_keeps:
  assumes ok: "floor_ok st" and run: "enforce_cap st now = (st', removed)"
    and order: "fs_order st = pre @ [x]" "x \<notin> set pre"
    and slot: "slot_at (fs_inner st) x = Some sl" "now < slot_expiry sl"
  shows "slot_at (fs_inner st') x = Some sl"
proof (cases "slot_count (fs_inner st) \<le> fs_cap st")
  case True
  then show ?thesis using run slot by (auto simp: enforce_cap_def)
next
  case False
  obtain inner n where ev: "evict_expired (fs_inner st) now = (inner, n)" by fastforce
  have okI: "store_ok (fs_inner st)" "dom (slot_at (fs_inner st)) \<subseteq> set (fs_order st)" "1 \<le> fs_cap st"
    using ok by (auto simp: floor_ok_def)
  have inner: "store_ok inner" "slot_at inner = unexpired now (slot_at (fs_inner st))"
    using store_ok_evict [OF okI(1), of now] evict_slot_at [OF okI(1), of now] ev by simp_all
  have at: "slot_at inner x = Some sl" using slot by (simp add: inner(2) unexpired_def)
  define pre' where "pre' = (if 0 < n then filter (\<lambda>(k, p). contains_slot inner k p) pre else pre)"
  have ord: "(if 0 < n then filter (\<lambda>(k, p). contains_slot inner k p) (fs_order st) else fs_order st) = pre' @ [x]"
  proof -
    have "contains_slot inner (fst x) (snd x)" using at by (simp add: contains_slot_iff)
    then show ?thesis using order(1) by (simp add: pre'_def case_prod_unfold)
  qed
  obtain inner' order' rm where lru: "lru_loop (fs_cap st) inner (pre' @ [x]) (0 < n) = (inner', order', rm)"
    by (cases "lru_loop (fs_cap st) inner (pre' @ [x]) (0 < n)")
  have cover: "dom (slot_at inner) \<subseteq> set (pre' @ [x])"
    using okI(2) unfolding ord [symmetric] inner(2)
    by (auto simp: unexpired_def contains_slot_iff inner(2) split: option.splits if_splits)
  have "fs_inner st' = inner'"
    using run False ev lru ord by (auto simp: enforce_cap_def Let_def)
  then show ?thesis
    using lru_loop_keeps_last [OF inner(1) cover _ okI(3) lru] order(2) at by (auto simp: pre'_def split: if_splits)
qed


section \<open>Admission\<close>

lemma admit_slots:
  assumes "admit pid s peer a now = (s', ad)"
  shows "slot_at s' = (if pid (pa_provider a) = Some peer then spec_apply (slot_at s) a now else slot_at s)"
    and "store_ok s \<Longrightarrow> store_ok s'"
    and "\<not> ad_floor_advanced ad \<Longrightarrow> slot_at s' = slot_at s"
proof -
  show "slot_at s' = (if pid (pa_provider a) = Some peer then spec_apply (slot_at s) a now else slot_at s)"
    using assms apply_refines [of s a now] by (auto simp: admit_def split: prod.splits if_splits)
  show "store_ok s \<Longrightarrow> store_ok s'"
    using assms store_ok_apply [of s a now] by (auto simp: admit_def split: prod.splits if_splits)
  show "slot_at s' = slot_at s" if no: "\<not> ad_floor_advanced ad"
  proof (cases "pid (pa_provider a) = Some peer")
    case True
    then have "ad = admitted_of a (spec_outcome (slot_at s) a now)" "slot_at s' = spec_apply (slot_at s) a now"
      using assms apply_refines [of s a now] apply_outcome_refines [of s a now]
      by (auto simp: admit_def split: prod.splits)
    then show ?thesis
      using no spec_outcome_accepted [of "slot_at s" a now] by (cases a) (auto simp: spec_apply_def)
  next
    case False
    then show ?thesis using assms by (simp add: admit_def)
  qed
qed

lemma admit_record:
  assumes "admit pid s peer a now = (s', ad)" "ad_record ad = Some r"
  shows "a = Provide r" "pid (pr_provider r) = Some peer" "slot_at s' (pr_key r, pr_provider r) = Some (SlotActive r)"
    "now < pr_expiry r"
proof -
  have pid: "pid (pa_provider a) = Some peer"
    using assms by (auto simp: admit_def split: if_splits)
  then have ad: "ad = admitted_of a (spec_outcome (slot_at s) a now)" "slot_at s' = spec_apply (slot_at s) a now"
    using assms(1) apply_refines [of s a now] apply_outcome_refines [of s a now]
    by (auto simp: admit_def split: prod.splits)
  show a: "a = Provide r"
    using ad assms(2) by (cases "spec_outcome (slot_at s) a now"; cases a) auto
  show "pid (pr_provider r) = Some peer" using pid a by simp
  show "now < pr_expiry r"
    using ad assms(2) a by (auto simp: spec_outcome_def split: if_splits)
  show "slot_at s' (pr_key r, pr_provider r) = Some (SlotActive r)"
    using ad assms(2) a
    by (auto simp: spec_outcome_def spec_apply_def supersedes_def slot_id_def split: option.splits if_splits)
qed

text \<open>The stages of an admission.\<close>

lemma floor_admit_stages:
  assumes "floor_admit pid wr st peer a now = (st', rec)"
  obtains inner ad st1 st2 evicted where
    "admit pid (fs_inner st) peer a now = (inner, ad)" "rec = ad_record ad"
    "st1 = (let s = st\<lparr> fs_inner := inner \<rparr> in
       if contains_slot inner (pa_key a) (pa_provider a) then touch s (pa_key a) (pa_provider a) else s)"
    "enforce_cap st1 now = (st2, evicted)"
    "st' = (if fs_file st2 \<noteq> None \<and> (ad_floor_advanced ad \<or> evicted) then persist wr st2 else st2)"
  using assms by (auto simp: floor_admit_def Let_def split: prod.splits)

lemma persist_fields [simp]:
  "fs_inner (persist wr st) = fs_inner st" "fs_order (persist wr st) = fs_order st"
  "fs_cap (persist wr st) = fs_cap st"
  by (simp_all add: persist_def)

lemma touch_fields [simp]:
  "fs_inner (touch st k p) = fs_inner st" "fs_cap (touch st k p) = fs_cap st"
  "fs_file (touch st k p) = fs_file st"
  "fs_order (touch st k p) = filter (\<lambda>slot. slot \<noteq> (k, p)) (fs_order st) @ [(k, p)]"
  by (simp_all add: touch_def)

lemma floor_ok_touched:
  assumes ok: "floor_ok st" and ad: "admit pid (fs_inner st) peer a now = (inner, ad)"
    and st1: "st1 = (let s = st\<lparr> fs_inner := inner \<rparr> in
       if contains_slot inner (pa_key a) (pa_provider a) then touch s (pa_key a) (pa_provider a) else s)"
  shows "floor_ok st1" "fs_inner st1 = inner" "fs_cap st1 = fs_cap st" "fs_file st1 = fs_file st"
proof -
  show "fs_inner st1 = inner" "fs_cap st1 = fs_cap st" "fs_file st1 = fs_file st"
    using st1 by (auto simp: Let_def)
  have "dom (slot_at inner) \<subseteq> insert (slot_id a) (dom (slot_at (fs_inner st)))"
    using admit_slots(1) [OF ad] by (auto simp: spec_apply_def split: if_splits)
  moreover have "dom (slot_at (fs_inner st)) \<subseteq> set (fs_order st)" using ok by (simp add: floor_ok_def)
  ultimately have sub: "dom (slot_at inner) \<subseteq> insert (pa_key a, pa_provider a) (set (fs_order st))"
    by (auto simp: slot_id_def)
  have "dom (slot_at inner) \<subseteq> set (fs_order st1)"
  proof (cases "contains_slot inner (pa_key a) (pa_provider a)")
    case True
    then show ?thesis using sub st1 by (auto simp: Let_def)
  next
    case False
    then have "(pa_key a, pa_provider a) \<notin> dom (slot_at inner)" by (simp add: contains_slot_iff domIff)
    then show ?thesis using sub st1 False by (auto simp: Let_def)
  qed
  then show "floor_ok st1"
    using ok st1 admit_slots(2) [OF ad] by (auto simp: floor_ok_def Let_def)
qed

lemma floor_admit_ok:
  assumes "floor_ok st" "floor_admit pid wr st peer a now = (st', rec)"
  shows "floor_ok st'" "slot_count (fs_inner st') \<le> fs_cap st'" "fs_cap st' = fs_cap st"
    "fs_file st' = None \<longleftrightarrow> fs_file st = None"
    "slot_at (fs_inner st') \<subseteq>\<^sub>m
      (if pid (pa_provider a) = Some peer then spec_apply (slot_at (fs_inner st)) a now else slot_at (fs_inner st))"
proof -
  obtain inner ad st1 st2 ev where s: "admit pid (fs_inner st) peer a now = (inner, ad)"
    "st1 = (let s = st\<lparr> fs_inner := inner \<rparr> in
       if contains_slot inner (pa_key a) (pa_provider a) then touch s (pa_key a) (pa_provider a) else s)"
    "enforce_cap st1 now = (st2, ev)"
    "st' = (if fs_file st2 \<noteq> None \<and> (ad_floor_advanced ad \<or> ev) then persist wr st2 else st2)"
    using floor_admit_stages [OF assms(2)] by metis
  note t = floor_ok_touched [OF assms(1) s(1,2)]
  note e = enforce_cap_spec [OF t(1) s(3)]
  show "floor_ok st'" using e s(4) by (auto simp: floor_ok_def)
  show "slot_count (fs_inner st') \<le> fs_cap st'" "fs_cap st' = fs_cap st" using e t s(4) by auto
  show "fs_file st' = None \<longleftrightarrow> fs_file st = None"
    using e t s(4) by (auto simp: persist_def save_floors_def Let_def split: if_splits)
  show "slot_at (fs_inner st') \<subseteq>\<^sub>m
      (if pid (pa_provider a) = Some peer then spec_apply (slot_at (fs_inner st)) a now else slot_at (fs_inner st))"
    using e(5) t(2) s(4) admit_slots(1) [OF s(1)] by auto
qed

lemma floor_admit_record:
  assumes "floor_ok st" "floor_admit pid wr st peer a now = (st', Some r)"
  shows "a = Provide r" "pid (pr_provider r) = Some peer" "now < pr_expiry r"
    "slot_at (fs_inner st') (pr_key r, pr_provider r) = Some (SlotActive r)"
proof -
  obtain inner ad st1 st2 ev where s: "admit pid (fs_inner st) peer a now = (inner, ad)" "ad_record ad = Some r"
    "st1 = (let s = st\<lparr> fs_inner := inner \<rparr> in
       if contains_slot inner (pa_key a) (pa_provider a) then touch s (pa_key a) (pa_provider a) else s)"
    "enforce_cap st1 now = (st2, ev)"
    "st' = (if fs_file st2 \<noteq> None \<and> (ad_floor_advanced ad \<or> ev) then persist wr st2 else st2)"
    using floor_admit_stages [OF assms(2)] by metis
  note r = admit_record [OF s(1,2)]
  show "a = Provide r" "pid (pr_provider r) = Some peer" "now < pr_expiry r" by (rule r)+
  note t = floor_ok_touched [OF assms(1) s(1,3)]
  have order: "fs_order st1 = filter (\<lambda>slot. slot \<noteq> (pr_key r, pr_provider r)) (fs_order st) @ [(pr_key r, pr_provider r)]"
    using s(3) r by (simp add: Let_def contains_slot_iff)
  have "slot_at (fs_inner st2) (pr_key r, pr_provider r) = Some (SlotActive r)"
    using enforce_cap_keeps [OF t(1) s(4) order] r t(2) by simp
  then show "slot_at (fs_inner st') (pr_key r, pr_provider r) = Some (SlotActive r)"
    using s(5) by auto
qed



section \<open>Durability\<close>

definition genuine :: "ed25519 \<Rightarrow> provider_assertion \<Rightarrow> bool" where
  "genuine C a \<longleftrightarrow> wf_assertion C a \<and> publishable_assertion a \<and> authentic C a"

lemma decode_genuine: "decode_provider_assertion C bytes key now = Ok a \<Longrightarrow> genuine C a \<and> pa_key a = key \<and> now < pa_expiry a"
  by (auto simp: decode_iff genuine_def encode_Ok_iff)

definition slots_storable :: "ed25519 \<Rightarrow> slot_map \<Rightarrow> bool" where
  "slots_storable C m \<longleftrightarrow> (\<forall>k p sl. m (k, p) = Some sl \<longrightarrow> storable C (k, p, floor_of_slot sl))"

lemma word_positive: "(x::u64) < y \<Longrightarrow> 0 < y"
  by (rule le_less_trans [OF word_zero_le])

lemma slots_storable_apply: "slots_storable C m \<Longrightarrow> genuine C a \<Longrightarrow> slots_storable C (spec_apply m a now)"
  by (cases a) (auto simp: slots_storable_def spec_apply_def supersedes_def slot_id_def genuine_def word_positive)

lemma slots_storable_mono: "slots_storable C m \<Longrightarrow> m' \<subseteq>\<^sub>m m \<Longrightarrow> slots_storable C m'"
  by (auto simp: slots_storable_def map_le_def dom_def)

lemma export_storable:
  assumes "store_ok s" "slots_storable C (slot_at s)"
  shows "list_all (storable C) (export_floors s)"
  using assms slot_at_entries [OF assms(1)]
  by (auto simp: export_floors_entries list_all_iff slots_storable_def hm_get_eq_Some_iff)

lemma hex32_SomeD: "hex32 s = Some bs \<Longrightarrow> length bs = 32"
  by (auto simp: hex32_def bind_eq_Some_conv split: if_splits)

lemma parse_active_line_storable: "parse_active_line C parts = Some f \<Longrightarrow> storable C f"
proof -
  assume parse: "parse_active_line C parts = Some f"
  then obtain k b key bytes where "parts = [k, b]" "hex32 k = Some key" "from_hex b = Some bytes"
    by (auto simp: parse_active_line_def bind_eq_Some_conv split: list.split_asm)
  then obtain r where "decode_provider_assertion C bytes (ContentKey key) 0 = Ok (Provide r)"
    "f = (ContentKey key, pr_provider r, FloorActive r)"
    using parse by (cases "decode_provider_assertion C bytes (ContentKey key) 0")
      (auto simp: parse_active_line_def split: provider_assertion.split_asm)
  then show ?thesis using decode_genuine by (fastforce simp: genuine_def)
qed

lemma parse_withdrawn_line_storable: "parse_withdrawn_line parts = Some f \<Longrightarrow> storable C f"
  by (auto simp: parse_withdrawn_line_def bind_eq_Some_conv wf_key_def wf_node_def CONTENT_KEY_LEN_def
      NODE_ID_LEN_def split: list.split_asm dest!: hex32_SomeD)

lemma parse_floor_line_storable: "parse_floor_line C line = Some f \<Longrightarrow> storable C f"
  by (auto simp: parse_floor_line_def parse_active_line_storable parse_withdrawn_line_storable
      split: list.split_asm if_split_asm)

lemma load_floors_storable: "list_all (storable C) (load_floors C file)"
proof -
  have "storable C f" if mem: "f \<in> set (deserialize_floors C contents)" for f contents
  proof -
    obtain line where "parse_floor_line C line = Some f"
      using mem by (auto simp: deserialize_floors_def in_set_map_filter split: list.split_asm if_split_asm)
    then show ?thesis by (rule parse_floor_line_storable)
  qed
  then show ?thesis by (cases "file") (auto simp: load_floors_def list_all_iff)
qed

lemma restore_storable:
  "list_all (storable C) fs \<Longrightarrow> slots_storable C (slot_at s) \<Longrightarrow> slots_storable C (slot_at (restore_floors s fs))"
proof (induction fs arbitrary: s)
  case (Cons f fs)
  obtain k p fl where f: "f = (k, p, fl)" by (cases f)
  have "floor_of_slot (slot_of_floor fl) = fl" by (cases fl) auto
  then have "slots_storable C (slot_at (restore_floor s k p fl))"
    using Cons.prems by (auto simp: f slots_storable_def restore_slot_at)
  then show ?case using Cons by (simp add: f restore_floors_def)
qed (simp add: restore_floors_def)

text \<open>The file holds the slots that the store holds.\<close>

definition in_sync :: "ed25519 \<Rightarrow> floor_store \<Rightarrow> bool" where
  "in_sync C st \<longleftrightarrow> (\<forall>file. fs_file st = Some file \<longrightarrow>
     slot_at (restore_floors new_record_set (load_floors C file)) = slot_at (fs_inner st))"

definition floor_inv :: "ed25519 \<Rightarrow> floor_store \<Rightarrow> bool" where
  "floor_inv C st \<longleftrightarrow> floor_ok st \<and> slots_storable C (slot_at (fs_inner st)) \<and> in_sync C st"

lemma floor_inv_with_cap: "floor_inv C (with_cap cap)"
  using floor_ok_with_cap by (simp add: floor_inv_def in_sync_def with_cap_def slots_storable_def)

lemma floor_inv_durable: "floor_inv C (durable C file cap)"
  using restore_storable [OF load_floors_storable [of C "file"], of new_record_set] floor_ok_durable
  by (simp add: floor_inv_def in_sync_def durable_eq slots_storable_def)

lemma load_persisted:
  assumes "store_ok s" "slots_storable C (slot_at s)"
  shows "slot_at (restore_floors new_record_set (load_floors C (Some (serialize_floors (export_floors s))))) = slot_at s"
  using deserialize_serialize_floors [OF export_storable [OF assms]] restore_export [OF assms(1)]
  by (simp add: load_floors_def)

lemma floor_admit_inv:
  assumes inv: "floor_inv C st" and gen: "genuine C a"
    and run: "floor_admit pid (\<lambda>_. True) st peer a now = (st', rec)"
  shows "floor_inv C st'"
proof -
  have ok: "floor_ok st" and sto: "slots_storable C (slot_at (fs_inner st))" and sync: "in_sync C st"
    using inv by (auto simp: floor_inv_def)
  obtain inner ad st1 st2 ev where s: "admit pid (fs_inner st) peer a now = (inner, ad)"
    "st1 = (let s = st\<lparr> fs_inner := inner \<rparr> in
       if contains_slot inner (pa_key a) (pa_provider a) then touch s (pa_key a) (pa_provider a) else s)"
    "enforce_cap st1 now = (st2, ev)"
    "st' = (if fs_file st2 \<noteq> None \<and> (ad_floor_advanced ad \<or> ev) then persist (\<lambda>_. True) st2 else st2)"
    using floor_admit_stages [OF run] by metis
  note t = floor_ok_touched [OF ok s(1,2)]
  note e = enforce_cap_spec [OF t(1) s(3)]
  note f = floor_admit_ok [OF ok run]
  have sto': "slots_storable C (slot_at (fs_inner st'))"
    using slots_storable_mono [OF _ f(5)] slots_storable_apply [OF sto gen] sto by auto
  have "in_sync C st'"
  proof (cases "fs_file st2 \<noteq> None \<and> (ad_floor_advanced ad \<or> ev)")
    case True
    have "fs_file st' = Some (Some (serialize_floors (export_floors (fs_inner st'))))"
      using True s(4) by (auto simp: persist_def save_floors_def Let_def)
    then show ?thesis
      using load_persisted [OF _ sto'] f(1) by (simp add: in_sync_def floor_ok_def)
  next
    case False
    show ?thesis
    proof (cases "fs_file st2")
      case None
      then show ?thesis using False s(4) by (simp add: in_sync_def)
    next
      case (Some c)
      then have "slot_at (fs_inner st') = slot_at (fs_inner st)" "fs_file st' = fs_file st"
        using False s(4) e t admit_slots(3) [OF s(1)] by auto
      then show ?thesis using sync by (simp add: in_sync_def)
    qed
  qed
  then show ?thesis using f(1) sto' by (simp add: floor_inv_def)
qed

text \<open>A run of admissions.\<close>

definition floor_run ::
  "(node_id \<Rightarrow> 'p option) \<Rightarrow> (string \<Rightarrow> bool) \<Rightarrow> floor_store \<Rightarrow> ('p \<times> provider_assertion \<times> u64) list \<Rightarrow> floor_store" where
  "floor_run pid wr st es = foldl (\<lambda>st (peer, a, now). fst (floor_admit pid wr st peer a now)) st es"

lemma floor_run_inv:
  "floor_inv C st \<Longrightarrow> (\<And>peer a now. (peer, a, now) \<in> set es \<Longrightarrow> genuine C a) \<Longrightarrow>
   floor_inv C (floor_run pid (\<lambda>_. True) st es)"
proof (induction es arbitrary: st)
  case (Cons x es)
  obtain peer a now where x: "x = (peer, a, now)" by (cases x)
  obtain st' r where run: "floor_admit pid (\<lambda>_. True) st peer a now = (st', r)" by fastforce
  have "floor_inv C st'"
    by (rule floor_admit_inv [OF Cons.prems(1) _ run]) (use Cons.prems(2) x in auto)
  then show ?case using Cons.IH [of st'] Cons.prems(2) run by (auto simp: floor_run_def x)
qed (simp add: floor_run_def)

lemma floor_run_file: "floor_ok st \<Longrightarrow>
  floor_ok (floor_run pid wr st es) \<and> fs_cap (floor_run pid wr st es) = fs_cap st \<and>
  (fs_file (floor_run pid wr st es) = None \<longleftrightarrow> fs_file st = None) \<and>
  (es \<noteq> [] \<longrightarrow> slot_count (fs_inner (floor_run pid wr st es)) \<le> fs_cap st)"
proof (induction es arbitrary: st)
  case (Cons x es)
  obtain peer a now where x: "x = (peer, a, now)" by (cases x)
  obtain st' r where run: "floor_admit pid wr st peer a now = (st', r)" by fastforce
  note f = floor_admit_ok [OF Cons.prems run]
  have step: "floor_run pid wr st (x # es) = floor_run pid wr st' es"
    by (simp add: floor_run_def x run)
  show ?case using Cons.IH [OF f(1)] f step by (cases "es = []") (auto simp: floor_run_def)
qed (simp add: floor_run_def)



section \<open>Properties\<close>

text \<open>C25: The memory bound: whatever file a store starts from and whatever assertions arrive from whatever
  peers, after any admission it holds at most its cap of slots.\<close>

theorem floor_store_bounded:
  assumes "es \<noteq> []"
  shows "slot_count (fs_inner (floor_run pid wr (durable C file cap) es)) \<le> max cap 1"
  using floor_run_file [OF floor_ok_durable, of pid wr C "file" cap es] assms by (simp add: durable_eq)

theorem floor_store_bounded_witness:
  "slot_count (fs_inner (floor_run (\<lambda>n. Some n) (\<lambda>_. False) (durable demo_ed25519 None 0)
     [(demo_node, Provide demo_record, 1), (demo_node, Withdraw (demo_withdrawal\<lparr>pw_key := ContentKey []\<rparr>), 1)])) \<le> 1"
  using floor_store_bounded [of "[(demo_node, Provide demo_record, 1),
      (demo_node, Withdraw (demo_withdrawal\<lparr>pw_key := ContentKey []\<rparr>), 1)]" "\<lambda>n. Some n" "\<lambda>_. False" demo_ed25519 None 0]
  by simp

text \<open>C26: A consumer that restarts from the file its store left behind holds exactly the slots it held,
  after any run of genuine assertions during which the file could be written.\<close>

theorem floor_survives_restart:
  assumes "\<And>peer a now. (peer, a, now) \<in> set es \<Longrightarrow> genuine C a"
    and "st = floor_run pid (\<lambda>_. True) (durable C file cap) es"
  shows "\<exists>saved. fs_file st = Some saved \<and>
    slot_at (fs_inner (durable C saved cap)) = slot_at (fs_inner st)"
proof -
  have "floor_inv C st"
    unfolding assms(2) by (rule floor_run_inv [OF floor_inv_durable assms(1)])
  moreover obtain saved where "fs_file st = Some saved"
    using floor_run_file [OF floor_ok_durable, of pid "\<lambda>_. True" C "file" cap es] assms(2)
    by (auto simp: durable_eq)
  ultimately show ?thesis by (auto simp: floor_inv_def in_sync_def durable_eq)
qed

theorem floor_survives_restart_witness:
  "\<exists>saved. fs_file (floor_run (\<lambda>n. Some n) (\<lambda>_. True) (durable demo_ed25519 None 8)
       [(demo_node, Provide demo_record, 1)]) = Some saved \<and>
    slot_at (fs_inner (durable demo_ed25519 saved 8)) =
    slot_at (fs_inner (floor_run (\<lambda>n. Some n) (\<lambda>_. True) (durable demo_ed25519 None 8)
       [(demo_node, Provide demo_record, 1)]))"
  by (rule floor_survives_restart [OF _ refl])
    (use demo_authentic in \<open>simp add: genuine_def del: wf_assertion.simps publishable_assertion.simps\<close>)

text \<open>A record is returned as live only when the peer it came from derives from its provider key and it
  is unexpired, and then it is the floor of its slot: the admission that returned it does not evict it.\<close>

theorem admitted_record_is_floor:
  assumes "floor_ok st" "floor_admit pid wr st peer a now = (st', Some r)"
  shows "a = Provide r \<and> pid (pr_provider r) = Some peer \<and> now < pr_expiry r \<and>
    slot_at (fs_inner st') (pr_key r, pr_provider r) = Some (SlotActive r)"
  using floor_admit_record [OF assms] by simp

lemma demo_admit: "floor_admit (\<lambda>n. Some n) wr (with_cap 1) demo_node (Provide demo_record) 2 =
    (\<lparr> fs_inner = \<lparr> by_key = [(demo_key, [(demo_node, SlotActive demo_record)])] \<rparr>,
       fs_order = [(demo_key, demo_node)], fs_cap = 1, fs_file = None \<rparr>, Some demo_record)"
  by (simp add: floor_admit_def admit_def with_cap_def apply_assertion_def new_record_set_def Let_def
      hm_entry_or_def hm_insert_def hm_get_def contains_slot_def hm_contains_def touch_def enforce_cap_def
      slot_count_def hm_values_def)

theorem admitted_record_is_floor_witness:
  "\<exists>st'. floor_admit (\<lambda>n. Some n) (\<lambda>_. True) (with_cap 1) demo_node (Provide demo_record) 2 = (st', Some demo_record) \<and>
    slot_at (fs_inner st') (demo_key, demo_node) = Some (SlotActive demo_record)"
  using admitted_record_is_floor [OF floor_ok_with_cap demo_admit] demo_admit by simp

end
