(* ===== verification/Outcome.thy ===== *)
theory Outcome
  imports Prelude
begin

text \<open>
  The three-way outcome of a consultation, \<^verbatim>\<open>peer-fabric/src/outcome.rs\<close>: a lookup found
  something, completed and found nothing, or could not be completed.
\<close>

datatype unavailable =
    BootstrapOutage
  | Partition
  | DeadlineExceeded
  | InsufficientRouting
  | Backend string

datatype 'a lookup = Found 'a | Miss | Unavailable unavailable

fun is_found :: "'a lookup \<Rightarrow> bool" where
  "is_found (Found x) = True"
| "is_found _ = False"

fun is_miss :: "'a lookup \<Rightarrow> bool" where
  "is_miss Miss = True"
| "is_miss _ = False"

fun is_unavailable :: "'a lookup \<Rightarrow> bool" where
  "is_unavailable (Unavailable why) = True"
| "is_unavailable _ = False"

fun found_value :: "'a lookup \<Rightarrow> 'a option" where
  "found_value (Found x) = Some x"
| "found_value Miss = None"
| "found_value (Unavailable why) = None"

fun display_unavailable :: "unavailable \<Rightarrow> string" where
  "display_unavailable BootstrapOutage = ''bootstrap infrastructure unreachable''"
| "display_unavailable Partition = ''network partition from the answering keyspace''"
| "display_unavailable DeadlineExceeded = ''consultation deadline exceeded''"
| "display_unavailable InsufficientRouting =
     ''too few reachable peers near the key to be authoritative''"
| "display_unavailable (Backend why) = ''backend failure: '' @ why"

lemma is_miss_iff [simp]: "is_miss l \<longleftrightarrow> l = Miss"
  by (cases l) auto

lemma is_found_iff: "is_found l \<longleftrightarrow> (\<exists>x. l = Found x)"
  by (cases l) auto

lemma is_unavailable_iff: "is_unavailable l \<longleftrightarrow> (\<exists>why. l = Unavailable why)"
  by (cases l) auto

end
