(* ===== verification/Fan_Out.thy ===== *)
theory Fan_Out
  imports Outcome "HOL-Library.Product_Lexorder"
begin

text \<open>
  The bounded fan-out of a provider-index walk, \<^verbatim>\<open>fabric-libp2p/src/swarm.rs\<close>: the
  near-key classification of an empty walk, the salted rank of a provider, and the
  aggregation that keeps the \<open>max_peers\<close> providers of smallest rank as they arrive.

  A peer id is an element of a linearly ordered type \<open>'p\<close>, and \<open>to_bytes\<close> is the byte form of
  the libp2p crate. A \<^verbatim>\<open>BTreeSet\<close> is the strictly ascending list of its elements.
\<close>

unbundle bit_operations_syntax

record query_reach =
  answered :: u32

definition reached_neighborhood :: "query_reach \<Rightarrow> bool" where
  "reached_neighborhood reach \<longleftrightarrow> answered reach > 0"

definition absence_from_reach :: "query_reach \<Rightarrow> 'a lookup" where
  "absence_from_reach reach =
     (if reached_neighborhood reach then Miss else Unavailable InsufficientRouting)"

record 'p provider_fan_out =
  fo_providers :: "'p list"
  fo_truncated :: bool
  fo_reach :: query_reach

definition FNV_OFFSET :: u64 where "FNV_OFFSET = 0xcbf29ce484222325"

definition FNV_PRIME :: u64 where "FNV_PRIME = 0x00000100000001b3"

definition provider_rank :: "('p \<Rightarrow> bytes) \<Rightarrow> u64 \<Rightarrow> 'p \<Rightarrow> u64" where
  "provider_rank to_bytes salt peer =
     (let h = foldl (\<lambda>h b. (h XOR ucast b) * FNV_PRIME) (FNV_OFFSET XOR salt) (to_bytes peer);
          h = (h XOR drop_bit 30 h) * 0xbf58476d1ce4e5b9;
          h = (h XOR drop_bit 27 h) * 0x94d049bb133111eb
      in h XOR drop_bit 31 h)"

definition retain_bounded_provider ::
  "('p::linorder \<Rightarrow> bytes) \<Rightarrow> (u64 \<times> 'p) list \<Rightarrow> nat \<Rightarrow> u64 \<Rightarrow> bool \<Rightarrow> 'p \<Rightarrow> (u64 \<times> 'p) list \<times> bool" where
  "retain_bounded_provider to_bytes found max_peers salt discarded peer =
     (let entry = (provider_rank to_bytes salt peer, peer) in
      if entry \<in> set found then (found, discarded)
      else
        let found = insort entry found in
        if length found > max_peers then
          let largest = last found in (remove1 largest found, True)
        else (found, discarded))"

text \<open>The walk folds every advertised provider into the set.\<close>

definition aggregate_providers ::
  "('p::linorder \<Rightarrow> bytes) \<Rightarrow> nat \<Rightarrow> u64 \<Rightarrow> 'p list \<Rightarrow> (u64 \<times> 'p) list \<times> bool" where
  "aggregate_providers to_bytes max_peers salt peers =
     foldl (\<lambda>(found, discarded) peer. retain_bounded_provider to_bytes found max_peers salt discarded peer)
       ([], False) peers"


text \<open>The reply at the end of a walk that did not time out.\<close>

definition providers_reply ::
  "('p::linorder \<Rightarrow> bytes) \<Rightarrow> nat \<Rightarrow> u64 \<Rightarrow> 'p list \<Rightarrow> query_reach \<Rightarrow> 'p provider_fan_out" where
  "providers_reply to_bytes max_peers salt peers reach =
     (let (found, truncated) = aggregate_providers to_bytes max_peers salt peers in
      \<lparr> fo_providers = sort (map snd found), fo_truncated = truncated, fo_reach = reach \<rparr>)"


section \<open>The retained set is the set of smallest ranks\<close>

definition ranked :: "('p \<Rightarrow> bytes) \<Rightarrow> u64 \<Rightarrow> 'p list \<Rightarrow> (u64 \<times> 'p) set" where
  "ranked to_bytes salt peers = (\<lambda>p. (provider_rank to_bytes salt p, p)) ` set peers"

lemma finite_ranked [simp, intro]: "finite (ranked to_bytes salt peers)"
  by (simp add: ranked_def)

lemma card_ranked: "card (ranked to_bytes salt peers) = card (set peers)"
  unfolding ranked_def by (rule card_image) (auto simp: inj_on_def)

lemma take_insort_take:
  fixes x :: "'a::linorder"
  shows "take m (insort x (take m xs)) = take m (insort x xs)"
proof (induction xs arbitrary: m)
  case (Cons y ys)
  then show ?case by (cases m) (auto simp: take_Cons' min_def)
qed simp

lemma insort_above: "\<forall>y \<in> set xs. y < x \<Longrightarrow> insort x xs = xs @ [x]"
  by (induction xs) auto

lemma remove_last: "distinct xs \<Longrightarrow> xs \<noteq> [] \<Longrightarrow> remove1 (last xs) xs = butlast xs"
  by (induction xs rule: rev_induct) (auto simp: remove1_append)

definition smallest :: "nat \<Rightarrow> 'a::linorder set \<Rightarrow> 'a list" where
  "smallest m S = take m (sorted_list_of_set S)"

lemma smallest_props:
  assumes "finite S"
  shows "sorted (smallest m S)" "distinct (smallest m S)" "set (smallest m S) \<subseteq> S"
    "length (smallest m S) = min m (card S)"
  using assms unfolding smallest_def
  by (auto simp: sorted_wrt_take dest: in_set_takeD)

lemma smallest_minimal:
  assumes "finite S" "x \<in> S" "x \<notin> set (smallest m S)"
  shows "\<forall>y \<in> set (smallest m S). y < x" "m < card S"
proof -
  let ?L = "sorted_list_of_set S"
  have L: "?L = take m ?L @ drop m ?L" "sorted ?L" "distinct ?L" "set ?L = S"
    using assms by auto
  have x: "x \<in> set (drop m ?L)"
    using assms L by (metis Un_iff set_append smallest_def)
  have "sorted (take m ?L @ drop m ?L)" using L by metis
  then have le: "\<forall>y \<in> set (take m ?L). y \<le> x"
    using x by (simp only: sorted_append) blast
  then show "\<forall>y \<in> set (smallest m S). y < x"
    using assms(3) unfolding smallest_def by (metis order_le_less)
  show "m < card S"
    using x L by (metis card_length distinct_card drop_all empty_iff empty_set leI)
qed

lemma retain_step:
  assumes S: "finite S" and entry: "e = (provider_rank to_bytes salt peer, peer)"
  shows "retain_bounded_provider to_bytes (smallest m S) m salt (m < card S) peer =
    (smallest m (insert e S), m < card (insert e S))"
proof (cases "e \<in> set (smallest m S)")
  case True
  then have "insert e S = S" using smallest_props(3) [OF S] by auto
  then show ?thesis using True by (simp add: retain_bounded_provider_def entry)
next
  case new: False
  let ?F = "insort e (smallest m S)"
  have len: "length ?F = Suc (min m (card S))" by (simp add: smallest_props [OF S])
  have dist: "distinct ?F" using new smallest_props(2) [OF S] by (simp add: distinct_insort)
  have trim: "remove1 (last ?F) ?F = take m ?F" if "m \<le> card S"
  proof -
    have "?F \<noteq> []" using len by (metis list.size(3) nat.distinct(1))
    then show ?thesis using remove_last [OF dist] that len by (simp add: butlast_conv_take)
  qed
  have run: "retain_bounded_provider to_bytes (smallest m S) m salt (m < card S) peer =
      (if m \<le> card S then (take m ?F, True) else (?F, False))"
    using new trim len by (auto simp: retain_bounded_provider_def entry [symmetric] Let_def)
  show ?thesis
  proof (cases "e \<in> S")
    case True
    then have ins: "insert e S = S" by auto
    note old = smallest_minimal [OF S True new]
    have "take m ?F = smallest m S"
      using insort_above [OF old(1)] old(2) smallest_props(4) [OF S, of m] by simp
    then show ?thesis using run old(2) ins by simp
  next
    case False
    have sl: "sorted_list_of_set (insert e S) = insort e (sorted_list_of_set S)"
      using S False by (simp add: sorted_list_of_set_insert)
    have cut: "smallest m (insert e S) = take m ?F"
      by (simp only: smallest_def sl take_insort_take)
    have "card (insert e S) = Suc (card S)" using S False by simp
    then show ?thesis using run cut len by auto
  qed
qed

lemma aggregate_providers_eq:
  "aggregate_providers to_bytes max_peers salt peers =
    (smallest max_peers (ranked to_bytes salt peers), max_peers < card (set peers))"
proof (induction peers rule: rev_induct)
  case Nil
  then show ?case by (simp add: aggregate_providers_def ranked_def smallest_def)
next
  case (snoc p ps)
  have "ranked to_bytes salt (ps @ [p]) =
      insert (provider_rank to_bytes salt p, p) (ranked to_bytes salt ps)"
    by (auto simp: ranked_def)
  then show ?case
    using snoc retain_step [OF finite_ranked [of to_bytes salt ps] refl, of to_bytes max_peers salt p]
      card_ranked [of to_bytes salt ps] card_ranked [of to_bytes salt "ps @ [p]"]
    by (simp add: aggregate_providers_def)
qed


lemma smallest_all: "finite S \<Longrightarrow> card S \<le> m \<Longrightarrow> set (smallest m S) = S"
  using sorted_list_of_set.length_sorted_key_list_of_set [of S] by (simp add: smallest_def)

lemma providers_reply_complete:
  assumes "\<not> fo_truncated (providers_reply to_bytes max_peers salt peers reach)"
  shows "set (fo_providers (providers_reply to_bytes max_peers salt peers reach)) = set peers"
proof -
  have "card (set peers) \<le> max_peers"
    using assms by (simp add: providers_reply_def aggregate_providers_eq)
  then have "set (smallest max_peers (ranked to_bytes salt peers)) = ranked to_bytes salt peers"
    by (intro smallest_all) (simp_all add: card_ranked)
  then show ?thesis
    by (simp add: providers_reply_def aggregate_providers_eq) (force simp: ranked_def)
qed


section \<open>Properties\<close>

text \<open>C27: The bounded aggregation keeps exactly the providers of smallest rank among all that were
  advertised, in whatever order and however often they arrive, never holds more than the bound, and
  reports a truncation exactly when more distinct providers were advertised than the bound allows.\<close>

theorem aggregation_is_order_independent:
  "aggregate_providers to_bytes max_peers salt peers =
     (take max_peers (sorted_list_of_set (ranked to_bytes salt peers)), max_peers < card (set peers)) \<and>
   length (fst (aggregate_providers to_bytes max_peers salt peers)) \<le> max_peers"
  by (simp add: aggregate_providers_eq smallest_def)

end
