(* ===== verification/Exposure.thy ===== *)
theory Exposure
  imports Prelude
begin

text \<open>
  What a mechanism discloses to whom, \<^verbatim>\<open>peer-fabric/src/exposure.rs\<close>: the ledger of
  disclosures that happened, and the surface of disclosures a mechanism declares. The mutex of the
  ledger serialises its operations, so the ledger is the list of its entries.
\<close>

datatype recipient = LanPeer | Tracker | DnsResolver | Relay | DhtNode | Bootstrap

datatype disclosed = OurAddress | OurNodeId | DisclosedContentKey | QueriedNodeId

record exposure =
  ex_to :: recipient
  ex_disclosed :: disclosed

definition exposure_new :: "recipient \<Rightarrow> disclosed \<Rightarrow> exposure" where
  "exposure_new to what = \<lparr> ex_to = to, ex_disclosed = what \<rparr>"

record exposure_ledger =
  el_entries :: "exposure list"

definition ledger_new :: exposure_ledger where
  "ledger_new = \<lparr> el_entries = [] \<rparr>"

definition ledger_record :: "exposure_ledger \<Rightarrow> exposure \<Rightarrow> exposure_ledger" where
  "ledger_record l e = l\<lparr> el_entries := el_entries l @ [e] \<rparr>"

definition record_all :: "exposure_ledger \<Rightarrow> exposure list \<Rightarrow> exposure_ledger" where
  "record_all l es = l\<lparr> el_entries := el_entries l @ es \<rparr>"

definition ledger_len :: "exposure_ledger \<Rightarrow> nat" where
  "ledger_len l = length (el_entries l)"

definition ledger_is_empty :: "exposure_ledger \<Rightarrow> bool" where
  "ledger_is_empty l \<longleftrightarrow> ledger_len l = 0"

record exposure_surface =
  es_surface :: "exposure list"

definition surface_none :: exposure_surface where
  "surface_none = \<lparr> es_surface = [] \<rparr>"

definition from_exposures :: "exposure list \<Rightarrow> exposure_surface" where
  "from_exposures es = \<lparr> es_surface = es \<rparr>"

definition surface_is_empty :: "exposure_surface \<Rightarrow> bool" where
  "surface_is_empty s \<longleftrightarrow> es_surface s = []"

definition surface_recipients :: "exposure_surface \<Rightarrow> recipient list" where
  "surface_recipients s =
     foldl (\<lambda>seen e. if ex_to e \<in> set seen then seen else seen @ [ex_to e]) [] (es_surface s)"

lemma el_entries_record_all [simp]: "el_entries (record_all l es) = el_entries l @ es"
  by (simp add: record_all_def)

lemma recipients_fold:
  "distinct seen \<Longrightarrow>
   distinct (foldl (\<lambda>seen e. if ex_to e \<in> set seen then seen else seen @ [ex_to e]) seen es) \<and>
   set (foldl (\<lambda>seen e. if ex_to e \<in> set seen then seen else seen @ [ex_to e]) seen es) =
     set seen \<union> ex_to ` set es"
  by (induction es arbitrary: seen) (auto simp: insert_absorb)

lemma surface_recipients_spec:
  "distinct (surface_recipients s) \<and> set (surface_recipients s) = ex_to ` set (es_surface s)"
  unfolding surface_recipients_def using recipients_fold [of "[]" "es_surface s"] by simp

end
