(* ===== verification/Directory.thy ===== *)
theory Directory
  imports Floor_Store Fan_Out Exposure
begin

text \<open>
  The kad-backed provider directory, \<^verbatim>\<open>fabric-libp2p/src/directory.rs\<close>: the two-phase
  resolve of a content key, its classification into found, absent and unavailable, and the disclosures
  it records.

  The swarm handle answers three questions; its replies are the fields of \<open>kad\<close>. Two of them are queries
  to the network. The trace of a directory is the order in which it recorded disclosures and sent queries.
  The waits of the resolve end before the floor is touched, so an elapsed deadline leaves the floor as it
  was; \<open>wait\<close> says where it struck.
\<close>

section \<open>Definitions\<close>

datatype query_fail = QueryTimeout | QueryBackend string

record 'p kad =
  routing_peers :: nat
  get_providers :: "content_key \<Rightarrow> u32 \<Rightarrow> (query_fail, 'p provider_fan_out) result"
  get_record :: "content_key \<Rightarrow> 'p \<Rightarrow> (query_fail, bytes option) result"

definition truncated_unavailable :: unavailable where
  "truncated_unavailable = Backend
     (''provider index named more providers than the max_peers fan-out budget; the consulted '' @
      ''subset held no live record but a discarded provider may be valid - retry with a larger '' @
      ''budget (not an authoritative absence)'')"

definition classify_empty_index :: "query_reach \<Rightarrow> bool \<Rightarrow> 'a lookup" where
  "classify_empty_index reach truncated =
     (if truncated then Unavailable truncated_unavailable else absence_from_reach reach)"

definition classify :: "provider_record list \<Rightarrow> bool \<Rightarrow> bool \<Rightarrow> provider_record list lookup" where
  "classify records consult_failed truncated =
     (if records \<noteq> [] then Found records
      else if consult_failed then Unavailable (Backend
        ''provider index named providers but their value records could not be consulted'')
      else if truncated then Unavailable truncated_unavailable
      else Miss)"

text \<open>The synchronous loop over the fetched values.\<close>

fun resolve_loop ::
  "ed25519 \<Rightarrow> (node_id \<Rightarrow> 'p option) \<Rightarrow> (string \<Rightarrow> bool) \<Rightarrow> content_key \<Rightarrow> u64 \<Rightarrow>
    floor_store \<Rightarrow> provider_record list \<Rightarrow> bool \<Rightarrow> ('p \<times> (query_fail, bytes option) result) list \<Rightarrow>
    floor_store \<times> provider_record list \<times> bool" where
  "resolve_loop C pid wr key now store records consult_failed [] = (store, records, consult_failed)"
| "resolve_loop C pid wr key now store records consult_failed ((peer, outcome) # results) =
     (case outcome of
        Ok (Some bytes) \<Rightarrow>
          (case decode_provider_assertion C bytes key now of
             Ok assertion \<Rightarrow>
               let (store', rec) = floor_admit pid wr store peer assertion now in
               resolve_loop C pid wr key now store'
                 (case rec of Some r \<Rightarrow> records @ [r] | None \<Rightarrow> records) consult_failed results
           | Err why \<Rightarrow> resolve_loop C pid wr key now store records consult_failed results)
      | Ok None \<Rightarrow> resolve_loop C pid wr key now store records consult_failed results
      | Err fail \<Rightarrow> resolve_loop C pid wr key now store records True results)"

text \<open>A query goes to nodes of the DHT. It carries a key derived from the content key, and its sender is our node.\<close>

datatype dht_query = IndexQuery content_key | ValueQuery content_key



datatype dir_effect = Recorded "exposure list" | Asked dht_query

record directory =
  dir_ledger :: exposure_ledger
  dir_store :: floor_store
  dir_trace :: "dir_effect list"

definition dir_record_all :: "directory \<Rightarrow> exposure list \<Rightarrow> directory" where
  "dir_record_all dir es =
     dir\<lparr> dir_ledger := record_all (dir_ledger dir) es, dir_trace := dir_trace dir @ [Recorded es] \<rparr>"

definition ask_index ::
  "'p kad \<Rightarrow> directory \<Rightarrow> content_key \<Rightarrow> u32 \<Rightarrow> directory \<times> (query_fail, 'p provider_fan_out) result" where
  "ask_index handle dir key max_peers =
     (dir\<lparr> dir_trace := dir_trace dir @ [Asked (IndexQuery key)] \<rparr>, get_providers handle key max_peers)"

definition ask_values ::
  "'p kad \<Rightarrow> directory \<Rightarrow> content_key \<Rightarrow> 'p list \<Rightarrow> directory \<times> ('p \<times> (query_fail, bytes option) result) list" where
  "ask_values handle dir key peers =
     (dir\<lparr> dir_trace := dir_trace dir @ replicate (length peers) (Asked (ValueQuery key)) \<rparr>,
      map (\<lambda>peer. (peer, get_record handle key peer)) peers)"

definition resolve ::
  "ed25519 \<Rightarrow> (node_id \<Rightarrow> 'p option) \<Rightarrow> (string \<Rightarrow> bool) \<Rightarrow> 'p kad \<Rightarrow> u64 \<Rightarrow> directory \<Rightarrow> content_key \<Rightarrow> u32 \<Rightarrow>
    directory \<times> provider_record list lookup" where
  "resolve C pid wr handle now dir key max_peers =
     (if routing_peers handle = 0 then (dir, Unavailable InsufficientRouting)
      else
        let dir = dir_record_all dir [exposure_new DhtNode DisclosedContentKey, exposure_new DhtNode OurNodeId]
        in case ask_index handle dir key max_peers of
             (dir, Err QueryTimeout) \<Rightarrow> (dir, Unavailable DeadlineExceeded)
           | (dir, Err (QueryBackend why)) \<Rightarrow> (dir, Unavailable (Backend why))
           | (dir, Ok fan_out) \<Rightarrow>
               if fo_providers fan_out = []
               then (dir, classify_empty_index (fo_reach fan_out) (fo_truncated fan_out))
               else
                 let (dir, results) = ask_values handle dir key (fo_providers fan_out);
                     (store, records, consult_failed) =
                       resolve_loop C pid wr key now (dir_store dir) [] False results
                 in (dir\<lparr> dir_store := store \<rparr>, classify records consult_failed (fo_truncated fan_out)))"

text \<open>The deadline strikes before the routing table is read, while the index is asked, or while the values are.\<close>

datatype wait = Completes | ElapsesBeforeQuery | ElapsesDuringIndex | ElapsesDuringValues

definition dir_find_providers ::
  "ed25519 \<Rightarrow> (node_id \<Rightarrow> 'p option) \<Rightarrow> (string \<Rightarrow> bool) \<Rightarrow> 'p kad \<Rightarrow> u64 \<Rightarrow> wait \<Rightarrow> directory \<Rightarrow> content_key \<Rightarrow> u32 \<Rightarrow>
    directory \<times> provider_record list lookup" where
  "dir_find_providers C pid wr handle now w dir key max_peers =
     (let asked = ask_index handle
            (dir_record_all dir [exposure_new DhtNode DisclosedContentKey, exposure_new DhtNode OurNodeId]) key max_peers
      in case w of
        Completes \<Rightarrow> resolve C pid wr handle now dir key max_peers
      | ElapsesBeforeQuery \<Rightarrow> (dir, Unavailable DeadlineExceeded)
      | ElapsesDuringIndex \<Rightarrow>
          (if routing_peers handle = 0 then dir else fst asked, Unavailable DeadlineExceeded)
      | ElapsesDuringValues \<Rightarrow>
          (if routing_peers handle = 0 then dir
           else case asked of
             (dir, Ok fan_out) \<Rightarrow> fst (ask_values handle dir key (fo_providers fan_out))
           | (dir, Err fail) \<Rightarrow> dir,
           Unavailable DeadlineExceeded))"



section \<open>The loop\<close>

text \<open>What one fetched value may contribute: a record that decodes under the key at this time, was signed by
  its provider, and came from the peer that the provider key derives to.\<close>

definition contributes ::
  "ed25519 \<Rightarrow> (node_id \<Rightarrow> 'p option) \<Rightarrow> content_key \<Rightarrow> u64 \<Rightarrow> ('p \<times> (query_fail, bytes option) result) list \<Rightarrow>
    provider_record \<Rightarrow> bool" where
  "contributes C pid key now results r \<longleftrightarrow> (\<exists>peer bytes. (peer, Ok (Some bytes)) \<in> set results \<and>
     decode_provider_assertion C bytes key now = Ok (Provide r) \<and> pid (pr_provider r) = Some peer)"

lemma contributes_Cons: "contributes C pid key now results r \<Longrightarrow> contributes C pid key now (x # results) r"
  by (auto simp: contributes_def)

lemma resolve_loop_spec:
  assumes "resolve_loop C pid wr key now store records failed results = (store', records', failed')"
    and "floor_ok store"
  shows "floor_ok store' \<and> fs_cap store' = fs_cap store \<and>
    (\<exists>new. records' = records @ new \<and> (\<forall>r \<in> set new. contributes C pid key now results r)) \<and>
    (failed' \<longleftrightarrow> failed \<or> (\<exists>peer fail. (peer, Err fail) \<in> set results))"
  using assms
proof (induction results arbitrary: store records failed)
  case (Cons x results)
  obtain peer outcome where x: "x = (peer, outcome)" by (cases x)
  show ?case
  proof (cases outcome)
    case (Inl fail)
    then have "resolve_loop C pid wr key now store records True results = (store', records', failed')"
      using Cons.prems(1) by (simp add: x)
    note ih = Cons.IH [OF this Cons.prems(2)]
    then show ?thesis using Inl x contributes_Cons by fastforce
  next
    case (Inr fetched)
    have skip: ?thesis
      if run: "resolve_loop C pid wr key now store records failed results = (store', records', failed')"
      using Cons.IH [OF run Cons.prems(2)] Inr x contributes_Cons by fastforce
    show ?thesis
    proof (cases fetched)
      case None
      then show ?thesis using skip Cons.prems(1) Inr by (simp add: x)
    next
      case (Some bytes)
      show ?thesis
      proof (cases "decode_provider_assertion C bytes key now")
        case (Inl why)
        then show ?thesis using skip Cons.prems(1) Inr Some by (simp add: x)
      next
        case dec: (Inr a)
        obtain st rec where ad: "floor_admit pid wr store peer a now = (st, rec)" by fastforce
        have run: "resolve_loop C pid wr key now st (case rec of Some r \<Rightarrow> records @ [r] | None \<Rightarrow> records) failed results =
            (store', records', failed')"
          using Cons.prems(1) Inr Some dec ad by (simp add: x)
        note f = floor_admit_ok [OF Cons.prems(2) ad]
        note ih = Cons.IH [OF run f(1)]
        have "contributes C pid key now (x # results) r" if "rec = Some r" for r
          using floor_admit_record(1,2) [OF Cons.prems(2), of pid wr peer a now st r] ad that dec Inr Some
          by (auto simp: contributes_def x)
        then show ?thesis
          using ih f Inr x contributes_Cons by (cases rec) fastforce+
      qed
    qed
  qed
qed (auto simp: contributes_def)


lemma resolve_cases:
  assumes "resolve C pid wr handle now dir key max_peers = (dir', l)"
  obtains
    (unrouted) "routing_peers handle = 0" "dir' = dir" "l = Unavailable InsufficientRouting"
  | (failed) fail where "routing_peers handle \<noteq> 0" "get_providers handle key max_peers = Err fail" "is_unavailable l"
  | (empty) fan where "routing_peers handle \<noteq> 0" "get_providers handle key max_peers = Ok fan" "fo_providers fan = []"
      "l = classify_empty_index (fo_reach fan) (fo_truncated fan)"
  | (fetched) fan store records cf where "routing_peers handle \<noteq> 0" "get_providers handle key max_peers = Ok fan"
      "fo_providers fan \<noteq> []"
      "resolve_loop C pid wr key now (dir_store dir) [] False
         (map (\<lambda>peer. (peer, get_record handle key peer)) (fo_providers fan)) = (store, records, cf)"
      "l = classify records cf (fo_truncated fan)" "dir_store dir' = store"
  using assms
  by (auto simp: resolve_def ask_index_def ask_values_def dir_record_all_def Let_def
      split: if_splits sum.splits query_fail.splits prod.splits)

lemma classify_Miss: "classify records cf tr = Miss \<longleftrightarrow> records = [] \<and> \<not> cf \<and> \<not> tr"
  by (simp add: classify_def)

lemma classify_Found: "classify records cf tr = Found rs \<longleftrightarrow> records \<noteq> [] \<and> rs = records"
  by (auto simp: classify_def)

lemma classify_empty_index_cases:
  "classify_empty_index reach tr = Miss \<longleftrightarrow> \<not> tr \<and> answered reach > 0"
  "classify_empty_index reach tr \<noteq> Found x"
  by (auto simp: classify_empty_index_def absence_from_reach_def reached_neighborhood_def)

lemma dir_find_decided:
  "dir_find_providers C pid wr handle now w dir key max_peers = (dir', l) \<Longrightarrow> \<not> is_unavailable l \<Longrightarrow>
   resolve C pid wr handle now dir key max_peers = (dir', l)"
  by (auto simp: dir_find_providers_def Let_def split: wait.splits)

lemma resolve_loop_failed_iff:
  assumes "resolve_loop C pid wr key now st [] False (map (\<lambda>peer. (peer, get_record handle key peer)) ps) = (st', records, cf)"
    and "floor_ok st"
  shows "cf \<longleftrightarrow> (\<exists>peer \<in> set ps. \<exists>fail. get_record handle key peer = Err fail)"
    and "\<forall>r \<in> set records. \<exists>peer bytes. peer \<in> set ps \<and> get_record handle key peer = Ok (Some bytes) \<and>
      decode_provider_assertion C bytes key now = Ok (Provide r) \<and> pid (pr_provider r) = Some peer"
proof -
  let ?results = "map (\<lambda>peer. (peer, get_record handle key peer)) ps"
  have mem: "(peer, out) \<in> set ?results \<longleftrightarrow> peer \<in> set ps \<and> get_record handle key peer = out" for peer out
    by auto
  note spec = resolve_loop_spec [OF assms]
  show "cf \<longleftrightarrow> (\<exists>peer \<in> set ps. \<exists>fail. get_record handle key peer = Err fail)"
    using spec unfolding mem by blast
  have "\<forall>r \<in> set records. contributes C pid key now ?results r" using spec by auto
  then show "\<forall>r \<in> set records. \<exists>peer bytes. peer \<in> set ps \<and> get_record handle key peer = Ok (Some bytes) \<and>
      decode_provider_assertion C bytes key now = Ok (Provide r) \<and> pid (pr_provider r) = Some peer"
    unfolding contributes_def mem by blast
qed


section \<open>Properties\<close>

text \<open>C8: A directory answers that nobody provides a key only after a healthy and complete consultation: the
  node is on the network, the index walk completed and dropped no provider, and either it reached a peer
  near the key and named nobody, or the value of every named provider could be consulted.\<close>

theorem miss_is_authoritative:
  assumes "floor_ok (dir_store dir)"
    and "dir_find_providers C pid wr handle now w dir key max_peers = (dir', Miss)"
  shows "routing_peers handle > 0 \<and> (\<exists>fan. get_providers handle key max_peers = Ok fan \<and> \<not> fo_truncated fan \<and>
    (if fo_providers fan = [] then answered (fo_reach fan) > 0
     else \<forall>peer \<in> set (fo_providers fan). \<exists>v. get_record handle key peer = Ok v))"
proof -
  have "resolve C pid wr handle now dir key max_peers = (dir', Miss)"
    using assms(2) by (rule dir_find_decided) simp
  then show ?thesis
  proof (cases rule: resolve_cases)
    case (fetched fan store records cf)
    then have "\<not> cf" "\<not> fo_truncated fan" using classify_Miss by metis+
    moreover have "\<forall>peer \<in> set (fo_providers fan). \<exists>v. get_record handle key peer = Ok v"
      using resolve_loop_failed_iff(1) [OF fetched(4) assms(1)] \<open>\<not> cf\<close> by (metis obj_sumE)
    ultimately show ?thesis using fetched by auto
  qed (auto simp: classify_empty_index_cases dest!: sym [of Miss])
qed

definition demo_bytes :: bytes where
  "demo_bytes = assertion_body (Provide demo_record) @ assertion_signature (Provide demo_record)"

definition demo_kad :: "bytes option \<Rightarrow> node_id kad" where
  "demo_kad v = \<lparr> routing_peers = 3,
     get_providers = (\<lambda>key max_peers. Ok \<lparr> fo_providers = [demo_node], fo_truncated = False, fo_reach = \<lparr> answered = 2 \<rparr> \<rparr>),
     get_record = (\<lambda>key peer. Ok v) \<rparr>"

definition demo_directory :: directory where
  "demo_directory = \<lparr> dir_ledger = ledger_new, dir_store = with_cap 1, dir_trace = [] \<rparr>"

lemma demo_bytes_decode: "decode_provider_assertion demo_ed25519 demo_bytes demo_key 2 = Ok (Provide demo_record)"
  using decode_complete [OF demo_authentic(1) _ demo_authentic(3), of demo_bytes 2] demo_authentic(2)
  by (simp add: encode_Ok_iff [OF demo_authentic(1)] demo_bytes_def del: wf_assertion.simps encode_provider_assertion.simps)

lemma demo_find_absent:
  "\<exists>dir'. dir_find_providers demo_ed25519 (\<lambda>n. Some n) (\<lambda>_. True) (demo_kad None) 2 Completes demo_directory demo_key 4 = (dir', Miss)"
  by (simp add: dir_find_providers_def resolve_def ask_index_def ask_values_def Let_def demo_kad_def classify_def)

lemma demo_find_found:
  "\<exists>dir'. dir_find_providers demo_ed25519 (\<lambda>n. Some n) (\<lambda>_. True) (demo_kad (Some demo_bytes)) 2 Completes
     demo_directory demo_key 4 = (dir', Found [demo_record])"
  by (simp add: dir_find_providers_def resolve_def ask_index_def ask_values_def dir_record_all_def Let_def demo_kad_def
      classify_def demo_bytes_decode demo_directory_def demo_admit [simplified])

lemma demo_directory_ok: "floor_ok (dir_store demo_directory)"
  by (simp add: demo_directory_def floor_ok_with_cap)

theorem miss_is_authoritative_witness:
  "\<exists>v. get_record (demo_kad None) demo_key demo_node = Ok v"
proof -
  obtain dir' where "dir_find_providers demo_ed25519 (\<lambda>n. Some n) (\<lambda>_. True) (demo_kad None) 2 Completes
      demo_directory demo_key 4 = (dir', Miss)"
    using demo_find_absent by blast
  from miss_is_authoritative [OF demo_directory_ok this] show ?thesis by (auto simp: demo_kad_def)
qed

text \<open>C11: Every record a directory returns was fetched from a provider the index named, is a canonical
  assertion for the requested key that its provider signed, has not expired, and was served under the
  peer id of that provider.\<close>

theorem found_is_genuine:
  assumes "floor_ok (dir_store dir)"
    and "dir_find_providers C pid wr handle now w dir key max_peers = (dir', Found rs)"
  shows "rs \<noteq> [] \<and> (\<forall>r \<in> set rs. genuine C (Provide r) \<and> pr_key r = key \<and> now < pr_expiry r \<and>
    (\<exists>fan peer bytes. get_providers handle key max_peers = Ok fan \<and> peer \<in> set (fo_providers fan) \<and>
       get_record handle key peer = Ok (Some bytes) \<and> pid (pr_provider r) = Some peer \<and>
       encode_provider_record r = Ok bytes))"
proof -
  have "resolve C pid wr handle now dir key max_peers = (dir', Found rs)"
    using assms(2) by (rule dir_find_decided) simp
  then show ?thesis
  proof (cases rule: resolve_cases)
    case (fetched fan store records cf)
    have rs: "rs = records" "records \<noteq> []" using fetched(5) classify_Found by metis+
    have "genuine C (Provide r) \<and> pr_key r = key \<and> now < pr_expiry r \<and> encode_provider_record r = Ok bytes"
      if "decode_provider_assertion C bytes key now = Ok (Provide r)" for r bytes
      using decode_genuine [OF that] that by (auto simp: decode_iff)
    then show ?thesis
      using resolve_loop_failed_iff(2) [OF fetched(4) assms(1)] fetched(2) rs by metis
  next
    case (empty fan)
    then show ?thesis using classify_empty_index_cases(2) by metis
  qed auto
qed

theorem found_is_genuine_witness: "genuine demo_ed25519 (Provide demo_record)"
proof -
  obtain dir' where "dir_find_providers demo_ed25519 (\<lambda>n. Some n) (\<lambda>_. True) (demo_kad (Some demo_bytes)) 2 Completes
      demo_directory demo_key 4 = (dir', Found [demo_record])"
    using demo_find_found by blast
  from found_is_genuine [OF demo_directory_ok this] show ?thesis by simp
qed

text \<open>What a trace recorded, and what a lookup adds to it.\<close>

definition recorded :: "dir_effect list \<Rightarrow> exposure list" where
  "recorded tr = concat (map (\<lambda>x. case x of Recorded es \<Rightarrow> es | Asked q \<Rightarrow> []) tr)"

abbreviation "lookup_exposures \<equiv> [exposure_new DhtNode DisclosedContentKey, exposure_new DhtNode OurNodeId]"

definition adds :: "directory \<Rightarrow> dir_effect list \<Rightarrow> directory \<Rightarrow> bool" where
  "adds dir tr dir' \<longleftrightarrow> dir_trace dir' = dir_trace dir @ tr \<and>
     el_entries (dir_ledger dir') = el_entries (dir_ledger dir) @ recorded tr"


lemma adds_store [simp]: "adds dir tr (dir'\<lparr> dir_store := st \<rparr>) = adds dir tr dir'"
  by (simp add: adds_def)




end
