(* ===== verification/Budget.thy ===== *)
theory Budget
  imports Prelude
begin

text \<open>
  The budgets of \<^verbatim>\<open>peer-fabric/src/budget.rs\<close> and the tumbling-window arithmetic of
  \<^verbatim>\<open>daemon-core/src/window.rs\<close>. A \<^verbatim>\<open>Duration\<close> is its number of nanoseconds.
\<close>

type_synonym duration = nat

definition from_secs :: "nat \<Rightarrow> duration" where "from_secs s = s * 10 ^ 9"

definition from_millis :: "u64 \<Rightarrow> duration" where "from_millis ms = unat ms * 10 ^ 6"

definition as_millis :: "duration \<Rightarrow> nat" where "as_millis d = d div 10 ^ 6"

record discovery_budget =
  db_deadline :: duration
  db_max_peers :: u32

definition discovery_budget_default :: discovery_budget where
  "discovery_budget_default = \<lparr> db_deadline = from_secs 5, db_max_peers = 16 \<rparr>"

record announce_budget =
  ab_deadline :: duration
  ab_max_replicas :: u32

definition ANNOUNCE_REPLICAS_UNENFORCED :: u32 where "ANNOUNCE_REPLICAS_UNENFORCED = - 1"

definition announce_budget_default :: announce_budget where
  "announce_budget_default = \<lparr> ab_deadline = from_secs 10, ab_max_replicas = ANNOUNCE_REPLICAS_UNENFORCED \<rparr>"

record safety_envelope =
  dial_timeout :: duration
  body_idle_timeout :: duration
  total_timeout :: duration

definition safety_envelope_default :: safety_envelope where
  "safety_envelope_default =
     \<lparr> dial_timeout = from_secs 10, body_idle_timeout = from_secs 10, total_timeout = from_secs 60 \<rparr>"

record serve_budget =
  max_nar_bytes_uncompressed_nar :: u64
  max_inflight_bytes_uncompressed_nar :: u64
  max_serve_duration :: duration

definition serve_budget_default :: serve_budget where
  "serve_budget_default =
     \<lparr> max_nar_bytes_uncompressed_nar = 256 * 1024 * 1024,
       max_inflight_bytes_uncompressed_nar = 1024 * 1024 * 1024, max_serve_duration = from_secs 120 \<rparr>"

record derive_budget =
  max_bytes_per_peer_uncompressed_nar :: u64
  max_dumps_per_peer :: u32
  max_bytes_global_uncompressed_nar :: u64
  max_dumps_global :: u32
  derive_window :: duration

definition derive_budget_default :: derive_budget where
  "derive_budget_default =
     \<lparr> max_bytes_per_peer_uncompressed_nar = 1024 * 1024 * 1024, max_dumps_per_peer = 64,
       max_bytes_global_uncompressed_nar = 4 * 1024 * 1024 * 1024, max_dumps_global = 256,
       derive_window = from_secs 60 \<rparr>"

record upload_budget =
  max_bytes_per_window :: u64
  upload_window :: duration

definition upload_budget_default :: upload_budget where
  "upload_budget_default = \<lparr> max_bytes_per_window = 128 * 1024 * 1024, upload_window = from_secs 1 \<rparr>"

definition MIN_WINDOW_MS :: u64 where "MIN_WINDOW_MS = 1000"

definition saturating_millis :: "duration \<Rightarrow> u64" where
  "saturating_millis d = of_nat (min (as_millis d) (2 ^ 64 - 1))"

definition clamp_window :: "duration \<Rightarrow> duration" where
  "clamp_window d = (let ms = saturating_millis d in from_millis (max ms MIN_WINDOW_MS))"

definition window_expired :: "u64 \<Rightarrow> u64 \<Rightarrow> u64 \<Rightarrow> bool" where
  "window_expired start_millis now window_millis \<longleftrightarrow> saturating_sub now start_millis \<ge> window_millis"

lemma window_expired_iff:
  "window_expired s now w \<longleftrightarrow> unat w \<le> unat now - unat s"
  by (simp add: window_expired_def word_le_nat_alt unat_saturating_sub)

lemma unat_saturating_millis: "unat (saturating_millis d) = min (as_millis d) (2 ^ 64 - 1)"
  unfolding saturating_millis_def by (subst unat_of_nat) (simp add: min_def)

text \<open>A clamped window is at least a second and survives the conversion to milliseconds.\<close>

lemma clamp_window_millis:
  "unat (saturating_millis (clamp_window d)) = max (min (as_millis d) (2 ^ 64 - 1)) 1000"
proof -
  let ?ms = "max (saturating_millis d) MIN_WINDOW_MS"
  have "as_millis (clamp_window d) = unat ?ms"
    by (simp add: clamp_window_def Let_def as_millis_def from_millis_def)
  moreover have "unat ?ms = max (min (as_millis d) (2 ^ 64 - 1)) 1000"
    unfolding max_def by (auto simp: word_le_nat_alt unat_saturating_millis MIN_WINDOW_MS_def)
  moreover have "unat ?ms < 2 ^ 64" using unat_bound [of ?ms] by simp
  ultimately show ?thesis by (simp add: unat_saturating_millis)
qed

end
