(* ===== verification/Tumbling.thy ===== *)
theory Tumbling
  imports Budget
begin

text \<open>
  The contract of a tumbling-window counter and what it guarantees over any interval.

  A counter is a view \<open>Some (start, used)\<close> of a larger state. An event carries a clock reading. A counted
  event opens a window at its reading when there is none or the old one is at least \<open>W\<close> older than the
  reading, and otherwise adds to it; after a counted event the window holds at most \<open>cap\<close>. An event that is
  not counted may only drop a window that has expired by its reading, or open an empty one in its place.

  The readings need not come in order: an event takes effect at a time of its own, at most \<open>lag\<close> after its
  reading. The starts of the windows are then at least \<open>W - lag\<close> apart, a window is charged for less than
  \<open>W + lag\<close> after its start, and an interval of length \<open>W\<close> meets at most \<open>n\<close> windows when
  \<open>2 * W + lag \<le> n * (W - lag)\<close>. With no lag these are the two windows on either side of a boundary.
\<close>

text \<open>An entry of the log: the time of the event, the amount, and the start of the window it was charged to.\<close>

type_synonym log_entry = "nat \<times> nat \<times> nat"

definition charged :: "nat \<Rightarrow> nat \<Rightarrow> log_entry list \<Rightarrow> nat" where
  "charged a b l = sum_list (map (\<lambda>(t, x, st). if a \<le> t \<and> t < b then x else 0) l)"

definition window_sum :: "nat \<Rightarrow> log_entry list \<Rightarrow> nat" where
  "window_sum st l = sum_list (map (\<lambda>(t, x, st'). if st' = st then x else 0) l)"

definition starts :: "nat \<Rightarrow> nat \<Rightarrow> log_entry list \<Rightarrow> nat set" where
  "starts a b l = {st. \<exists>t x. (t, x, st) \<in> set l \<and> a \<le> t \<and> t < b}"

lemma charged_Nil [simp]: "charged a b [] = 0"
  by (simp add: charged_def)

lemma window_sum_snoc [simp]:
  "window_sum st (l @ [(t, x, st')]) = window_sum st l + (if st' = st then x else 0)"
  by (simp add: window_sum_def)

lemma window_sum_Nil [simp]: "window_sum st [] = 0"
  by (simp add: window_sum_def)

lemma window_sum_none: "\<forall>(t, x, st') \<in> set l. st' \<noteq> st \<Longrightarrow> window_sum st l = 0"
  by (induction l) (auto simp: window_sum_def)

lemma finite_starts: "finite (starts a b l)"
  by (rule finite_subset [of _ "(\<lambda>(t, x, st). st) ` set l"]) (force simp: starts_def)+

lemma charged_by_windows: "finite S \<Longrightarrow> starts a b l \<subseteq> S \<Longrightarrow> charged a b l \<le> (\<Sum>st\<in>S. window_sum st l)"
proof (induction l rule: rev_induct)
  case (snoc y l)
  obtain t x st where y: "y = (t, x, st)" by (cases y)
  have "starts a b l \<subseteq> S" using snoc.prems by (auto simp: starts_def)
  then have ih: "charged a b l \<le> (\<Sum>st\<in>S. window_sum st l)" using snoc by blast
  have "(\<Sum>z\<in>S. window_sum z (l @ [y])) = (\<Sum>z\<in>S. window_sum z l) + (if st \<in> S then x else 0)"
    using snoc.prems by (simp add: y sum.distrib)
  moreover have "a \<le> t \<and> t < b \<Longrightarrow> st \<in> S" using snoc.prems by (auto simp: y starts_def)
  ultimately show ?case using ih by (auto simp: y charged_def)
qed simp

text \<open>Points at least \<open>d\<close> apart in a range shorter than \<open>n * d\<close> are at most \<open>n\<close>.\<close>

lemma spaced_card:
  assumes "finite (S :: nat set)" and apart: "\<And>x y. x \<in> S \<Longrightarrow> y \<in> S \<Longrightarrow> x < y \<Longrightarrow> x + d \<le> y"
    and range: "\<And>x. x \<in> S \<Longrightarrow> a < x + c \<and> x + c \<le> a + n * d" and d: "0 < d"
  shows "card S \<le> n"
proof -
  define p where "p x = x + c - a - 1" for x
  define q where "q x = p x div d" for x
  have less: "q x < q y" if "x \<in> S" "y \<in> S" "x < y" for x y
  proof -
    have "p x + d \<le> p y"
      using apart [OF that] range [OF that(1)] unfolding p_def by linarith
    then have "(p x + d) div d \<le> p y div d" by (rule div_le_mono)
    moreover have "(p x + d) div d = Suc (p x div d)" using d by (simp add: div_add_self2)
    ultimately show ?thesis by (simp add: q_def)
  qed
  have "inj_on q S"
  proof (rule inj_onI)
    fix x y assume h: "x \<in> S" "y \<in> S" "q x = q y"
    then show "x = y" using less [of x y] less [of y x] by (cases x y rule: linorder_cases) auto
  qed
  moreover have "q ` S \<subseteq> {..<n}"
  proof
    fix z assume "z \<in> q ` S"
    then obtain x where x: "x \<in> S" "z = q x" by blast
    have "p x < n * d" using range [OF x(1)] unfolding p_def by linarith
    then show "z \<in> {..<n}" using x(2) d by (simp add: q_def div_less_iff_less_mult)
  qed
  ultimately show ?thesis using card_inj_on_le [of q S "{..<n}"] by simp
qed

locale tumbling_counter =
  fixes ok :: "'s \<Rightarrow> bool"
    and step :: "'s \<Rightarrow> 'e \<Rightarrow> 's"
    and view :: "'s \<Rightarrow> (nat \<times> nat) option"
    and counts :: "'s \<Rightarrow> 'e \<Rightarrow> bool"
    and time :: "'e \<Rightarrow> nat"
    and amount :: "'e \<Rightarrow> nat"
    and W :: nat
    and cap :: nat
  assumes ok_step: "ok s \<Longrightarrow> ok (step s e)"
    and counted_step: "ok s \<Longrightarrow> counts s e \<Longrightarrow>
      view (step s e) =
        (case view s of
           None \<Rightarrow> Some (time e, amount e)
         | Some (st, u) \<Rightarrow> if W \<le> time e - st then Some (time e, amount e) else Some (st, u + amount e))"
    and counted_cap: "ok s \<Longrightarrow> counts s e \<Longrightarrow> view (step s e) = Some (st, u) \<Longrightarrow> u \<le> cap"
    and uncounted_step: "ok s \<Longrightarrow> \<not> counts s e \<Longrightarrow>
      view (step s e) = view s \<or>
      (view (step s e) \<in> {None, Some (time e, 0)} \<and>
       (case view s of None \<Rightarrow> True | Some (st, u) \<Rightarrow> W \<le> time e - st))"
    and window_pos: "0 < W"
begin

text \<open>A run over events, each with the time it takes effect.\<close>

definition run_log :: "'s \<Rightarrow> (nat \<times> 'e) list \<Rightarrow> 's \<times> log_entry list" where
  "run_log s es = foldl (\<lambda>(s, l) (t, e). (step s e,
     if counts s e then l @ [(t, amount e, case view (step s e) of Some (st, u) \<Rightarrow> st | None \<Rightarrow> 0)] else l)) (s, []) es"

lemma run_log_snoc:
  "run_log s (es @ [(t, e)]) =
    (let (s', l) = run_log s es in (step s' e,
       if counts s' e then l @ [(t, amount e, case view (step s' e) of Some (st, u) \<Rightarrow> st | None \<Rightarrow> 0)] else l))"
  by (simp add: run_log_def case_prod_unfold Let_def)

text \<open>The invariant after events up to time \<open>T\<close> with counted log \<open>l\<close>: no window was charged beyond the cap or
  later than \<open>W + lag\<close> after its start, the starts are apart, the current window holds what was charged to it
  and started after every other, and with no current window every charged one has expired.\<close>

definition counted_inv :: "nat \<Rightarrow> nat \<Rightarrow> 's \<Rightarrow> log_entry list \<Rightarrow> bool" where
  "counted_inv lag T s l \<longleftrightarrow> ok s \<and> (\<forall>st. window_sum st l \<le> cap) \<and>
    (\<forall>t x st. (t, x, st) \<in> set l \<longrightarrow> st \<le> t \<and> t < st + W + lag) \<and>
    (\<forall>t x st t' x' st'. (t, x, st) \<in> set l \<longrightarrow> (t', x', st') \<in> set l \<longrightarrow> st < st' \<longrightarrow> st + (W - lag) \<le> st') \<and>
    (case view s of
       Some (st, u) \<Rightarrow> st \<le> T \<and> window_sum st l = u \<and>
         (\<forall>t' x' st'. (t', x', st') \<in> set l \<longrightarrow> st' = st \<or> st' + (W - lag) \<le> st)
     | None \<Rightarrow> \<forall>t' x' st'. (t', x', st') \<in> set l \<longrightarrow> st' + W \<le> T)"

lemma counted_invD:
  assumes "counted_inv lag T s l"
  shows "ok s" "window_sum st l \<le> cap" "(t, x, st) \<in> set l \<Longrightarrow> st \<le> t \<and> t < st + W + lag"
    "(t, x, st) \<in> set l \<Longrightarrow> (t', x', st') \<in> set l \<Longrightarrow> st < st' \<Longrightarrow> st + (W - lag) \<le> st'"
    "view s = Some (st, u) \<Longrightarrow> st \<le> T \<and> window_sum st l = u"
    "view s = Some (st, u) \<Longrightarrow> (t', x', st') \<in> set l \<Longrightarrow> st' = st \<or> st' + (W - lag) \<le> st"
    "view s = None \<Longrightarrow> (t', x', st') \<in> set l \<Longrightarrow> st' + W \<le> T"
proof -
  show "ok s" "window_sum st l \<le> cap" using assms by (simp_all add: counted_inv_def)
  show "(t, x, st) \<in> set l \<Longrightarrow> st \<le> t \<and> t < st + W + lag"
    "(t, x, st) \<in> set l \<Longrightarrow> (t', x', st') \<in> set l \<Longrightarrow> st < st' \<Longrightarrow> st + (W - lag) \<le> st'"
    using assms unfolding counted_inv_def by blast+
  show "view s = Some (st, u) \<Longrightarrow> st \<le> T \<and> window_sum st l = u" using assms by (simp add: counted_inv_def)
  show "view s = Some (st, u) \<Longrightarrow> (t', x', st') \<in> set l \<Longrightarrow> st' = st \<or> st' + (W - lag) \<le> st"
    using assms unfolding counted_inv_def by auto
  show "view s = None \<Longrightarrow> (t', x', st') \<in> set l \<Longrightarrow> st' + W \<le> T"
    using assms unfolding counted_inv_def by auto
qed

lemma counted_inv_later:
  assumes "counted_inv lag T s l" "T \<le> T'"
  shows "counted_inv lag T' s l"
proof (cases "view s")
  case None
  then show ?thesis using assms order_trans [OF _ assms(2)] unfolding counted_inv_def by auto
next
  case (Some w)
  then show ?thesis using assms order_trans [OF _ assms(2)] unfolding counted_inv_def by (cases w) simp
qed

text \<open>A window opened at a reading that is at most \<open>lag\<close> old starts apart from every charged one.\<close>

lemma opens_apart:
  assumes inv: "counted_inv lag T s l" and t: "time e \<le> T" "T \<le> time e + lag" and lag: "lag < W"
    and roll: "case view s of None \<Rightarrow> True | Some (st, u) \<Rightarrow> W \<le> time e - st"
    and mem: "(t', x', st') \<in> set l"
  shows "st' + (W - lag) \<le> time e"
proof (cases "view s")
  case None
  then have "st' + W \<le> T" using counted_invD(7) [OF inv _ mem] by blast
  then show ?thesis using t lag by linarith
next
  case (Some w)
  then obtain st u where v: "view s = Some (st, u)" by (cases w) auto
  then have "st' = st \<or> st' + (W - lag) \<le> st" using counted_invD(6) [OF inv _ mem] by blast
  moreover have "W \<le> time e - st" using roll v by simp
  ultimately show ?thesis using lag by linarith
qed

text \<open>A charge to the window that starts at \<open>st\<close>, after every charged window or among those of the current one.\<close>

lemma charge_inv:
  assumes inv: "counted_inv lag T s l" and ok: "ok s'" and view: "view s' = Some (st, u + x)"
    and u: "window_sum st l = u" "u + x \<le> cap" and st: "st \<le> T" "T < st + W + lag"
    and old: "\<And>t' x' st'. (t', x', st') \<in> set l \<Longrightarrow> st' = st \<or> st' + (W - lag) \<le> st"
  shows "counted_inv lag T s' (l @ [(T, x, st)])"
  unfolding counted_inv_def
proof (intro conjI allI impI)
  let ?l = "l @ [(T, x, st)]"
  show "ok s'" by (rule ok)
  show "window_sum z ?l \<le> cap" for z using counted_invD(2) [OF inv, of z] u by auto
  show "st1 \<le> t1" "t1 < st1 + W + lag" if "(t1, x1, st1) \<in> set ?l" for t1 x1 st1
    using that st counted_invD(3) [OF inv, of t1 x1 st1] by auto
  show "st1 + (W - lag) \<le> st2" if m: "(t1, x1, st1) \<in> set ?l" "(t2, x2, st2) \<in> set ?l" "st1 < st2" for t1 x1 st1 t2 x2 st2
  proof -
    consider "(t1, x1, st1) \<in> set l" "(t2, x2, st2) \<in> set l" | "st1 = st" "(t2, x2, st2) \<in> set l"
      | "(t1, x1, st1) \<in> set l" "st2 = st" | "st1 = st" "st2 = st"
      using m by auto
    then show ?thesis
    proof cases
      case 1
      then show ?thesis using counted_invD(4) [OF inv] m(3) by blast
    next
      case 2
      then show ?thesis using old [of t2 x2 st2] m(3) by linarith
    next
      case 3
      then show ?thesis using old [of t1 x1 st1] m(3) by linarith
    qed (use m(3) in simp)
  qed
  have "st1 = st \<or> st1 + (W - lag) \<le> st" if "(t1, x1, st1) \<in> set ?l" for t1 x1 st1 using that old by auto
  then show "case view s' of
       Some (st, u) \<Rightarrow> st \<le> T \<and> window_sum st ?l = u \<and>
         (\<forall>t' x' st'. (t', x', st') \<in> set ?l \<longrightarrow> st' = st \<or> st' + (W - lag) \<le> st)
     | None \<Rightarrow> \<forall>t' x' st'. (t', x', st') \<in> set ?l \<longrightarrow> st' + W \<le> T"
    using view u st by (auto simp del: set_append)
qed

lemma open_counted:
  assumes inv: "counted_inv lag T s l" and t: "time e \<le> T" "T \<le> time e + lag" and lag: "lag < W"
    and roll: "case view s of None \<Rightarrow> True | Some (st, u) \<Rightarrow> W \<le> time e - st" and ok: "ok s'"
  shows "view s' = Some (time e, x) \<Longrightarrow> x \<le> cap \<Longrightarrow> counted_inv lag T s' (l @ [(T, x, time e)])"
    "view s' = Some (time e, 0) \<Longrightarrow> counted_inv lag T s' l"
proof -
  note apart = opens_apart [OF inv t lag roll]
  have fresh: "window_sum (time e) l = 0"
    by (rule window_sum_none) (use apart lag in fastforce)
  show "counted_inv lag T s' (l @ [(T, x, time e)])" if "view s' = Some (time e, x)" "x \<le> cap"
    by (rule charge_inv [OF inv ok _ fresh]) (use that t lag apart in auto)
  show "counted_inv lag T s' l" if "view s' = Some (time e, 0)"
    using that inv ok fresh t(1) apart unfolding counted_inv_def by auto
qed

lemma counted_inv_step:
  assumes inv: "counted_inv lag T s l" and t: "time e \<le> T" "T \<le> time e + lag" and lag: "lag < W"
  shows "counted_inv lag T (step s e)
    (if counts s e then l @ [(T, amount e, case view (step s e) of Some (st, u) \<Rightarrow> st | None \<Rightarrow> 0)] else l)"
proof -
  have ok: "ok s" "ok (step s e)" using inv ok_step by (auto simp: counted_inv_def)
  show ?thesis
  proof (cases "counts s e")
    case True
    note new = counted_step [OF ok(1) True] and capped = counted_cap [OF ok(1) True]
    show ?thesis
    proof (cases "\<exists>st u. view s = Some (st, u) \<and> \<not> W \<le> time e - st")
      case stay: True
      then obtain st u where v: "view s = Some (st, u)" "\<not> W \<le> time e - st" by blast
      then have v': "view (step s e) = Some (st, u + amount e)" using new by simp
      have "counted_inv lag T (step s e) (l @ [(T, amount e, st)])"
      proof (rule charge_inv [OF inv ok(2) v'])
        show "window_sum st l = u" "st \<le> T" using counted_invD(5) [OF inv v(1)] by blast+
        show "u + amount e \<le> cap" by (rule capped [OF v'])
        show "T < st + W + lag" using v(2) t by linarith
      qed (rule counted_invD(6) [OF inv v(1)])
      then show ?thesis using True v' by simp
    next
      case False
      then have roll: "case view s of None \<Rightarrow> True | Some (st, u) \<Rightarrow> W \<le> time e - st"
        by (auto split: option.splits)
      then have v': "view (step s e) = Some (time e, amount e)" using new by (auto split: option.splits)
      show ?thesis using open_counted(1) [OF inv t lag roll ok(2) v' capped [OF v']] True v' by simp
    qed
  next
    case False
    consider (same) "view (step s e) = view s"
      | (dropped) "view (step s e) = None" "view s \<noteq> None"
          "case view s of None \<Rightarrow> True | Some (st, u) \<Rightarrow> W \<le> time e - st"
      | (opened) "view (step s e) = Some (time e, 0)"
          "case view s of None \<Rightarrow> True | Some (st, u) \<Rightarrow> W \<le> time e - st"
      using uncounted_step [OF ok(1) False] by (cases "view s") auto
    then have "counted_inv lag T (step s e) l"
    proof cases
      case same
      then show ?thesis using inv ok by (simp add: counted_inv_def)
    next
      case dropped
      then obtain st u where v: "view s = Some (st, u)" "W \<le> time e - st" by (auto split: option.splits)
      have "st' + W \<le> T" if "(t', x', st') \<in> set l" for t' x' st'
      proof -
        have "st' = st \<or> st' + (W - lag) \<le> st" by (rule counted_invD(6) [OF inv v(1) that])
        then show ?thesis using v(2) t lag window_pos by linarith
      qed
      then show ?thesis using inv ok dropped(1) unfolding counted_inv_def by simp
    next
      case opened
      show ?thesis using open_counted(2) [OF inv t lag opened(2) ok(2) opened(1)] by blast
    qed
    then show ?thesis using False by simp
  qed
qed

lemma run_inv:
  assumes "ok s" "view s = None" "sorted (map fst es)" "lag < W"
    "\<forall>(t, e) \<in> set es. time e \<le> t \<and> t \<le> time e + lag"
  shows "\<exists>T. (\<forall>(t, e) \<in> set es. t \<le> T) \<and> (es \<noteq> [] \<longrightarrow> T = fst (last es)) \<and>
    counted_inv lag T (fst (run_log s es)) (snd (run_log s es))"
  using assms(3,5)
proof (induction es rule: rev_induct)
  case Nil
  then show ?case using assms by (auto simp: run_log_def counted_inv_def)
next
  case (snoc y es)
  obtain t e where y: "y = (t, e)" by (cases y)
  obtain T where T: "\<forall>(t, e) \<in> set es. t \<le> T" "es \<noteq> [] \<longrightarrow> T = fst (last es)"
    and inv: "counted_inv lag T (fst (run_log s es)) (snd (run_log s es))"
    using snoc by (auto simp: sorted_append)
  have "counted_inv lag t (fst (run_log s es)) (snd (run_log s es))"
  proof (cases "es = []")
    case True
    then show ?thesis using assms by (simp add: run_log_def counted_inv_def)
  next
    case False
    then have "T \<le> t" using T(2) snoc.prems(1) by (auto simp: sorted_append y)
    then show ?thesis using inv counted_inv_later by blast
  qed
  from counted_inv_step [OF this _ _ assms(4), of e]
  have "counted_inv lag t (fst (run_log s (es @ [y]))) (snd (run_log s (es @ [y])))"
    using snoc.prems(2) by (simp add: y run_log_snoc Let_def case_prod_unfold)
  moreover have "\<forall>(t', e') \<in> set (es @ [y]). t' \<le> t"
    using snoc.prems(1) by (auto simp: sorted_append y)
  ultimately show ?case by (intro exI [of _ t]) (simp add: y)
qed

lemma any_interval_caps:
  assumes "ok s" "view s = None" "sorted (map fst es)"
    and near: "\<forall>(t, e) \<in> set es. time e \<le> t \<and> t \<le> time e + lag"
    and n: "2 * W + lag \<le> n * (W - lag)"
  shows "charged a (a + W) (snd (run_log s es)) \<le> n * cap"
proof -
  have lag: "lag < W"
  proof (rule ccontr)
    assume "\<not> lag < W"
    then have "2 * W + lag \<le> 0" using n by simp
    then show False using window_pos by simp
  qed
  let ?l = "snd (run_log s es)"
  let ?S = "starts a (a + W) ?l"
  obtain T where inv: "counted_inv lag T (fst (run_log s es)) ?l"
    using run_inv [OF assms(1,2,3) lag near] by blast
  have "card ?S \<le> n"
  proof (rule spaced_card [where c = "W + lag" and a = a and d = "W - lag"])
    show "finite ?S" by (rule finite_starts)
    show "0 < W - lag" using lag by simp
    show "x + (W - lag) \<le> y" if "x \<in> ?S" "y \<in> ?S" "x < y" for x y
      using that counted_invD(4) [OF inv] by (auto simp: starts_def)
    show "a < x + (W + lag) \<and> x + (W + lag) \<le> a + n * (W - lag)" if x: "x \<in> ?S" for x
    proof -
      obtain t y where m: "(t, y, x) \<in> set ?l" "a \<le> t" "t < a + W" using x by (auto simp: starts_def)
      then have "x \<le> t \<and> t < x + W + lag" using counted_invD(3) [OF inv] by blast
      then show ?thesis using m n by linarith
    qed
  qed
  moreover have "charged a (a + W) ?l \<le> (\<Sum>st\<in>?S. window_sum st ?l)"
    by (rule charged_by_windows) (simp_all add: finite_starts)
  moreover have "(\<Sum>st\<in>?S. window_sum st ?l) \<le> (\<Sum>st\<in>?S. cap)"
    using inv by (intro sum_mono) (simp add: counted_inv_def)
  moreover have "card ?S * cap \<le> n * cap" using \<open>card ?S \<le> n\<close> by simp
  ultimately show ?thesis unfolding sum_constant of_nat_id by linarith
qed

end

end
