(* ===== verification/Derive_Ledger.thy ===== *)
theory Derive_Ledger
  imports Tumbling Ids Hash_Map
begin

text \<open>
  The ledger that charges derivation work to peers, \<^verbatim>\<open>daemon-core/src/derive_ledger.rs\<close>: a
  tumbling window of bytes and dumps for the whole node and one per peer. The state is behind a mutex and
  the clock reading is an argument of each operation. A call reads the clock before it waits for the mutex,
  so the readings need not come in order; \<open>derive_reachable\<close> are the states of calls that wait and take the
  mutex in any order.
\<close>

section \<open>Definitions\<close>

record window =
  w_start_millis :: u64
  w_bytes :: u64
  w_dumps :: u32

definition opened_at :: "u64 \<Rightarrow> window" where
  "opened_at now = \<lparr> w_start_millis = now, w_bytes = 0, w_dumps = 0 \<rparr>"

definition roll_if_expired :: "window \<Rightarrow> u64 \<Rightarrow> u64 \<Rightarrow> window" where
  "roll_if_expired w now window_millis =
     (if window_expired (w_start_millis w) now window_millis then opened_at now else w)"

datatype derive_admission = Admitted | RefusedPerPeer | RefusedGlobal

fun is_admitted :: "derive_admission \<Rightarrow> bool" where
  "is_admitted Admitted = True"
| "is_admitted _ = False"

definition EVICT_SWEEP_THRESHOLD :: nat where "EVICT_SWEEP_THRESHOLD = 1024"

record ledger_state =
  ls_global :: "window option"
  ls_per_peer :: "(node_id, window) hash_map"

definition ledger_state_default :: ledger_state where
  "ledger_state_default = \<lparr> ls_global = None, ls_per_peer = [] \<rparr>"

definition evict_expired_peers :: "ledger_state \<Rightarrow> u64 \<Rightarrow> u64 \<Rightarrow> ledger_state" where
  "evict_expired_peers state now window_millis =
     (if length (ls_per_peer state) < EVICT_SWEEP_THRESHOLD then state
      else state\<lparr> ls_per_peer :=
        hm_retain (\<lambda>_ w. saturating_sub now (w_start_millis w) < window_millis) (ls_per_peer state) \<rparr>)"

record derive_ledger =
  dl_budget :: derive_budget
  dl_enforced :: bool
  dl_state :: ledger_state

definition derive_ledger_with_clock :: "derive_budget \<Rightarrow> derive_ledger" where
  "derive_ledger_with_clock budget =
     \<lparr> dl_budget = budget\<lparr> derive_window := clamp_window (derive_window budget) \<rparr>, dl_enforced = True,
       dl_state = ledger_state_default \<rparr>"

definition derive_ledger_unlimited :: derive_ledger where
  "derive_ledger_unlimited =
     \<lparr> dl_budget = derive_budget_default, dl_enforced = False, dl_state = ledger_state_default \<rparr>"

text \<open>One ceiling: the sum, when it neither overflows nor exceeds the cap.\<close>

definition within :: "'a::len word \<Rightarrow> 'a word \<Rightarrow> 'a word \<Rightarrow> 'a word option" where
  "within used extra cap =
     (case checked_add used extra of Some sum_after \<Rightarrow> if sum_after \<le> cap then Some sum_after else None | None \<Rightarrow> None)"

definition charge_locked ::
  "derive_budget \<Rightarrow> ledger_state \<Rightarrow> u64 \<Rightarrow> u64 \<Rightarrow> node_id \<Rightarrow> u64 \<Rightarrow> u32 \<Rightarrow>
    ledger_state \<times> (derive_admission, unit) result" where
  "charge_locked budget state now window_millis peer bytes dumps =
     (let global = roll_if_expired (case ls_global state of Some w \<Rightarrow> w | None \<Rightarrow> opened_at now) now window_millis;
          state = state\<lparr> ls_global := Some global \<rparr>
      in case within (w_bytes global) bytes (max_bytes_global_uncompressed_nar budget) of
           None \<Rightarrow> (state, Err RefusedGlobal)
         | Some global_bytes_after \<Rightarrow>
         (case within (w_dumps global) dumps (max_dumps_global budget) of
           None \<Rightarrow> (state, Err RefusedGlobal)
         | Some global_dumps_after \<Rightarrow>
         (let peer_window = roll_if_expired
                (case hm_get (ls_per_peer state) peer of Some w \<Rightarrow> w | None \<Rightarrow> opened_at now) now window_millis
          in case within (w_bytes peer_window) bytes (max_bytes_per_peer_uncompressed_nar budget) of
           None \<Rightarrow> (state, Err RefusedPerPeer)
         | Some peer_bytes_after \<Rightarrow>
         (case within (w_dumps peer_window) dumps (max_dumps_per_peer budget) of
           None \<Rightarrow> (state, Err RefusedPerPeer)
         | Some peer_dumps_after \<Rightarrow>
             (state\<lparr> ls_per_peer := hm_insert (ls_per_peer state) peer
                       (peer_window\<lparr> w_bytes := peer_bytes_after, w_dumps := peer_dumps_after \<rparr>),
                     ls_global := Some (global\<lparr> w_bytes := global_bytes_after, w_dumps := global_dumps_after \<rparr>) \<rparr>,
              Ok ())))))"

definition try_admit_work ::
  "derive_ledger \<Rightarrow> u64 \<Rightarrow> node_id \<Rightarrow> u64 \<Rightarrow> u32 \<Rightarrow> derive_ledger \<times> derive_admission" where
  "try_admit_work ledger now peer bytes dumps =
     (if \<not> dl_enforced ledger then (ledger, Admitted)
      else
        let window_millis = saturating_millis (derive_window (dl_budget ledger));
            state = evict_expired_peers (dl_state ledger) now window_millis;
            (state, res) = charge_locked (dl_budget ledger) state now window_millis peer bytes dumps
        in (ledger\<lparr> dl_state := state \<rparr>, case res of Ok _ \<Rightarrow> Admitted | Err reason \<Rightarrow> reason))"

definition try_admit :: "derive_ledger \<Rightarrow> u64 \<Rightarrow> node_id \<Rightarrow> u64 \<Rightarrow> derive_ledger \<times> derive_admission" where
  "try_admit ledger now peer nar_size = try_admit_work ledger now peer nar_size 1"

definition global_bytes_used :: "derive_ledger \<Rightarrow> u64 \<Rightarrow> derive_ledger \<times> u64" where
  "global_bytes_used ledger now =
     (if \<not> dl_enforced ledger then (ledger, 0)
      else
        let window_millis = saturating_millis (derive_window (dl_budget ledger));
            global = roll_if_expired
              (case ls_global (dl_state ledger) of Some w \<Rightarrow> w | None \<Rightarrow> opened_at now) now window_millis
        in (ledger\<lparr> dl_state := (dl_state ledger)\<lparr> ls_global := Some global \<rparr> \<rparr>, w_bytes global))"

definition global_bytes_cap :: "derive_ledger \<Rightarrow> u64" where
  "global_bytes_cap ledger = max_bytes_global_uncompressed_nar (dl_budget ledger)"


subsection \<open>Calls that share the ledger\<close>

text \<open>A request: the clock reading, the peer, the bytes and the dumps it asks for.\<close>

type_synonym derive_request = "u64 \<times> node_id \<times> u64 \<times> u32"

fun rq_now :: "derive_request \<Rightarrow> u64" where "rq_now (now, peer, bytes, dumps) = now"
fun rq_peer :: "derive_request \<Rightarrow> node_id" where "rq_peer (now, peer, bytes, dumps) = peer"
fun rq_bytes :: "derive_request \<Rightarrow> u64" where "rq_bytes (now, peer, bytes, dumps) = bytes"
fun rq_dumps :: "derive_request \<Rightarrow> u32" where "rq_dumps (now, peer, bytes, dumps) = dumps"

text \<open>A call after it has read the clock: it asks for work, or reports the bytes used. Once it holds the mutex it
  runs to its end; what it admitted is the list.\<close>

datatype ledger_call = AdmitCall derive_request | UsedCall u64

fun lc_now :: "ledger_call \<Rightarrow> u64" where
  "lc_now (AdmitCall e) = rq_now e"
| "lc_now (UsedCall now) = now"

fun locked_call :: "derive_ledger \<Rightarrow> ledger_call \<Rightarrow> derive_ledger \<times> derive_request list" where
  "locked_call ledger (AdmitCall e) =
     (case try_admit_work ledger (rq_now e) (rq_peer e) (rq_bytes e) (rq_dumps e) of
        (ledger, adm) \<Rightarrow> (ledger, if is_admitted adm then [e] else []))"
| "locked_call ledger (UsedCall now) = (fst (global_bytes_used ledger now), [])"

record derive_system =
  dy_clock :: u64
  dy_waiting :: "ledger_call list"
  dy_ledger :: derive_ledger
  dy_admitted :: "(nat \<times> derive_request) list"   \<comment> \<open>with the time at which the call held the mutex\<close>

text \<open>The clock advances, a call reads it and waits, and a waiting call takes the mutex, in any order; no call
  takes the mutex later than \<open>lag\<close> milliseconds after it read the clock.\<close>

inductive derive_reachable :: "derive_budget \<Rightarrow> nat \<Rightarrow> derive_system \<Rightarrow> bool" for b lag where
  started: "derive_reachable b lag
    \<lparr> dy_clock = now, dy_waiting = [], dy_ledger = derive_ledger_with_clock b, dy_admitted = [] \<rparr>"
| ticked: "derive_reachable b lag sys \<Longrightarrow> dy_clock sys \<le> now \<Longrightarrow> derive_reachable b lag (sys\<lparr> dy_clock := now \<rparr>)"
| asked: "derive_reachable b lag sys \<Longrightarrow>
    derive_reachable b lag (sys\<lparr> dy_waiting := dy_waiting sys @ [AdmitCall (dy_clock sys, peer, bytes, dumps)] \<rparr>)"
| polled: "derive_reachable b lag sys \<Longrightarrow>
    derive_reachable b lag (sys\<lparr> dy_waiting := dy_waiting sys @ [UsedCall (dy_clock sys)] \<rparr>)"
| locked: "derive_reachable b lag sys \<Longrightarrow> dy_waiting sys = before @ call # rest \<Longrightarrow>
    unat (dy_clock sys) - unat (lc_now call) \<le> lag \<Longrightarrow> locked_call (dy_ledger sys) call = (ledger, es) \<Longrightarrow>
    derive_reachable b lag (sys\<lparr> dy_waiting := before @ rest, dy_ledger := ledger,
      dy_admitted := dy_admitted sys @ map (Pair (unat (dy_clock sys))) es \<rparr>)"


section \<open>One charge\<close>

definition peer_window :: "ledger_state \<Rightarrow> node_id \<Rightarrow> u64 \<Rightarrow> u64 \<Rightarrow> window" where
  "peer_window state peer now wm =
     roll_if_expired (case hm_get (ls_per_peer state) peer of Some w \<Rightarrow> w | None \<Rightarrow> opened_at now) now wm"

definition global_window :: "ledger_state \<Rightarrow> u64 \<Rightarrow> u64 \<Rightarrow> window" where
  "global_window state now wm =
     roll_if_expired (case ls_global state of Some w \<Rightarrow> w | None \<Rightarrow> opened_at now) now wm"

lemma within_Some_iff:
  "within used extra cap = Some sum_after \<longleftrightarrow> unat sum_after = unat used + unat extra \<and> sum_after \<le> cap"
proof
  show "within used extra cap = Some sum_after \<Longrightarrow> unat sum_after = unat used + unat extra \<and> sum_after \<le> cap"
    by (auto simp: within_def dest: checked_add_SomeD split: option.splits if_splits)
  assume t: "unat sum_after = unat used + unat extra \<and> sum_after \<le> cap"
  then have "unat used + unat extra < 2 ^ LENGTH('a)" using unat_bound [of sum_after] by simp
  moreover from this have "used + extra = sum_after"
    using t by (simp add: word_unat_eq_iff unat_word_ariths)
  ultimately show "within used extra cap = Some sum_after"
    using t by (simp add: within_def checked_add_def)
qed

text \<open>The four ceilings, over the windows rolled to the present.\<close>

definition affordable :: "derive_budget \<Rightarrow> ledger_state \<Rightarrow> u64 \<Rightarrow> u64 \<Rightarrow> node_id \<Rightarrow> u64 \<Rightarrow> u32 \<Rightarrow> bool" where
  "affordable budget state now wm peer bytes dumps \<longleftrightarrow>
     unat (w_bytes (global_window state now wm)) + unat bytes \<le> unat (max_bytes_global_uncompressed_nar budget) \<and>
     unat (w_dumps (global_window state now wm)) + unat dumps \<le> unat (max_dumps_global budget) \<and>
     unat (w_bytes (peer_window state peer now wm)) + unat bytes \<le> unat (max_bytes_per_peer_uncompressed_nar budget) \<and>
     unat (w_dumps (peer_window state peer now wm)) + unat dumps \<le> unat (max_dumps_per_peer budget)"

lemma within_ex_iff: "(\<exists>sum_after. within used extra cap = Some sum_after) \<longleftrightarrow> unat used + unat extra \<le> unat cap"
proof
  show "\<exists>sum_after. within used extra cap = Some sum_after \<Longrightarrow> unat used + unat extra \<le> unat cap"
    by (auto simp: within_Some_iff word_le_nat_alt)
  assume le: "unat used + unat extra \<le> unat cap"
  have "unat used + unat extra < 2 ^ LENGTH('a)" using le unat_bound [of cap] by linarith
  then have "unat (used + extra) = unat used + unat extra" by (simp add: unat_word_ariths)
  then show "\<exists>sum_after. within used extra cap = Some sum_after"
    using le by (intro exI [of _ "used + extra"]) (simp add: within_Some_iff word_le_nat_alt)
qed


lemma charge_locked_eq:
  "charge_locked budget state now wm peer bytes dumps =
    (if affordable budget state now wm peer bytes dumps then
       (\<lparr> ls_global = Some ((global_window state now wm)
            \<lparr> w_bytes := w_bytes (global_window state now wm) + bytes,
              w_dumps := w_dumps (global_window state now wm) + dumps \<rparr>),
          ls_per_peer = hm_insert (ls_per_peer state) peer ((peer_window state peer now wm)
            \<lparr> w_bytes := w_bytes (peer_window state peer now wm) + bytes,
              w_dumps := w_dumps (peer_window state peer now wm) + dumps \<rparr>) \<rparr>, Ok ())
     else (state\<lparr> ls_global := Some (global_window state now wm) \<rparr>,
       Err (if unat (w_bytes (global_window state now wm)) + unat bytes \<le> unat (max_bytes_global_uncompressed_nar budget) \<and>
               unat (w_dumps (global_window state now wm)) + unat dumps \<le> unat (max_dumps_global budget)
            then RefusedPerPeer else RefusedGlobal)))"
proof -
  have eq: "within used extra cap = (if unat used + unat extra \<le> unat cap then Some (used + extra) else None)"
    for used extra cap :: "'a::len word"
  proof (cases "within used extra cap")
    case None
    then show ?thesis using within_ex_iff [of used extra cap] by auto
  next
    case (Some sum_after)
    then have "used + extra = sum_after"
      by (auto simp: within_def checked_add_def split: if_splits)
    then show ?thesis using Some within_ex_iff [of used extra cap] by auto
  qed
  show ?thesis
    unfolding charge_locked_def affordable_def global_window_def [symmetric] Let_def eq
    by (simp add: peer_window_def)
qed



section \<open>Steps of the ledger\<close>

definition wmillis :: "derive_budget \<Rightarrow> u64" where
  "wmillis b = saturating_millis (clamp_window (derive_window b))"

definition swept :: "derive_budget \<Rightarrow> ledger_state \<Rightarrow> derive_request \<Rightarrow> ledger_state" where
  "swept b s e = evict_expired_peers s (rq_now e) (wmillis b)"

definition derive_step :: "derive_budget \<Rightarrow> ledger_state \<Rightarrow> derive_request \<Rightarrow> ledger_state" where
  "derive_step b s e = fst (charge_locked b (swept b s e) (rq_now e) (wmillis b) (rq_peer e) (rq_bytes e) (rq_dumps e))"

definition grants :: "derive_budget \<Rightarrow> ledger_state \<Rightarrow> derive_request \<Rightarrow> bool" where
  "grants b s e \<longleftrightarrow> affordable b (swept b s e) (rq_now e) (wmillis b) (rq_peer e) (rq_bytes e) (rq_dumps e)"

lemma affordable_window: "affordable (b\<lparr> derive_window := d \<rparr>) = affordable b"
  by (simp add: affordable_def fun_eq_iff)

lemma charge_window: "charge_locked (b\<lparr> derive_window := d \<rparr>) = charge_locked b"
  by (simp add: charge_locked_eq affordable_window fun_eq_iff)

lemma try_admit_work_step:
  assumes "ledger = \<lparr> dl_budget = b\<lparr> derive_window := clamp_window (derive_window b) \<rparr>, dl_enforced = True, dl_state = s \<rparr>"
  shows "try_admit_work ledger (rq_now e) (rq_peer e) (rq_bytes e) (rq_dumps e) =
    (ledger\<lparr> dl_state := derive_step b s e \<rparr>,
     if grants b s e then Admitted
     else case snd (charge_locked b (swept b s e) (rq_now e) (wmillis b) (rq_peer e) (rq_bytes e) (rq_dumps e)) of
       Ok _ \<Rightarrow> Admitted | Err reason \<Rightarrow> reason)"
  using assms
  by (auto simp: try_admit_work_def Let_def derive_step_def grants_def swept_def wmillis_def charge_window
      charge_locked_eq split: prod.splits)

lemma try_admit_work_admits:
  assumes "ledger = \<lparr> dl_budget = b\<lparr> derive_window := clamp_window (derive_window b) \<rparr>, dl_enforced = True, dl_state = s \<rparr>"
  shows "snd (try_admit_work ledger (rq_now e) (rq_peer e) (rq_bytes e) (rq_dumps e)) = Admitted \<longleftrightarrow> grants b s e"
  unfolding try_admit_work_step [OF assms]
  by (simp add: charge_locked_eq grants_def)

subsection \<open>Eviction changes no decision\<close>

lemma roll_opened [simp]: "roll_if_expired (opened_at now) now wm = opened_at now"
  by (simp add: roll_if_expired_def)

lemma evict_get:
  assumes "hm_ok (ls_per_peer s)"
  shows "hm_get (ls_per_peer (evict_expired_peers s now wm)) q = hm_get (ls_per_peer s) q \<or>
    hm_get (ls_per_peer (evict_expired_peers s now wm)) q = None \<and>
    (\<exists>w. hm_get (ls_per_peer s) q = Some w \<and> window_expired (w_start_millis w) now wm)"
  using assms
  by (auto simp: evict_expired_peers_def hm_get_retain window_expired_def not_less split: option.splits)

lemma peer_window_evict:
  assumes "hm_ok (ls_per_peer s)"
  shows "peer_window (evict_expired_peers s now wm) q now wm = peer_window s q now wm"
  using evict_get [OF assms, of now wm q] by (auto simp: peer_window_def) (simp add: roll_if_expired_def)

lemma global_window_evict: "global_window (evict_expired_peers s now wm) = global_window s"
  by (simp add: global_window_def evict_expired_peers_def fun_eq_iff)

lemma hm_ok_evict: "hm_ok (ls_per_peer s) \<Longrightarrow> hm_ok (ls_per_peer (evict_expired_peers s now wm))"
  by (auto simp: evict_expired_peers_def)

lemma grants_unswept:
  "hm_ok (ls_per_peer s) \<Longrightarrow>
   grants b s e \<longleftrightarrow> affordable b s (rq_now e) (wmillis b) (rq_peer e) (rq_bytes e) (rq_dumps e)"
  by (simp add: grants_def swept_def affordable_def peer_window_evict global_window_evict)

lemma step_ok: "hm_ok (ls_per_peer s) \<Longrightarrow> hm_ok (ls_per_peer (derive_step b s e))"
  by (auto simp: derive_step_def swept_def charge_locked_eq hm_ok_evict)

lemma step_global:
  "ls_global (derive_step b s e) =
    (let w = global_window s (rq_now e) (wmillis b) in
     Some (if grants b s e then w\<lparr> w_bytes := w_bytes w + rq_bytes e, w_dumps := w_dumps w + rq_dumps e \<rparr> else w))"
  by (simp add: derive_step_def charge_locked_eq grants_def swept_def global_window_evict Let_def)

lemma step_peer:
  assumes "hm_ok (ls_per_peer s)"
  shows "hm_get (ls_per_peer (derive_step b s e)) q =
    (let w = peer_window s q (rq_now e) (wmillis b) in
     if grants b s e \<and> q = rq_peer e
     then Some (w\<lparr> w_bytes := w_bytes w + rq_bytes e, w_dumps := w_dumps w + rq_dumps e \<rparr>)
     else hm_get (ls_per_peer (swept b s e)) q)"
  using assms by (simp add: derive_step_def charge_locked_eq grants_def swept_def peer_window_evict Let_def)

lemma unat_charge:
  "unat (x::'a::len word) + unat y \<le> unat (z::'a word) \<Longrightarrow> unat (x + y) = unat x + unat y"
proof -
  assume "unat x + unat y \<le> unat z"
  then have "unat x + unat y < 2 ^ LENGTH('a)" using unat_bound [of z] by linarith
  then show ?thesis by (simp add: unat_word_ariths)
qed


section \<open>Four tumbling counters\<close>

text \<open>The node and every peer keep a counter of bytes and a counter of dumps.\<close>

definition global_view :: "(window \<Rightarrow> nat) \<Rightarrow> ledger_state \<Rightarrow> (nat \<times> nat) option" where
  "global_view f s = map_option (\<lambda>w. (unat (w_start_millis w), f w)) (ls_global s)"

definition peer_view :: "(window \<Rightarrow> nat) \<Rightarrow> node_id \<Rightarrow> ledger_state \<Rightarrow> (nat \<times> nat) option" where
  "peer_view f p s = map_option (\<lambda>w. (unat (w_start_millis w), f w)) (hm_get (ls_per_peer s) p)"

definition window_len :: "derive_budget \<Rightarrow> nat" where
  "window_len b = unat (wmillis b)"

lemma window_len_pos: "0 < window_len b"
  by (simp add: window_len_def wmillis_def clamp_window_millis)

abbreviation "used_bytes w \<equiv> unat (w_bytes w)"
abbreviation "used_dumps w \<equiv> unat (w_dumps w)"

lemma rolled:
  "roll_if_expired w now (wmillis b) =
    (if window_len b \<le> unat now - unat (w_start_millis w) then opened_at now else w)"
  by (simp add: roll_if_expired_def window_expired_iff window_len_def)

lemmas counter_simps = global_view_def peer_view_def step_global step_peer Let_def rolled global_window_def
  peer_window_def opened_at_def unat_charge

lemma granted:
  assumes "grants b s e" "hm_ok (ls_per_peer s)"
  shows "used_bytes (global_window s (rq_now e) (wmillis b)) + unat (rq_bytes e) \<le> unat (max_bytes_global_uncompressed_nar b)"
    "used_dumps (global_window s (rq_now e) (wmillis b)) + unat (rq_dumps e) \<le> unat (max_dumps_global b)"
    "used_bytes (peer_window s (rq_peer e) (rq_now e) (wmillis b)) + unat (rq_bytes e) \<le> unat (max_bytes_per_peer_uncompressed_nar b)"
    "used_dumps (peer_window s (rq_peer e) (rq_now e) (wmillis b)) + unat (rq_dumps e) \<le> unat (max_dumps_per_peer b)"
  using assms by (auto simp: grants_unswept affordable_def)

text \<open>The two laws of a counter, for any quantity \<open>f\<close> that a charge increases by \<open>g\<close>.\<close>

lemma global_counter:
  assumes f: "\<And>now. f (opened_at now) = 0"
    and add: "grants b s e \<longrightarrow>
      (let w = global_window s (rq_now e) (wmillis b) in
       f (w\<lparr> w_bytes := w_bytes w + rq_bytes e, w_dumps := w_dumps w + rq_dumps e \<rparr>) = f w + g e \<and> f w + g e \<le> cap)"
    and ok: "hm_ok (ls_per_peer s)"
  shows "grants b s e \<Longrightarrow> global_view f (derive_step b s e) =
      (case global_view f s of
         None \<Rightarrow> Some (unat (rq_now e), g e)
       | Some (st, u) \<Rightarrow> if window_len b \<le> unat (rq_now e) - st then Some (unat (rq_now e), g e) else Some (st, u + g e))"
    and "grants b s e \<Longrightarrow> global_view f (derive_step b s e) = Some (st, u) \<Longrightarrow> u \<le> cap"
    and "\<not> grants b s e \<Longrightarrow> global_view f (derive_step b s e) = global_view f s \<or>
      (global_view f (derive_step b s e) \<in> {None, Some (unat (rq_now e), 0)} \<and>
       (case global_view f s of None \<Rightarrow> True | Some (st, u) \<Rightarrow> window_len b \<le> unat (rq_now e) - st))"
proof -
  have start: "w_start_millis (opened_at now) = now" for now by (simp add: opened_at_def)
  show "grants b s e \<Longrightarrow> global_view f (derive_step b s e) =
      (case global_view f s of
         None \<Rightarrow> Some (unat (rq_now e), g e)
       | Some (st, u) \<Rightarrow> if window_len b \<le> unat (rq_now e) - st then Some (unat (rq_now e), g e) else Some (st, u + g e))"
    using add ok f start
    by (cases "ls_global s") (auto simp: global_view_def step_global Let_def global_window_def rolled)
  show "grants b s e \<Longrightarrow> global_view f (derive_step b s e) = Some (st, u) \<Longrightarrow> u \<le> cap"
    using add ok by (auto simp: global_view_def step_global Let_def)
  show "\<not> grants b s e \<Longrightarrow> global_view f (derive_step b s e) = global_view f s \<or>
      (global_view f (derive_step b s e) \<in> {None, Some (unat (rq_now e), 0)} \<and>
       (case global_view f s of None \<Rightarrow> True | Some (st, u) \<Rightarrow> window_len b \<le> unat (rq_now e) - st))"
    using f start
    by (cases "ls_global s") (auto simp: global_view_def step_global Let_def global_window_def rolled)
qed

lemma peer_counter:
  assumes f: "\<And>now. f (opened_at now) = 0"
    and add: "grants b s e \<longrightarrow>
      (let w = peer_window s (rq_peer e) (rq_now e) (wmillis b) in
       f (w\<lparr> w_bytes := w_bytes w + rq_bytes e, w_dumps := w_dumps w + rq_dumps e \<rparr>) = f w + g e \<and> f w + g e \<le> cap)"
    and ok: "hm_ok (ls_per_peer s)"
  shows "grants b s e \<and> rq_peer e = p \<Longrightarrow> peer_view f p (derive_step b s e) =
      (case peer_view f p s of
         None \<Rightarrow> Some (unat (rq_now e), g e)
       | Some (st, u) \<Rightarrow> if window_len b \<le> unat (rq_now e) - st then Some (unat (rq_now e), g e) else Some (st, u + g e))"
    and "grants b s e \<and> rq_peer e = p \<Longrightarrow> peer_view f p (derive_step b s e) = Some (st, u) \<Longrightarrow> u \<le> cap"
    and "\<not> (grants b s e \<and> rq_peer e = p) \<Longrightarrow> peer_view f p (derive_step b s e) = peer_view f p s \<or>
      (peer_view f p (derive_step b s e) \<in> {None, Some (unat (rq_now e), 0)} \<and>
       (case peer_view f p s of None \<Rightarrow> True | Some (st, u) \<Rightarrow> window_len b \<le> unat (rq_now e) - st))"
proof -
  have start: "w_start_millis (opened_at now) = now" for now by (simp add: opened_at_def)
  show "grants b s e \<and> rq_peer e = p \<Longrightarrow> peer_view f p (derive_step b s e) =
      (case peer_view f p s of
         None \<Rightarrow> Some (unat (rq_now e), g e)
       | Some (st, u) \<Rightarrow> if window_len b \<le> unat (rq_now e) - st then Some (unat (rq_now e), g e) else Some (st, u + g e))"
    using add ok f start
    by (cases "hm_get (ls_per_peer s) p") (auto simp: peer_view_def step_peer Let_def peer_window_def rolled)
  show "grants b s e \<and> rq_peer e = p \<Longrightarrow> peer_view f p (derive_step b s e) = Some (st, u) \<Longrightarrow> u \<le> cap"
    using add ok by (auto simp: peer_view_def step_peer Let_def)
  show "\<not> (grants b s e \<and> rq_peer e = p) \<Longrightarrow> peer_view f p (derive_step b s e) = peer_view f p s \<or>
      (peer_view f p (derive_step b s e) \<in> {None, Some (unat (rq_now e), 0)} \<and>
       (case peer_view f p s of None \<Rightarrow> True | Some (st, u) \<Rightarrow> window_len b \<le> unat (rq_now e) - st))"
    using evict_get [OF ok, of "rq_now e" "wmillis b" p] ok
    by (auto simp: peer_view_def step_peer Let_def swept_def window_expired_iff window_len_def)
qed

lemma opened_empty: "used_bytes (opened_at now) = 0" "used_dumps (opened_at now) = 0"
  by (simp_all add: opened_at_def)

abbreviation "charged_window w e \<equiv> w\<lparr> w_bytes := w_bytes w + rq_bytes e, w_dumps := w_dumps w + rq_dumps e \<rparr>"

lemma global_adds:
  assumes "grants b s e" "hm_ok (ls_per_peer s)"
  shows "let w = global_window s (rq_now e) (wmillis b) in
      used_bytes (charged_window w e) = used_bytes w + unat (rq_bytes e) \<and>
      used_bytes w + unat (rq_bytes e) \<le> unat (max_bytes_global_uncompressed_nar b)"
    "let w = global_window s (rq_now e) (wmillis b) in
      used_dumps (charged_window w e) = used_dumps w + unat (rq_dumps e) \<and>
      used_dumps w + unat (rq_dumps e) \<le> unat (max_dumps_global b)"
  using granted [OF assms] by (simp_all add: Let_def unat_charge)

lemma peer_adds:
  assumes "grants b s e" "hm_ok (ls_per_peer s)"
  shows "let w = peer_window s (rq_peer e) (rq_now e) (wmillis b) in
      used_bytes (charged_window w e) = used_bytes w + unat (rq_bytes e) \<and>
      used_bytes w + unat (rq_bytes e) \<le> unat (max_bytes_per_peer_uncompressed_nar b)"
    "let w = peer_window s (rq_peer e) (rq_now e) (wmillis b) in
      used_dumps (charged_window w e) = used_dumps w + unat (rq_dumps e) \<and>
      used_dumps w + unat (rq_dumps e) \<le> unat (max_dumps_per_peer b)"
  using granted [OF assms] by (simp_all add: Let_def unat_charge)

text \<open>One call with the mutex held, over the state of the ledger.\<close>

fun lc_step :: "derive_budget \<Rightarrow> ledger_state \<Rightarrow> ledger_call \<Rightarrow> ledger_state" where
  "lc_step b s (AdmitCall e) = derive_step b s e"
| "lc_step b s (UsedCall now) = s\<lparr> ls_global := Some (global_window s now (wmillis b)) \<rparr>"

fun lc_grants :: "derive_budget \<Rightarrow> (derive_request \<Rightarrow> bool) \<Rightarrow> ledger_state \<Rightarrow> ledger_call \<Rightarrow> bool" where
  "lc_grants b P s (AdmitCall e) \<longleftrightarrow> grants b s e \<and> P e"
| "lc_grants b P s (UsedCall now) \<longleftrightarrow> False"

fun lc_amount :: "(derive_request \<Rightarrow> nat) \<Rightarrow> ledger_call \<Rightarrow> nat" where
  "lc_amount g (AdmitCall e) = g e"
| "lc_amount g (UsedCall now) = 0"

lemmas lc_simps = lc_step.simps lc_grants.simps lc_now.simps lc_amount.simps

lemma lc_step_ok: "hm_ok (ls_per_peer s) \<Longrightarrow> hm_ok (ls_per_peer (lc_step b s c))"
  by (cases c) (simp_all add: step_ok)

lemma used_views:
  assumes "\<And>now. f (opened_at now) = 0"
  shows "global_view f (lc_step b s (UsedCall now)) = global_view f s \<or>
      (global_view f (lc_step b s (UsedCall now)) \<in> {None, Some (unat now, 0)} \<and>
       (case global_view f s of None \<Rightarrow> True | Some (st, u) \<Rightarrow> window_len b \<le> unat now - st))"
    "peer_view f p (lc_step b s (UsedCall now)) = peer_view f p s"
proof -
  have "w_start_millis (opened_at now) = now" for now by (simp add: opened_at_def)
  then show "global_view f (lc_step b s (UsedCall now)) = global_view f s \<or>
      (global_view f (lc_step b s (UsedCall now)) \<in> {None, Some (unat now, 0)} \<and>
       (case global_view f s of None \<Rightarrow> True | Some (st, u) \<Rightarrow> window_len b \<le> unat now - st))"
    using assms by (cases "ls_global s") (auto simp: global_view_def global_window_def rolled)
  show "peer_view f p (lc_step b s (UsedCall now)) = peer_view f p s" by (simp add: peer_view_def)
qed

lemma node_counter:
  assumes f: "\<And>now. f (opened_at now) = 0"
    and add: "\<And>s e. grants b s e \<Longrightarrow> hm_ok (ls_per_peer s) \<Longrightarrow>
      (let w = global_window s (rq_now e) (wmillis b) in f (charged_window w e) = f w + g e \<and> f w + g e \<le> cap)"
  shows "tumbling_counter (\<lambda>s. hm_ok (ls_per_peer s)) (lc_step b) (global_view f) (lc_grants b (\<lambda>_. True))
    (\<lambda>c. unat (lc_now c)) (lc_amount g) (window_len b) cap"
proof
  fix s :: ledger_state and c st u assume ok: "hm_ok (ls_per_peer s)"
  have "grants b s e \<longrightarrow> (let w = global_window s (rq_now e) (wmillis b) in f (charged_window w e) = f w + g e \<and> f w + g e \<le> cap)" for e
    using add [OF _ ok] by blast
  note laws = global_counter [where f = f and g = g, OF f this ok]
  show "hm_ok (ls_per_peer (lc_step b s c))" by (rule lc_step_ok [OF ok])

  show "lc_grants b (\<lambda>_. True) s c \<Longrightarrow> global_view f (lc_step b s c) =
      (case global_view f s of
         None \<Rightarrow> Some (unat (lc_now c), lc_amount g c)
       | Some (st, u) \<Rightarrow> if window_len b \<le> unat (lc_now c) - st then Some (unat (lc_now c), lc_amount g c)
           else Some (st, u + lc_amount g c))"
    using laws(1) by (cases c) (auto split: option.splits)
  show "lc_grants b (\<lambda>_. True) s c \<Longrightarrow> global_view f (lc_step b s c) = Some (st, u) \<Longrightarrow> u \<le> cap"
    using laws(2) by (cases c) auto
  show "global_view f (lc_step b s c) = global_view f s \<or>
      (global_view f (lc_step b s c) \<in> {None, Some (unat (lc_now c), 0)} \<and>
       (case global_view f s of None \<Rightarrow> True | Some (st, u) \<Rightarrow> window_len b \<le> unat (lc_now c) - st))"
    if h: "\<not> lc_grants b (\<lambda>_. True) s c"
  proof (cases c)
    case (AdmitCall e)
    show ?thesis using laws(3) [of e] h unfolding AdmitCall lc_simps by blast
  next
    case (UsedCall now)
    show ?thesis using used_views(1) [of f b s, OF f] unfolding UsedCall lc_now.simps by blast
  qed
qed (rule window_len_pos)

lemma one_peer_counter:
  assumes f: "\<And>now. f (opened_at now) = 0"
    and add: "\<And>s e. grants b s e \<Longrightarrow> hm_ok (ls_per_peer s) \<Longrightarrow>
      (let w = peer_window s (rq_peer e) (rq_now e) (wmillis b) in f (charged_window w e) = f w + g e \<and> f w + g e \<le> cap)"
  shows "tumbling_counter (\<lambda>s. hm_ok (ls_per_peer s)) (lc_step b) (peer_view f p) (lc_grants b (\<lambda>e. rq_peer e = p))
    (\<lambda>c. unat (lc_now c)) (lc_amount g) (window_len b) cap"
proof
  fix s :: ledger_state and c st u assume ok: "hm_ok (ls_per_peer s)"
  have "grants b s e \<longrightarrow> (let w = peer_window s (rq_peer e) (rq_now e) (wmillis b) in f (charged_window w e) = f w + g e \<and> f w + g e \<le> cap)" for e
    using add [OF _ ok] by blast
  note laws = peer_counter [where f = f and g = g and p = p, OF f this ok]
  show "hm_ok (ls_per_peer (lc_step b s c))" by (rule lc_step_ok [OF ok])
  show "lc_grants b (\<lambda>e. rq_peer e = p) s c \<Longrightarrow> peer_view f p (lc_step b s c) =
      (case peer_view f p s of
         None \<Rightarrow> Some (unat (lc_now c), lc_amount g c)
       | Some (st, u) \<Rightarrow> if window_len b \<le> unat (lc_now c) - st then Some (unat (lc_now c), lc_amount g c)
           else Some (st, u + lc_amount g c))"
    using laws(1) by (cases c) (auto split: option.splits)
  show "lc_grants b (\<lambda>e. rq_peer e = p) s c \<Longrightarrow> peer_view f p (lc_step b s c) = Some (st, u) \<Longrightarrow> u \<le> cap"
    using laws(2) by (cases c) auto
  show "peer_view f p (lc_step b s c) = peer_view f p s \<or>
      (peer_view f p (lc_step b s c) \<in> {None, Some (unat (lc_now c), 0)} \<and>
       (case peer_view f p s of None \<Rightarrow> True | Some (st, u) \<Rightarrow> window_len b \<le> unat (lc_now c) - st))"
    if h: "\<not> lc_grants b (\<lambda>e. rq_peer e = p) s c"
  proof (cases c)
    case (AdmitCall e)
    show ?thesis using laws(3) [of e] h unfolding AdmitCall lc_simps by blast
  next
    case (UsedCall now)
    show ?thesis using used_views(2) [of f p b s, OF f] unfolding UsedCall lc_now.simps by blast
  qed
qed (rule window_len_pos)

interpretation node_bytes: tumbling_counter "\<lambda>s. hm_ok (ls_per_peer s)" "lc_step b" "global_view (\<lambda>w. used_bytes w)"
  "lc_grants b (\<lambda>_. True)" "\<lambda>c. unat (lc_now c)" "lc_amount (\<lambda>e. unat (rq_bytes e))" "window_len b"
  "unat (max_bytes_global_uncompressed_nar b)"
  by (rule node_counter) (simp add: opened_empty, rule global_adds(1))

interpretation node_dumps: tumbling_counter "\<lambda>s. hm_ok (ls_per_peer s)" "lc_step b" "global_view (\<lambda>w. used_dumps w)"
  "lc_grants b (\<lambda>_. True)" "\<lambda>c. unat (lc_now c)" "lc_amount (\<lambda>e. unat (rq_dumps e))" "window_len b"
  "unat (max_dumps_global b)"
  by (rule node_counter) (simp add: opened_empty, rule global_adds(2))

interpretation peer_bytes: tumbling_counter "\<lambda>s. hm_ok (ls_per_peer s)" "lc_step b" "peer_view (\<lambda>w. used_bytes w) p"
  "lc_grants b (\<lambda>e. rq_peer e = p)" "\<lambda>c. unat (lc_now c)" "lc_amount (\<lambda>e. unat (rq_bytes e))" "window_len b"
  "unat (max_bytes_per_peer_uncompressed_nar b)"
  by (rule one_peer_counter) (simp add: opened_empty, rule peer_adds(1))

interpretation peer_dumps: tumbling_counter "\<lambda>s. hm_ok (ls_per_peer s)" "lc_step b" "peer_view (\<lambda>w. used_dumps w) p"
  "lc_grants b (\<lambda>e. rq_peer e = p)" "\<lambda>c. unat (lc_now c)" "lc_amount (\<lambda>e. unat (rq_dumps e))" "window_len b"
  "unat (max_dumps_per_peer b)"
  by (rule one_peer_counter) (simp add: opened_empty, rule peer_adds(2))


subsection \<open>Interleaved calls\<close>

text \<open>The calls in the order in which they held the mutex, each with that time, and what they admitted.\<close>

abbreviation "call_run b s cs \<equiv> foldl (\<lambda>s (t, c). lc_step b s c) s cs"

fun admits :: "derive_budget \<Rightarrow> ledger_state \<Rightarrow> ledger_call \<Rightarrow> derive_request list" where
  "admits b s (AdmitCall e) = (if grants b s e then [e] else [])"
| "admits b s (UsedCall now) = []"

fun granted_from :: "derive_budget \<Rightarrow> ledger_state \<Rightarrow> (nat \<times> ledger_call) list \<Rightarrow> (nat \<times> derive_request) list" where
  "granted_from b s [] = []"
| "granted_from b s ((t, c) # cs) = map (Pair t) (admits b s c) @ granted_from b (lc_step b s c) cs"

lemma granted_from_snoc: "granted_from b s (cs @ [(t, c)]) = granted_from b s cs @ map (Pair t) (admits b (call_run b s cs) c)"
  by (induction cs arbitrary: s) auto

abbreviation "ledger_at b s \<equiv>
  \<lparr> dl_budget = b\<lparr> derive_window := clamp_window (derive_window b) \<rparr>, dl_enforced = True, dl_state = s \<rparr>"

lemma locked_call_step: "locked_call (ledger_at b s) c = (ledger_at b (lc_step b s c), admits b s c)"
proof (cases c)
  case (AdmitCall e)
  have "is_admitted adm \<longleftrightarrow> adm = Admitted" for adm by (cases adm) simp_all
  then show ?thesis
    using try_admit_work_step [OF refl, of b s e] try_admit_work_admits [OF refl, of b s e] AdmitCall
    by (simp add: case_prod_unfold)
next
  case (UsedCall now)
  then show ?thesis by (simp add: global_bytes_used_def global_window_def wmillis_def Let_def)
qed

lemma reachable_run:
  assumes "derive_reachable b lag sys"
  shows "\<exists>cs. sorted (map fst cs) \<and> dy_ledger sys = ledger_at b (call_run b ledger_state_default cs) \<and>
    dy_admitted sys = granted_from b ledger_state_default cs \<and>
    (\<forall>(t, c) \<in> set cs. unat (lc_now c) \<le> t \<and> t \<le> unat (lc_now c) + lag \<and> t \<le> unat (dy_clock sys)) \<and>
    (\<forall>c \<in> set (dy_waiting sys). lc_now c \<le> dy_clock sys)"
  using assms
proof induction
  case (started now)
  show ?case by (intro exI [of _ "[]"]) (simp add: derive_ledger_with_clock_def)
next
  case (ticked sys now)
  then obtain cs where "sorted (map fst cs)" "dy_ledger sys = ledger_at b (call_run b ledger_state_default cs)"
    "dy_admitted sys = granted_from b ledger_state_default cs"
    "\<forall>(t, c) \<in> set cs. unat (lc_now c) \<le> t \<and> t \<le> unat (lc_now c) + lag \<and> t \<le> unat (dy_clock sys)"
    "\<forall>c \<in> set (dy_waiting sys). lc_now c \<le> dy_clock sys" by blast
  moreover have "unat (dy_clock sys) \<le> unat now" using ticked.hyps(2) by (simp add: word_le_nat_alt)
  ultimately show ?case using ticked.hyps(2) by (intro exI [of _ cs]) fastforce
next
  case (locked sys before call rest ledger es)
  then obtain cs where cs: "sorted (map fst cs)" "dy_ledger sys = ledger_at b (call_run b ledger_state_default cs)"
    "dy_admitted sys = granted_from b ledger_state_default cs"
    "\<forall>(t, c) \<in> set cs. unat (lc_now c) \<le> t \<and> t \<le> unat (lc_now c) + lag \<and> t \<le> unat (dy_clock sys)"
    "\<forall>c \<in> set (dy_waiting sys). lc_now c \<le> dy_clock sys" by blast
  let ?s = "call_run b ledger_state_default cs" and ?t = "unat (dy_clock sys)"
  have "unat (lc_now call) \<le> ?t" using cs(5) locked.hyps(2) by (simp add: word_le_nat_alt)
  moreover have "ledger = ledger_at b (lc_step b ?s call)" "es = admits b ?s call"
    using locked.hyps(4) unfolding cs(2) locked_call_step by simp_all
  ultimately show ?case using cs locked.hyps(2,3)
    by (intro exI [of _ "cs @ [(?t, call)]"]) (auto simp: granted_from_snoc sorted_append)
qed (auto 4 3)

text \<open>What was admitted in a half-open interval.\<close>

definition spent :: "(derive_request \<Rightarrow> nat) \<Rightarrow> nat \<Rightarrow> nat \<Rightarrow> (nat \<times> derive_request) list \<Rightarrow> nat" where
  "spent g a len es = sum_list (map (\<lambda>(t, e). if a \<le> t \<and> t < a + len then g e else 0) es)"

lemma spent_append [simp]: "spent g a len (es @ es') = spent g a len es + spent g a len es'"
  by (simp add: spent_def)

lemma charged_spent:
  "charged a (a + len) (snd (foldl (\<lambda>(s, l) (t, c). (lc_step b s c,
      if lc_grants b P s c then l @ [(t, lc_amount g c, F s c)] else l)) (s, l) cs)) =
    charged a (a + len) l + spent g a len (filter (\<lambda>(t, e). P e) (granted_from b s cs))"
proof (induction cs arbitrary: s l)
  case (Cons x cs)
  obtain t c where x: "x = (t, c)" by (cases x)
  then show ?case using Cons.IH by (cases c) (auto simp: charged_def spent_def)
qed (simp add: spent_def)

lemma ledger_start: "ls_per_peer ledger_state_default = []" "ls_global ledger_state_default = None"
  by (simp_all add: ledger_state_default_def)

lemma start_views [simp]: "global_view f ledger_state_default = None" "peer_view f p ledger_state_default = None"
  by (simp_all add: global_view_def peer_view_def ledger_start)

lemma start_ok: "hm_ok (ls_per_peer ledger_state_default)"
  by (simp add: ledger_start)

lemma granted_spent:
  assumes "sorted (map fst cs)" "\<forall>(t, c) \<in> set cs. unat (lc_now c) \<le> t \<and> t \<le> unat (lc_now c) + lag"
    "2 * window_len b + lag \<le> n * (window_len b - lag)"
  defines "es \<equiv> granted_from b ledger_state_default cs"
  shows "spent (\<lambda>e. unat (rq_bytes e)) a (window_len b) es \<le> n * unat (max_bytes_global_uncompressed_nar b)"
    "spent (\<lambda>e. unat (rq_dumps e)) a (window_len b) es \<le> n * unat (max_dumps_global b)"
    "spent (\<lambda>e. unat (rq_bytes e)) a (window_len b) (filter (\<lambda>(t, e). rq_peer e = p) es)
      \<le> n * unat (max_bytes_per_peer_uncompressed_nar b)"
    "spent (\<lambda>e. unat (rq_dumps e)) a (window_len b) (filter (\<lambda>(t, e). rq_peer e = p) es)
      \<le> n * unat (max_dumps_per_peer b)"
  using node_bytes.any_interval_caps [OF start_ok start_views(1) assms(1-3), of a]
    node_dumps.any_interval_caps [OF start_ok start_views(1) assms(1-3), of a]
    peer_bytes.any_interval_caps [OF start_ok start_views(2) assms(1-3), of a p]
    peer_dumps.any_interval_caps [OF start_ok start_views(2) assms(1-3), of a p]
  unfolding node_bytes.run_log_def node_dumps.run_log_def peer_bytes.run_log_def peer_dumps.run_log_def charged_spent
  by (simp_all add: es_def)


section \<open>Properties\<close>

text \<open>C15: Whatever the peers ask for and however the calls interleave, the ledger bounds what it admits in every
  interval as long as the (clamped) window. Every call reads the clock, which never steps back, then waits for
  the mutex, and calls take the mutex in any order. Suppose no call takes it later than \<open>lag\<close> milliseconds after
  its reading, and \<open>n\<close> is such that \<open>2 * len + lag \<le> n * (len - lag)\<close> for the length \<open>len\<close> of the window. Then at
  most \<open>n\<close> times each ceiling is admitted in the interval, by the time at which the calls held the mutex: bytes
  and dumps of the node, and bytes and dumps of every single peer. Without any delay \<open>n = 2\<close> is enough, with a
  delay of at most a quarter of the window \<open>n = 3\<close>.\<close>

theorem derive_interval_bounded:
  assumes "derive_reachable b lag sys"
    and "len = unat (saturating_millis (clamp_window (derive_window b)))"
    and "2 * len + lag \<le> n * (len - lag)"
  shows "spent (\<lambda>e. unat (rq_bytes e)) a len (dy_admitted sys) \<le> n * unat (max_bytes_global_uncompressed_nar b) \<and>
    spent (\<lambda>e. unat (rq_dumps e)) a len (dy_admitted sys) \<le> n * unat (max_dumps_global b) \<and>
    spent (\<lambda>e. unat (rq_bytes e)) a len (filter (\<lambda>(t, e). rq_peer e = p) (dy_admitted sys))
      \<le> n * unat (max_bytes_per_peer_uncompressed_nar b) \<and>
    spent (\<lambda>e. unat (rq_dumps e)) a len (filter (\<lambda>(t, e). rq_peer e = p) (dy_admitted sys))
      \<le> n * unat (max_dumps_per_peer b)"
proof -
  have len: "len = window_len b" using assms(2) by (simp add: window_len_def wmillis_def)
  obtain cs where cs: "sorted (map fst cs)" "\<forall>(t, c) \<in> set cs. unat (lc_now c) \<le> t \<and> t \<le> unat (lc_now c) + lag"
    and log: "dy_admitted sys = granted_from b ledger_state_default cs"
    using reachable_run [OF assms(1)] by fast
  note bounds = granted_spent [OF cs assms(3) [unfolded len]]
  show ?thesis unfolding len log by (intro conjI bounds)
qed

definition demo_derive_budget :: derive_budget where
  "demo_derive_budget = derive_budget_default\<lparr> max_bytes_per_peer_uncompressed_nar := 10, max_bytes_global_uncompressed_nar := 15 \<rparr>"

definition demo_derive_system :: "u64 \<Rightarrow> ledger_call list \<Rightarrow> derive_ledger \<Rightarrow> (nat \<times> derive_request) list \<Rightarrow> derive_system" where
  "demo_derive_system now waiting ledger es = \<lparr> dy_clock = now, dy_waiting = waiting, dy_ledger = ledger, dy_admitted = es \<rparr>"

lemma demo_window: "unat (saturating_millis (clamp_window (from_secs 60))) = 60000"
  by (simp add: clamp_window_millis as_millis_def from_secs_def)

text \<open>The second call overtakes the first one, which then holds the mutex with an old reading.\<close>

lemma demo_overtaken:
  "\<exists>ledger. derive_reachable demo_derive_budget 10
    (demo_derive_system 7 [] ledger [(7, 7, NodeId [1], 6, 2), (7, 5, NodeId [], 8, 2)])"
proof -
  let ?first = "AdmitCall (5, NodeId [], 8, 2)" and ?second = "AdmitCall (7, NodeId [1], 6, 2)"
  let ?l0 = "derive_ledger_with_clock demo_derive_budget"
  obtain l1 l2 where l: "locked_call ?l0 ?second = (l1, [(7, NodeId [1], 6, 2)])" "locked_call l1 ?first = (l2, [(5, NodeId [], 8, 2)])"
    by (simp add: demo_derive_budget_def derive_ledger_with_clock_def try_admit_work_def charge_locked_def
      evict_expired_peers_def EVICT_SWEEP_THRESHOLD_def ledger_state_default_def within_def checked_add_def
      roll_if_expired_def window_expired_iff demo_window opened_at_def
      derive_budget_default_def hm_insert_def hm_get_def Let_def)
  note reach = derive_reachable.intros [of demo_derive_budget 10]
  have "derive_reachable demo_derive_budget 10 (demo_derive_system 5 [] ?l0 [])"
    using reach(1) [of 5] by (simp add: demo_derive_system_def)
  from reach(3) [OF this, of "NodeId []" 8 2]
  have "derive_reachable demo_derive_budget 10 (demo_derive_system 5 [?first] ?l0 [])" by (simp add: demo_derive_system_def)
  from reach(2) [OF this, of 7]
  have "derive_reachable demo_derive_budget 10 (demo_derive_system 7 [?first] ?l0 [])" by (simp add: demo_derive_system_def)
  from reach(3) [OF this, of "NodeId [1]" 6 2]
  have "derive_reachable demo_derive_budget 10 (demo_derive_system 7 [?first, ?second] ?l0 [])" by (simp add: demo_derive_system_def)
  from reach(5) [OF this, of "[?first]" ?second "[]" l1 "[(7, NodeId [1], 6, 2)]"] l(1)
  have "derive_reachable demo_derive_budget 10 (demo_derive_system 7 [?first] l1 [(7, 7, NodeId [1], 6, 2)])"
    by (simp add: demo_derive_system_def)
  from reach(5) [OF this, of "[]" ?first "[]" l2 "[(5, NodeId [], 8, 2)]"] l(2)
  show ?thesis by (intro exI [of _ l2]) (simp add: demo_derive_system_def)
qed

theorem derive_interval_bounded_witness:
  "spent (\<lambda>e. unat (rq_bytes e)) 0 60000 [(7, 7, NodeId [1], 6, 2), (7, 5, NodeId [], 8, 2)] = 14 \<and>
   spent (\<lambda>e. unat (rq_bytes e)) 0 60000 [(7, 7, NodeId [1], 6, 2), (7, 5, NodeId [], 8, 2)]
     \<le> 3 * unat (max_bytes_global_uncompressed_nar demo_derive_budget)"
proof
  let ?es = "[(7, 7, NodeId [1], 6, 2), (7, 5, NodeId [], 8, 2)] :: (nat \<times> derive_request) list"
  obtain ledger where reach: "derive_reachable demo_derive_budget 10 (demo_derive_system 7 [] ledger ?es)"
    using demo_overtaken by blast
  have len: "60000 = unat (saturating_millis (clamp_window (derive_window demo_derive_budget)))"
    by (simp add: demo_derive_budget_def derive_budget_default_def demo_window)
  show "spent (\<lambda>e. unat (rq_bytes e)) 0 60000 ?es \<le> 3 * unat (max_bytes_global_uncompressed_nar demo_derive_budget)"
    using derive_interval_bounded [OF reach len, of 3 0] by (simp add: demo_derive_system_def)
  show "spent (\<lambda>e. unat (rq_bytes e)) 0 60000 ?es = 14" by (simp add: spent_def)
qed

text \<open>Three ceilings in one interval are possible. The window starts at 0; two calls read the clock just before and
  at its end and hold the mutex two milliseconds later, the old reading first, so the first is charged to the
  old window and the second opens a new one; the third finds that one expired, still within one window length
  of the first.\<close>

definition demo_tight_budget :: derive_budget where
  "demo_tight_budget = derive_budget_default\<lparr> max_bytes_per_peer_uncompressed_nar := 15, max_bytes_global_uncompressed_nar := 15 \<rparr>"

lemma demo_tight_locks:
  obtains l1 l2 l3 l4 where
    "locked_call (derive_ledger_with_clock demo_tight_budget) (UsedCall 0) = (l1, [])"
    "locked_call l1 (AdmitCall (59999, NodeId [], 15, 2)) = (l2, [(59999, NodeId [], 15, 2)])"
    "locked_call l2 (AdmitCall (60000, NodeId [1], 15, 2)) = (l3, [(60000, NodeId [1], 15, 2)])"
    "locked_call l3 (AdmitCall (120000, NodeId [2], 15, 2)) = (l4, [(120000, NodeId [2], 15, 2)])"
  by (simp add: demo_tight_budget_def derive_ledger_with_clock_def try_admit_work_def charge_locked_def
    evict_expired_peers_def EVICT_SWEEP_THRESHOLD_def ledger_state_default_def within_def checked_add_def
    roll_if_expired_def window_expired_iff demo_window opened_at_def global_bytes_used_def
    derive_budget_default_def hm_insert_def hm_get_def Let_def)

lemma three_caps_in_one_window:
  "\<exists>sys. derive_reachable demo_tight_budget 3 sys \<and>
    spent (\<lambda>e. unat (rq_bytes e)) 60002 60000 (dy_admitted sys) = 3 * unat (max_bytes_global_uncompressed_nar demo_tight_budget)"
proof -
  let ?a = "(59999, NodeId [], 15, 2) :: derive_request" and ?b = "(60000, NodeId [1], 15, 2) :: derive_request"
    and ?c = "(120000, NodeId [2], 15, 2) :: derive_request"
  obtain l1 l2 l3 l4 where l: "locked_call (derive_ledger_with_clock demo_tight_budget) (UsedCall 0) = (l1, [])"
    "locked_call l1 (AdmitCall ?a) = (l2, [?a])" "locked_call l2 (AdmitCall ?b) = (l3, [?b])"
    "locked_call l3 (AdmitCall ?c) = (l4, [?c])"
    by (rule demo_tight_locks)
  note reach = derive_reachable.intros [of demo_tight_budget 3] and sys = demo_derive_system_def
  have "derive_reachable demo_tight_budget 3 (demo_derive_system 0 [] (derive_ledger_with_clock demo_tight_budget) [])"
    using reach(1) [of 0] by (simp add: sys)
  from reach(4) [OF this] have "derive_reachable demo_tight_budget 3
      (demo_derive_system 0 [UsedCall 0] (derive_ledger_with_clock demo_tight_budget) [])" by (simp add: sys)
  from reach(5) [OF this, of "[]" "UsedCall 0" "[]" l1 "[]"] l(1)
  have "derive_reachable demo_tight_budget 3 (demo_derive_system 0 [] l1 [])" by (simp add: sys)
  from reach(2) [OF this, of 59999] have "derive_reachable demo_tight_budget 3 (demo_derive_system 59999 [] l1 [])" by (simp add: sys)
  from reach(3) [OF this, of "NodeId []" 15 2]
  have "derive_reachable demo_tight_budget 3 (demo_derive_system 59999 [AdmitCall ?a] l1 [])" by (simp add: sys)
  from reach(2) [OF this, of 60000]
  have "derive_reachable demo_tight_budget 3 (demo_derive_system 60000 [AdmitCall ?a] l1 [])" by (simp add: sys)
  from reach(3) [OF this, of "NodeId [1]" 15 2]
  have "derive_reachable demo_tight_budget 3 (demo_derive_system 60000 [AdmitCall ?a, AdmitCall ?b] l1 [])" by (simp add: sys)
  from reach(2) [OF this, of 60002]
  have "derive_reachable demo_tight_budget 3 (demo_derive_system 60002 [AdmitCall ?a, AdmitCall ?b] l1 [])" by (simp add: sys)
  from reach(5) [OF this, of "[]" "AdmitCall ?a" "[AdmitCall ?b]" l2 "[?a]"] l(2)
  have "derive_reachable demo_tight_budget 3 (demo_derive_system 60002 [AdmitCall ?b] l2 [(60002, ?a)])" by (simp add: sys)
  from reach(5) [OF this, of "[]" "AdmitCall ?b" "[]" l3 "[?b]"] l(3)
  have "derive_reachable demo_tight_budget 3 (demo_derive_system 60002 [] l3 [(60002, ?a), (60002, ?b)])" by (simp add: sys)
  from reach(2) [OF this, of 120000]
  have "derive_reachable demo_tight_budget 3 (demo_derive_system 120000 [] l3 [(60002, ?a), (60002, ?b)])" by (simp add: sys)
  from reach(3) [OF this, of "NodeId [2]" 15 2]
  have "derive_reachable demo_tight_budget 3 (demo_derive_system 120000 [AdmitCall ?c] l3 [(60002, ?a), (60002, ?b)])" by (simp add: sys)
  from reach(5) [OF this, of "[]" "AdmitCall ?c" "[]" l4 "[?c]"] l(4)
  have "derive_reachable demo_tight_budget 3 (demo_derive_system 120000 [] l4 [(60002, ?a), (60002, ?b), (120000, ?c)])"
    by (simp add: sys)
  moreover have "spent (\<lambda>e. unat (rq_bytes e)) 60002 60000
      (dy_admitted (demo_derive_system 120000 [] l4 [(60002, ?a), (60002, ?b), (120000, ?c)])) =
      3 * unat (max_bytes_global_uncompressed_nar demo_tight_budget)"
    by (simp add: sys spent_def demo_tight_budget_def)
  ultimately show ?thesis by blast
qed

lemma roll_live:
  assumes "0 < wm" "w_start_millis v = w_start_millis (roll_if_expired w now wm)"
  shows "roll_if_expired v now wm = v"
proof -
  have "\<not> window_expired (w_start_millis v) now wm"
    using assms by (auto simp: roll_if_expired_def opened_at_def window_expired_iff word_less_nat_alt)
  then show ?thesis by (simp add: roll_if_expired_def)
qed

lemma clamped_pos: "0 < saturating_millis (clamp_window d)"
  by (simp add: word_less_nat_alt clamp_window_millis)

lemma ledger_charge:
  assumes "0 < wm" "hm_ok (ls_per_peer s)" "charge_locked b (evict_expired_peers s now wm) now wm peer bytes dumps = (s', r)"
  shows "r = Ok () \<longleftrightarrow> affordable b s now wm peer bytes dumps"
    "global_window s' now wm =
      (let w = global_window s now wm in
       if r = Ok () then w\<lparr> w_bytes := w_bytes w + bytes, w_dumps := w_dumps w + dumps \<rparr> else w)"
    "peer_window s' q now wm =
      (let w = peer_window s q now wm in
       if r = Ok () \<and> q = peer then w\<lparr> w_bytes := w_bytes w + bytes, w_dumps := w_dumps w + dumps \<rparr> else w)"
proof -
  show "r = Ok () \<longleftrightarrow> affordable b s now wm peer bytes dumps"
    using assms by (auto simp: charge_locked_eq affordable_def peer_window_evict global_window_evict split: if_splits)
  show "global_window s' now wm =
      (let w = global_window s now wm in
       if r = Ok () then w\<lparr> w_bytes := w_bytes w + bytes, w_dumps := w_dumps w + dumps \<rparr> else w)"
    using assms
    by (auto simp: charge_locked_eq global_window_evict Let_def global_window_def [of s'] split: if_splits
        intro!: roll_live) (auto simp: global_window_def)
  show "peer_window s' q now wm =
      (let w = peer_window s q now wm in
       if r = Ok () \<and> q = peer then w\<lparr> w_bytes := w_bytes w + bytes, w_dumps := w_dumps w + dumps \<rparr> else w)"
    using assms hm_ok_evict [OF assms(2), of now wm]
      peer_window_evict [OF assms(2), of now wm q]
    by (auto simp: charge_locked_eq Let_def peer_window_def split: if_splits intro!: roll_live)
qed

lemma derive_admission_exact_parts:
  assumes "dl_enforced l" and "hm_ok (ls_per_peer (dl_state l))"
    and "derive_window (dl_budget l) = clamp_window d" and "wm = saturating_millis (derive_window (dl_budget l))"
    and "try_admit_work l now peer bytes dumps = (l', outcome)"
  shows "is_admitted outcome \<longleftrightarrow> affordable (dl_budget l) (dl_state l) now wm peer bytes dumps"
    and "global_window (dl_state l') now wm =
      (let w = global_window (dl_state l) now wm in
       if is_admitted outcome then w\<lparr> w_bytes := w_bytes w + bytes, w_dumps := w_dumps w + dumps \<rparr> else w)"
    and "peer_window (dl_state l') q now wm =
      (let w = peer_window (dl_state l) q now wm in
       if is_admitted outcome \<and> q = peer then w\<lparr> w_bytes := w_bytes w + bytes, w_dumps := w_dumps w + dumps \<rparr> else w)"
proof -
  obtain s r where c: "charge_locked (dl_budget l) (evict_expired_peers (dl_state l) now wm) now wm peer bytes dumps = (s, r)"
    by fastforce
  have pos: "0 < wm" using assms(3,4) clamped_pos by simp
  have l': "dl_state l' = s" and adm: "is_admitted outcome \<longleftrightarrow> r = Ok ()"
    using assms(1,4,5) c by (auto simp: try_admit_work_def charge_locked_eq split: if_splits)
  note charge = ledger_charge [OF pos assms(2) c]
  show "is_admitted outcome \<longleftrightarrow> affordable (dl_budget l) (dl_state l) now wm peer bytes dumps"
    using charge(1) adm by simp
  show "global_window (dl_state l') now wm =
      (let w = global_window (dl_state l) now wm in
       if is_admitted outcome then w\<lparr> w_bytes := w_bytes w + bytes, w_dumps := w_dumps w + dumps \<rparr> else w)"
    using charge(2) adm l' by simp
  show "peer_window (dl_state l') q now wm =
      (let w = peer_window (dl_state l) q now wm in
       if is_admitted outcome \<and> q = peer then w\<lparr> w_bytes := w_bytes w + bytes, w_dumps := w_dumps w + dumps \<rparr> else w)"
    using charge(3) adm l' by simp
qed

text \<open>One admission of an enforced ledger. The request is admitted exactly when all four sums stay within their
  ceilings, computed without wrap-around over the windows rolled to the present; then both windows grow by
  exactly the request and nobody else's does; a refused request is charged to nobody. The sweep of stale peers
  changes no decision.\<close>

theorem derive_admission_exact:
  assumes "dl_enforced l" and "hm_ok (ls_per_peer (dl_state l))"
    and "derive_window (dl_budget l) = clamp_window d" and "wm = saturating_millis (derive_window (dl_budget l))"
    and "try_admit_work l now peer bytes dumps = (l', outcome)"
    shows "(is_admitted outcome \<longleftrightarrow> affordable (dl_budget l) (dl_state l) now wm peer bytes dumps) \<and>
    (global_window (dl_state l') now wm =
      (let w = global_window (dl_state l) now wm in
      if is_admitted outcome then w\<lparr> w_bytes := w_bytes w + bytes, w_dumps := w_dumps w + dumps \<rparr> else w)) \<and>
    (peer_window (dl_state l') q now wm =
      (let w = peer_window (dl_state l) q now wm in
      if is_admitted outcome \<and> q = peer then w\<lparr> w_bytes := w_bytes w + bytes, w_dumps := w_dumps w + dumps \<rparr> else w))"
  using derive_admission_exact_parts [OF assms] by blast

theorem derive_admission_exact_witness:
  "\<exists>l'. try_admit_work (derive_ledger_with_clock demo_derive_budget) 5 (NodeId [1]) 8 2 = (l', Admitted) \<and>
    is_admitted Admitted = affordable (dl_budget (derive_ledger_with_clock demo_derive_budget))
      (dl_state (derive_ledger_with_clock demo_derive_budget)) 5
      (saturating_millis (derive_window (dl_budget (derive_ledger_with_clock demo_derive_budget)))) (NodeId [1]) 8 2"
proof -
  let ?l = "derive_ledger_with_clock demo_derive_budget"
  have "snd (try_admit_work ?l 5 (NodeId [1]) 8 2) = Admitted"
    by (simp add: demo_derive_budget_def derive_ledger_with_clock_def try_admit_work_def charge_locked_def
      evict_expired_peers_def EVICT_SWEEP_THRESHOLD_def ledger_state_default_def within_def checked_add_def
      roll_if_expired_def window_expired_iff demo_window opened_at_def
      derive_budget_default_def hm_get_def Let_def)
  then obtain l' where l': "try_admit_work ?l 5 (NodeId [1]) 8 2 = (l', Admitted)" by (metis surjective_pairing)
  have "is_admitted Admitted = affordable (dl_budget ?l) (dl_state ?l) 5
      (saturating_millis (derive_window (dl_budget ?l))) (NodeId [1]) 8 2"
    by (rule derive_admission_exact [OF _ _ _ refl l', THEN conjunct1])
      (simp_all add: derive_ledger_with_clock_def ledger_start)
  then show ?thesis using l' by blast
qed

end
