(* ===== verification/Upload_Ledger.thy ===== *)
theory Upload_Ledger
  imports Budget
begin

text \<open>
  The upload rate ledger, \<^verbatim>\<open>daemon-core/src/upload_ledger.rs\<close>: one tumbling window of
  wire octets, charged after the fact with saturating arithmetic and consulted before an upload starts. It is
  proved to decide like a ledger that counts in unbounded integers.
\<close>

section \<open>Definitions\<close>

record rate_window =
  rw_start_millis :: u64
  rw_bytes :: u64

definition rate_opened_at :: "u64 \<Rightarrow> rate_window" where
  "rate_opened_at now = \<lparr> rw_start_millis = now, rw_bytes = 0 \<rparr>"

definition rate_roll_if_expired :: "rate_window \<Rightarrow> u64 \<Rightarrow> u64 \<Rightarrow> rate_window" where
  "rate_roll_if_expired w now window_millis =
     (if window_expired (rw_start_millis w) now window_millis then rate_opened_at now else w)"

record upload_rate_ledger =
  ul_budget :: upload_budget
  ul_enforced :: bool
  ul_state :: "rate_window option"

definition upload_with_clock :: "upload_budget \<Rightarrow> upload_rate_ledger" where
  "upload_with_clock budget =
     \<lparr> ul_budget = budget\<lparr> upload_window := clamp_window (upload_window budget) \<rparr>, ul_enforced = True, ul_state = None \<rparr>"

definition upload_unlimited :: upload_rate_ledger where
  "upload_unlimited = \<lparr> ul_budget = upload_budget_default, ul_enforced = False, ul_state = None \<rparr>"

definition window_millis :: "upload_rate_ledger \<Rightarrow> u64" where
  "window_millis l = of_nat (min (as_millis (upload_window (ul_budget l))) (2 ^ 64 - 1))"

definition current_window :: "upload_rate_ledger \<Rightarrow> u64 \<Rightarrow> rate_window" where
  "current_window l now =
     rate_roll_if_expired (case ul_state l of Some w \<Rightarrow> w | None \<Rightarrow> rate_opened_at now) now (window_millis l)"

definition admit_upload :: "upload_rate_ledger \<Rightarrow> u64 \<Rightarrow> upload_rate_ledger \<times> bool" where
  "admit_upload l now =
     (if \<not> ul_enforced l then (l, True)
      else let window = current_window l now
           in (l\<lparr> ul_state := Some window \<rparr>, rw_bytes window < max_bytes_per_window (ul_budget l)))"

definition charge_wire_octets :: "upload_rate_ledger \<Rightarrow> u64 \<Rightarrow> u64 \<Rightarrow> upload_rate_ledger" where
  "charge_wire_octets l now octets =
     (if \<not> ul_enforced l then l
      else let window = current_window l now
           in l\<lparr> ul_state := Some (window\<lparr> rw_bytes := saturating_add (rw_bytes window) octets \<rparr>) \<rparr>)"

definition window_bytes_used :: "upload_rate_ledger \<Rightarrow> u64 \<Rightarrow> upload_rate_ledger \<times> u64" where
  "window_bytes_used l now =
     (if \<not> ul_enforced l then (l, 0)
      else let window = current_window l now in (l\<lparr> ul_state := Some window \<rparr>, rw_bytes window))"

definition window_bytes_cap :: "upload_rate_ledger \<Rightarrow> u64" where
  "window_bytes_cap l = max_bytes_per_window (ul_budget l)"


section \<open>Reference ledger\<close>

text \<open>The same ledger over unbounded integers: the start of the window and the octets charged in it.\<close>

datatype upload_event = AdmitAt u64 | ChargeAt u64 u64 | UsedAt u64

fun event_time :: "upload_event \<Rightarrow> nat" where
  "event_time (AdmitAt now) = unat now"
| "event_time (ChargeAt now octets) = unat now"
| "event_time (UsedAt now) = unat now"

fun event_octets :: "upload_event \<Rightarrow> nat" where
  "event_octets (ChargeAt now octets) = unat octets"
| "event_octets _ = 0"

definition ref_window :: "nat \<Rightarrow> (nat \<times> nat) option \<Rightarrow> nat \<Rightarrow> nat \<times> nat" where
  "ref_window len st now =
     (case st of Some (start, octets) \<Rightarrow> if len \<le> now - start then (now, 0) else (start, octets) | None \<Rightarrow> (now, 0))"

definition ref_step :: "nat \<Rightarrow> (nat \<times> nat) option \<Rightarrow> upload_event \<Rightarrow> (nat \<times> nat) option" where
  "ref_step len st e = (let (start, octets) = ref_window len st (event_time e) in Some (start, octets + event_octets e))"

fun upload_step :: "upload_rate_ledger \<Rightarrow> upload_event \<Rightarrow> upload_rate_ledger" where
  "upload_step l (AdmitAt now) = fst (admit_upload l now)"
| "upload_step l (ChargeAt now octets) = charge_wire_octets l now octets"
| "upload_step l (UsedAt now) = fst (window_bytes_used l now)"

definition represents :: "nat \<times> nat \<Rightarrow> rate_window \<Rightarrow> bool" where
  "represents r w \<longleftrightarrow> unat (rw_start_millis w) = fst r \<and> unat (rw_bytes w) = min (snd r) (2 ^ 64 - 1)"

definition simulates :: "upload_budget \<Rightarrow> (nat \<times> nat) option \<Rightarrow> upload_rate_ledger \<Rightarrow> bool" where
  "simulates b st l \<longleftrightarrow> ul_budget l = b\<lparr> upload_window := clamp_window (upload_window b) \<rparr> \<and> ul_enforced l \<and>
     rel_option (represents) st (ul_state l)"

definition upload_len :: "upload_budget \<Rightarrow> nat" where
  "upload_len b = unat (saturating_millis (clamp_window (upload_window b)))"

lemma current_represents:
  assumes "simulates b st l"
  shows "represents (ref_window (upload_len b) st (unat now)) (current_window l now)"
proof -
  have len: "window_millis l = saturating_millis (clamp_window (upload_window b))"
    using assms by (simp add: simulates_def window_millis_def saturating_millis_def)
  have roll: "represents (ref_window (upload_len b) (Some r) (unat now)) (rate_roll_if_expired w now (window_millis l))"
    if "represents r w" for r w
    using that unfolding len
    by (cases r) (auto simp: represents_def ref_window_def rate_roll_if_expired_def window_expired_iff upload_len_def
        rate_opened_at_def)
  have fresh: "ref_window len (Some (unat now, 0)) (unat now) = ref_window len None (unat now)" for len
    by (simp add: ref_window_def)
  have "represents (unat now, 0) (rate_opened_at now)"
    by (simp add: represents_def rate_opened_at_def)
  from roll [OF this] show ?thesis
    using assms roll by (auto simp: simulates_def current_window_def fresh option_rel_Some2 split: option.splits)
qed

lemma upload_simulates:
  "simulates b st l \<Longrightarrow> simulates b (ref_step (upload_len b) st e) (upload_step l e)"
  using current_represents [of b st l]
  by (cases e) (auto simp: simulates_def admit_upload_def charge_wire_octets_def window_bytes_used_def Let_def ref_step_def
      represents_def unat_saturating_add split: prod.splits)

lemma upload_run_simulates:
  "simulates b st l \<Longrightarrow> simulates b (foldl (ref_step (upload_len b)) st es) (foldl upload_step l es)"
  by (induction es arbitrary: st l) (auto simp: upload_simulates)

lemma start_simulates: "simulates b None (upload_with_clock b)"
  by (simp add: simulates_def upload_with_clock_def)


section \<open>Property\<close>

text \<open>C30: After any sequence of admissions, charges and observations, the ledger decides exactly as one that counts
  the octets of the current window in unbounded integers: an upload is admitted if and only if the octets
  charged since the window opened are fewer than the cap, and the reported use is that count, clipped to the
  largest 64-bit value. The saturating addition never turns a refusal into an admission.\<close>

theorem upload_ledger_refines_counting:
  "let l = foldl upload_step (upload_with_clock b) es;
       octets = snd (ref_window (upload_len b) (foldl (ref_step (upload_len b)) None es) (unat now))
   in snd (admit_upload l now) = (octets < unat (window_bytes_cap l)) \<and>
      unat (snd (window_bytes_used l now)) = min octets (2 ^ 64 - 1)"
proof -
  let ?l = "foldl upload_step (upload_with_clock b) es"
  have sim: "simulates b (foldl (ref_step (upload_len b)) None es) ?l"
    by (rule upload_run_simulates) (rule start_simulates)
  have cap: "unat (max_bytes_per_window (ul_budget ?l)) < 2 ^ 64"
    using unat_bound [of "max_bytes_per_window (ul_budget ?l)"] by simp
  show ?thesis
    using current_represents [OF sim, of now] sim cap
    by (auto simp: admit_upload_def window_bytes_used_def Let_def represents_def simulates_def word_less_nat_alt
        window_bytes_cap_def)
qed

end
