(* ===== verification/Wire_Codec.thy ===== *)
theory Wire_Codec
  imports Hexfmt
begin

text \<open>
  The transfer codecs, \<^verbatim>\<open>peer-fabric/src/codec.rs\<close>: negotiation of the codec of a served
  NAR, the streaming compressor and the bounded streaming decompressor. The zstd library is a parameter: a
  call on an input and an output buffer either fails or says how much input it read, what it wrote, and whether
  a frame is still open.
\<close>

section \<open>Negotiation\<close>

definition CODEC_RAW :: u8 where "CODEC_RAW = 0"
definition CODEC_ZSTD :: u8 where "CODEC_ZSTD = 1"
definition ACCEPT_RAW :: u8 where "ACCEPT_RAW = push_bit 0 1"
definition ACCEPT_ZSTD :: u8 where "ACCEPT_ZSTD = push_bit 1 1"
definition ACCEPT_RAW_AND_ZSTD :: u8 where "ACCEPT_RAW_AND_ZSTD = (ACCEPT_RAW OR ACCEPT_ZSTD)"
definition ZSTD_WINDOW_LOG_MAX :: u32 where "ZSTD_WINDOW_LOG_MAX = 27"
definition DEFAULT_ZSTD_LEVEL :: int where "DEFAULT_ZSTD_LEVEL = 3"

datatype wire_codec = Raw | Zstd

fun wire :: "wire_codec \<Rightarrow> u8" where
  "wire Raw = CODEC_RAW"
| "wire Zstd = CODEC_ZSTD"

definition from_wire :: "u8 \<Rightarrow> wire_codec option" where
  "from_wire b = (if b = CODEC_RAW then Some Raw else if b = CODEC_ZSTD then Some Zstd else None)"

datatype codec_choice_reason = ZstdNegotiated | ClientDidNotOfferZstd | ServerZstdDisabled | BelowCompressThreshold

fun display_choice_reason :: "codec_choice_reason \<Rightarrow> string" where
  "display_choice_reason ZstdNegotiated = ''zstd negotiated (client offered, server enabled)''"
| "display_choice_reason ClientDidNotOfferZstd = ''raw fallback: client did not offer zstd''"
| "display_choice_reason ServerZstdDisabled = ''raw fallback: server zstd disabled by policy''"
| "display_choice_reason BelowCompressThreshold = ''raw fallback: nar below the compress threshold''"

record serve_codec_policy =
  zstd_enabled :: bool
  zstd_level :: int
  min_compress_bytes :: u64

definition serve_codec_policy_default :: serve_codec_policy where
  "serve_codec_policy_default = \<lparr> zstd_enabled = True, zstd_level = DEFAULT_ZSTD_LEVEL, min_compress_bytes = 1024 \<rparr>"

datatype no_common_codec = NoCommonCodec u8

fun display_no_common_codec :: "no_common_codec \<Rightarrow> string" where
  "display_no_common_codec (NoCommonCodec accept) =
     ''no common NAR codec: accept bitmask 0x'' @ encode [accept] @
     '' named no codec this server can serve (raw was not offered and zstd is unavailable)''"

definition negotiate_serve_codec ::
  "u8 \<Rightarrow> serve_codec_policy \<Rightarrow> u64 \<Rightarrow> (no_common_codec, wire_codec \<times> codec_choice_reason) result" where
  "negotiate_serve_codec accept policy raw_len =
     (let offers_raw = (accept AND ACCEPT_RAW) \<noteq> 0;
          offers_zstd = (accept AND ACCEPT_ZSTD) \<noteq> 0
      in if offers_zstd \<and> zstd_enabled policy \<and> raw_len \<ge> min_compress_bytes policy
         then Ok (Zstd, ZstdNegotiated)
         else if offers_raw
         then Ok (Raw, if \<not> zstd_enabled policy then ServerZstdDisabled
                       else if \<not> offers_zstd then ClientDidNotOfferZstd
                       else BelowCompressThreshold)
         else Err (NoCommonCodec accept))"


section \<open>The streaming library\<close>

text \<open>
  One call of the library: on the remaining input and the size of the output buffer it returns the next
  state, the number of bytes read, the bytes written and the hint of what remains (0 at the end of a frame).
  Its documented contract is that it stays within both buffers.
\<close>

type_synonym 'd zstd_call = "'d \<Rightarrow> bytes \<Rightarrow> nat \<Rightarrow> (string, 'd \<times> nat \<times> bytes \<times> nat) result"

definition within_buffers :: "'d zstd_call \<Rightarrow> bool" where
  "within_buffers run \<longleftrightarrow> (\<forall>d inp room d' taken out rem.
     run d inp room = Ok (d', taken, out, rem) \<longrightarrow> taken \<le> length inp \<and> length out \<le> room)"

text \<open>A chain of calls that works an input off: the states, the input left, the whole output and the last hint.\<close>

inductive zstd_chain :: "'d zstd_call \<Rightarrow> nat \<Rightarrow> 'd \<Rightarrow> bytes \<Rightarrow> 'd \<Rightarrow> bytes \<Rightarrow> bytes \<Rightarrow> nat \<Rightarrow> bool"
  for run room where
  one_call: "run d inp room = Ok (d', taken, out, rem) \<Longrightarrow> zstd_chain run room d inp d' (drop taken inp) out rem"
| next_call: "run d inp room = Ok (d', taken, out, rem) \<Longrightarrow> zstd_chain run room d' (drop taken inp) d'' rest out' rem' \<Longrightarrow>
    zstd_chain run room d inp d'' rest (out @ out') rem'"


section \<open>The compressor\<close>

definition ENCODE_BLOCK :: nat where "ENCODE_BLOCK = 128 * 1024"

partial_function (option) compress_block ::
  "'e zstd_call \<Rightarrow> 'e \<Rightarrow> bytes \<Rightarrow> bytes \<Rightarrow> ('e \<times> bytes \<times> (string, unit) result) option" where
  "compress_block run enc input out =
     (if input = [] then Some (enc, out, Ok ())
      else case run enc input ENCODE_BLOCK of
        Err error \<Rightarrow> Some (enc, out, Err error)
      | Ok (enc', taken, written, rem) \<Rightarrow>
          if taken = 0 \<and> length written = 0
          then Some (enc', out @ written, Err ''zstd streaming encoder made no progress on pending input'')
          else compress_block run enc' (drop taken input) (out @ written))"

text \<open>Closing the frame: the library flushes what it holds until nothing remains.\<close>

partial_function (option) encoder_finish ::
  "('e \<Rightarrow> nat \<Rightarrow> (string, 'e \<times> bytes \<times> nat) result) \<Rightarrow> 'e \<Rightarrow> bytes \<Rightarrow> (bytes \<times> (string, unit) result) option" where
  "encoder_finish flush enc out =
     (case flush enc ENCODE_BLOCK of
        Err error \<Rightarrow> Some (out, Err error)
      | Ok (enc', written, remaining) \<Rightarrow>
          if remaining = 0 then Some (out @ written, Ok ()) else encoder_finish flush enc' (out @ written))"


section \<open>The bounded decompressor\<close>

datatype decode_error =
    OutputTooLarge u64 nat
  | InputTooLarge u64 u64
  | ZstdError string
  | Truncated u64
  | TrailingInput nat
  | EmptyNar

fun display_decode_error :: "decode_error \<Rightarrow> string" where
  "display_decode_error (OutputTooLarge cap produced) =
     ''zstd decode output exceeded the signed NarSize cap '' @ decimal (unat cap) @ '' (produced '' @ decimal produced @
     ''); decompression bomb or lying peer, aborted mid-stream''"
| "display_decode_error (InputTooLarge cap consumed) =
     ''zstd compressed input '' @ decimal (unat consumed) @ '' exceeded the uncompressed-size cap '' @ decimal (unat cap) @
     ''; a compressed body larger than the raw nar is a lie, aborted''"
| "display_decode_error (ZstdError why) = ''zstd frame decode failed: '' @ why"
| "display_decode_error (Truncated consumed) =
     ''zstd stream ended mid-frame after '' @ decimal (unat consumed) @
     '' compressed bytes: truncated, rejected at the codec (not a complete frame)''"
| "display_decode_error (TrailingInput trailing) =
     ''zstd stream carried '' @ decimal trailing @
     '' trailing byte(s) after a complete frame: malformed framing (a well-formed transfer is exactly one frame), rejected''"
| "display_decode_error EmptyNar =
     ''zstd stream decoded to zero bytes (empty output or a skippable frame): a real NAR is never empty, rejected at the codec''"

definition DECODE_BLOCK :: nat where "DECODE_BLOCK = 128 * 1024"

record 'd bounded_zstd_decoder =
  bz_decoder :: "'d option"
  bz_buf :: bytes
  bz_output_cap :: u64
  bz_input_cap :: u64
  bz_consumed :: u64
  bz_started :: bool
  bz_frame_complete :: bool

definition zstd_compress_bound :: "u64 \<Rightarrow> u64" where
  "zstd_compress_bound src_len =
     saturating_add (saturating_add (saturating_add src_len (src_len div 128)) 512) 64"

text \<open>\<open>fresh\<close> creates a library decoder with a window limit.\<close>

definition with_window_log_max ::
  "(u32 \<Rightarrow> (string, 'd) result) \<Rightarrow> u64 \<Rightarrow> u32 \<Rightarrow> (decode_error, 'd bounded_zstd_decoder) result" where
  "with_window_log_max fresh output_cap window_log_max =
     and_then (map_err ZstdError (fresh window_log_max)) (\<lambda>decoder. Ok
       \<lparr> bz_decoder = Some decoder, bz_buf = [], bz_output_cap = output_cap,
         bz_input_cap = zstd_compress_bound output_cap, bz_consumed = 0, bz_started = False,
         bz_frame_complete = False \<rparr>)"

definition decoder_new :: "(u32 \<Rightarrow> (string, 'd) result) \<Rightarrow> u64 \<Rightarrow> (decode_error, 'd bounded_zstd_decoder) result" where
  "decoder_new fresh output_cap = with_window_log_max fresh output_cap ZSTD_WINDOW_LOG_MAX"

definition append_capped :: "bytes \<Rightarrow> u64 \<Rightarrow> bytes \<Rightarrow> (decode_error, bytes) result" where
  "append_capped buf cap data =
     (if data = [] then Ok buf
      else let would_total = length buf + length data
           in if would_total > unat cap then Err (OutputTooLarge cap would_total) else Ok (buf @ data))"

text \<open>
  The loop of \<open>push\<close>. The library decoder has been taken out of the state, so a return with an error leaves the
  state without one; the only normal exit puts it back.
\<close>

partial_function (option) push_loop ::
  "'d zstd_call \<Rightarrow> 'd bounded_zstd_decoder \<Rightarrow> 'd \<Rightarrow> bytes \<Rightarrow> nat \<Rightarrow>
    ('d bounded_zstd_decoder \<times> (decode_error, unit) result) option" where
  "push_loop run self decoder compressed offset =
     (if bz_frame_complete self \<and> offset < length compressed
      then Some (self, Err (TrailingInput (length compressed - offset)))
      else case run decoder (drop offset compressed) DECODE_BLOCK of
        Err error \<Rightarrow> Some (self, Err (ZstdError error))
      | Ok (decoder', taken, written, rem) \<Rightarrow>
          (case append_capped (bz_buf self) (bz_output_cap self) written of
             Err error \<Rightarrow> Some (self\<lparr> bz_started := True \<rparr>, Err error)
           | Ok buf \<Rightarrow>
               (let self' = self\<lparr> bz_started := True, bz_buf := buf, bz_frame_complete := (rem = 0) \<rparr>;
                    offset' = offset + taken;
                    more_input = offset' < length compressed;
                    output_full = (length written = DECODE_BLOCK)
                in if \<not> more_input \<and> (\<not> output_full \<or> bz_frame_complete self')
                   then Some (self'\<lparr> bz_decoder := Some decoder' \<rparr>, Ok ())
                   else if taken = 0 \<and> length written = 0
                   then Some (self', Err (ZstdError ''zstd decoder made no progress on pending input''))
                   else push_loop run self' decoder' compressed offset')))"

definition push ::
  "'d zstd_call \<Rightarrow> 'd bounded_zstd_decoder \<Rightarrow> bytes \<Rightarrow> ('d bounded_zstd_decoder \<times> (decode_error, unit) result) option" where
  "push run self compressed =
     (let self = self\<lparr> bz_consumed := saturating_add (bz_consumed self) (of_nat (length compressed)) \<rparr>
      in if bz_consumed self > bz_input_cap self
         then Some (self\<lparr> bz_decoder := None \<rparr>, Err (InputTooLarge (bz_input_cap self) (bz_consumed self)))
         else case bz_decoder self of
           None \<Rightarrow> Some (self, Err (ZstdError ''decoder already failed/finished''))
         | Some decoder \<Rightarrow> push_loop run (self\<lparr> bz_decoder := None \<rparr>) decoder compressed 0)"

definition decoder_finish :: "'d bounded_zstd_decoder \<Rightarrow> (decode_error, bytes) result" where
  "decoder_finish self =
     (case bz_decoder self of
        None \<Rightarrow> Err (ZstdError ''zstd decode already failed'')
      | Some _ \<Rightarrow>
          if \<not> bz_started self \<or> \<not> bz_frame_complete self then Err (Truncated (bz_consumed self))
          else if bz_buf self = [] then Err EmptyNar
          else Ok (bz_buf self))"

text \<open>A consumer of the decoder: every piece of the body is pushed, the first error ends it.\<close>

fun push_all ::
  "'d zstd_call \<Rightarrow> 'd bounded_zstd_decoder \<Rightarrow> bytes list \<Rightarrow> ('d bounded_zstd_decoder \<times> (decode_error, unit) result) option" where
  "push_all run self [] = Some (self, Ok ())"
| "push_all run self (piece # pieces) =
     (case push run self piece of
        None \<Rightarrow> None
      | Some (self', Err e) \<Rightarrow> Some (self', Err e)
      | Some (self', Ok _) \<Rightarrow> push_all run self' pieces)"

definition decode_body ::
  "'d zstd_call \<Rightarrow> (u32 \<Rightarrow> (string, 'd) result) \<Rightarrow> u64 \<Rightarrow> bytes list \<Rightarrow> (decode_error, bytes) result option" where
  "decode_body run fresh cap pieces =
     (case decoder_new fresh cap of
        Err e \<Rightarrow> Some (Err e)
      | Ok self \<Rightarrow> (case push_all run self pieces of
          None \<Rightarrow> None
        | Some (self', Err e) \<Rightarrow> Some (Err e)
        | Some (self', Ok _) \<Rightarrow> Some (decoder_finish self')))"


section \<open>Lemmas\<close>

lemma append_capped_Ok_iff:
  "append_capped buf cap data = Ok buf' \<longleftrightarrow> buf' = buf @ data \<and> (data = [] \<or> length buf' \<le> unat cap)"
  by (auto simp: append_capped_def Let_def)

text \<open>What one pass through the loop may leave behind.\<close>

definition capped :: "'d bounded_zstd_decoder \<Rightarrow> bool" where
  "capped self \<longleftrightarrow> length (bz_buf self) \<le> unat (bz_output_cap self)"

lemma within_buffersD:
  "within_buffers run \<Longrightarrow> run d inp room = Ok (d', taken, out, rem) \<Longrightarrow> taken \<le> length inp \<and> length out \<le> room"
  unfolding within_buffers_def by blast

definition static_part :: "'d bounded_zstd_decoder \<Rightarrow> u64 \<times> u64 \<times> u64" where
  "static_part self = (bz_output_cap self, bz_input_cap self, bz_consumed self)"

text \<open>The loop keeps the caps and the buffer within them; only a normal return puts the library decoder back.\<close>

definition loop_post ::
  "'d zstd_call \<Rightarrow> 'd bounded_zstd_decoder \<Rightarrow> 'd \<Rightarrow> bytes \<Rightarrow> 'd bounded_zstd_decoder \<Rightarrow> (decode_error, unit) result \<Rightarrow> bool" where
  "loop_post run self decoder input self' r \<longleftrightarrow>
     capped self' \<and> static_part self' = static_part self \<and> (bz_decoder self' = None \<longleftrightarrow> r \<noteq> Ok ()) \<and>
     (r = Ok () \<longrightarrow> bz_started self' \<and> (\<exists>d out rem. bz_decoder self' = Some d \<and> bz_buf self' = bz_buf self @ out \<and>
       bz_frame_complete self' = (rem = 0) \<and> zstd_chain run DECODE_BLOCK decoder input d [] out rem))"

lemma loop_post_step:
  assumes "run decoder input DECODE_BLOCK = Ok (d, taken, written, rem)"
    and "loop_post run (self\<lparr> bz_started := True, bz_buf := bz_buf self @ written, bz_frame_complete := (rem = 0) \<rparr>) d
      (drop taken input) self' r"
  shows "loop_post run self decoder input self' r"
proof (cases "r = Ok ()")
  case True
  then obtain d' out rem' where "bz_decoder self' = Some d'" "bz_buf self' = bz_buf self @ written @ out"
    "bz_frame_complete self' = (rem' = 0)" "zstd_chain run DECODE_BLOCK d (drop taken input) d' [] out rem'"
    using assms(2) by (auto simp: loop_post_def)
  moreover from this have "zstd_chain run DECODE_BLOCK decoder input d' [] (written @ out) rem'"
    using next_call [of run decoder input, OF assms(1)] by blast
  ultimately show ?thesis using assms(2) by (auto simp: loop_post_def static_part_def)
next
  case False
  then show ?thesis using assms(2) by (simp add: loop_post_def static_part_def)
qed

lemma loop_post_last:
  assumes "run decoder input DECODE_BLOCK = Ok (d, taken, written, rem)" "drop taken input = []"
    and "append_capped (bz_buf self) (bz_output_cap self) written = Ok buf" "capped self"
  shows "loop_post run self decoder input
    (self\<lparr> bz_started := True, bz_buf := buf, bz_frame_complete := (rem = 0), bz_decoder := Some d \<rparr>) (Ok ())"
proof -
  have chain: "zstd_chain run DECODE_BLOCK decoder input d [] written rem"
    using one_call [of run decoder input, OF assms(1)] assms(2) by simp
  have buf: "buf = bz_buf self @ written" "length buf \<le> unat (bz_output_cap self)"
    using assms(3,4) by (auto simp: append_capped_Ok_iff capped_def)
  show ?thesis unfolding loop_post_def using buf chain by (auto simp: static_part_def capped_def)
qed

lemma push_loop_step:
  assumes "\<not> (bz_frame_complete self \<and> offset < length compressed)"
    and "run decoder (drop offset compressed) DECODE_BLOCK = Ok (d, taken, written, rem)"
    and "append_capped (bz_buf self) (bz_output_cap self) written = Ok buf"
    and "self' = self\<lparr> bz_started := True, bz_buf := buf, bz_frame_complete := (rem = 0) \<rparr>"
  shows "push_loop run self decoder compressed offset =
    (if \<not> offset + taken < length compressed \<and> (length written \<noteq> DECODE_BLOCK \<or> bz_frame_complete self')
     then Some (self'\<lparr> bz_decoder := Some d \<rparr>, Ok ())
     else if taken = 0 \<and> length written = 0
     then Some (self', Err (ZstdError ''zstd decoder made no progress on pending input''))
     else push_loop run self' d compressed (offset + taken))"
  unfolding assms(4)
  by (subst push_loop.simps) (simp only: assms(1-3) if_False sum.case prod.case Let_def)

text \<open>Each pass reads, writes or ends: the input left and the room left bound the number of passes.\<close>

lemma push_loop_correct:
  assumes "within_buffers run" "capped self" "bz_decoder self = None"
  shows "\<exists>self' r. push_loop run self decoder compressed offset = Some (self', r) \<and>
    loop_post run self decoder (drop offset compressed) self' r"
  using assms(2,3)
proof (induction "(length compressed - offset) + (unat (bz_output_cap self) - length (bz_buf self))"
    arbitrary: self decoder offset rule: less_induct)
  case less
  consider (trailing) "bz_frame_complete self \<and> offset < length compressed"
    | (failed) error where "\<not> (bz_frame_complete self \<and> offset < length compressed)"
        "run decoder (drop offset compressed) DECODE_BLOCK = Err error"
    | (large) d taken written rem error where "\<not> (bz_frame_complete self \<and> offset < length compressed)"
        "run decoder (drop offset compressed) DECODE_BLOCK = Ok (d, taken, written, rem)"
        "append_capped (bz_buf self) (bz_output_cap self) written = Err error"
    | (go) d taken written rem buf where "\<not> (bz_frame_complete self \<and> offset < length compressed)"
        "run decoder (drop offset compressed) DECODE_BLOCK = Ok (d, taken, written, rem)"
        "append_capped (bz_buf self) (bz_output_cap self) written = Ok buf"
  proof (cases "run decoder (drop offset compressed) DECODE_BLOCK")
    case (Inr res)
    obtain d taken written rem where res: "res = (d, taken, written, rem)" by (cases res)
    show ?thesis using trailing large go Inr unfolding res
      by (cases "append_capped (bz_buf self) (bz_output_cap self) written") blast+
  qed (use trailing failed in blast)
  then show ?case
  proof cases
    case go
    let ?self = "self\<lparr> bz_started := True, bz_buf := buf, bz_frame_complete := (rem = 0) \<rparr>"
    have buf: "buf = bz_buf self @ written" "capped ?self" "bz_decoder ?self = None"
      using go(3) less.prems by (auto simp: append_capped_Ok_iff capped_def)
    have taken: "taken \<le> length compressed - offset"
      using within_buffersD [of run decoder, OF assms(1) go(2)] by simp
    note eq = push_loop_step [of self offset compressed run decoder d taken written rem buf, OF go refl]
    consider (last) "\<not> offset + taken < length compressed \<and> (length written \<noteq> DECODE_BLOCK \<or> bz_frame_complete ?self)"
      | (stuck) "\<not> (\<not> offset + taken < length compressed \<and> (length written \<noteq> DECODE_BLOCK \<or> bz_frame_complete ?self))" "taken = 0 \<and> length written = 0"
      | (again) "\<not> (\<not> offset + taken < length compressed \<and> (length written \<noteq> DECODE_BLOCK \<or> bz_frame_complete ?self))" "\<not> (taken = 0 \<and> length written = 0)"
      by blast
    then show ?thesis
    proof cases
      case last
      then show ?thesis
        using loop_post_last [of run decoder "drop offset compressed", OF go(2) _ go(3) less.prems(1)] unfolding eq by simp
    next
      case stuck
      have "loop_post run self decoder (drop offset compressed) ?self (Err e)" for e
        using buf(2,3) by (simp add: loop_post_def static_part_def)
      then show ?thesis unfolding eq if_not_P [OF stuck(1)] if_P [OF stuck(2)] by blast
    next
      case again
      have "(length compressed - (offset + taken)) + (unat (bz_output_cap ?self) - length (bz_buf ?self)) <
          (length compressed - offset) + (unat (bz_output_cap self) - length (bz_buf self))"
      proof (cases "taken = 0")
        case True
        then have "0 < length written" using again(2) by simp
        then show ?thesis using True buf(1,2) by (simp add: capped_def del: length_greater_0_conv)
      next
        case False
        then show ?thesis using taken buf(1) by simp
      qed
      from less.hyps [OF this buf(2,3), of d]
      obtain self' r where "push_loop run ?self d compressed (offset + taken) = Some (self', r)"
        and post: "loop_post run ?self d (drop (offset + taken) compressed) self' r" by blast
      moreover have "loop_post run self decoder (drop offset compressed) self' r"
        using loop_post_step [of run decoder "drop offset compressed" d taken written rem self self' r, OF go(2)] post buf(1) by (simp add: add.commute)
      ultimately show ?thesis using again unfolding eq by auto
    qed
  next
    case trailing
    then show ?thesis using less.prems by (subst push_loop.simps) (simp add: loop_post_def)
  next
    case failed
    then show ?thesis using less.prems by (subst push_loop.simps) (simp add: loop_post_def)
  next
    case large
    then show ?thesis using less.prems by (subst push_loop.simps) (simp add: loop_post_def static_part_def capped_def)
  qed
qed

text \<open>A push, and a sequence of pushes.\<close>

lemma push_returns:
  assumes "within_buffers run" "capped self"
  shows "push run self compressed \<noteq> None"
proof -
  let ?self = "self\<lparr> bz_consumed := saturating_add (bz_consumed self) (of_nat (length compressed)), bz_decoder := None \<rparr>"
  have "capped ?self" "bz_decoder ?self = None" using assms(2) by (simp_all add: capped_def)
  from push_loop_correct [OF assms(1) this] have "push_loop run ?self d compressed 0 \<noteq> None" for d by fastforce
  then show ?thesis by (auto simp: push_def Let_def split: option.splits)
qed

text \<open>Pieces worked off one after the other: the output, the last hint and the last library state.\<close>

inductive zstd_pieces :: "'d zstd_call \<Rightarrow> 'd \<Rightarrow> bytes list \<Rightarrow> 'd \<Rightarrow> bytes \<Rightarrow> nat option \<Rightarrow> bool" for run where
  no_piece: "zstd_pieces run d [] d [] None"
| add_piece: "zstd_pieces run d ps d' out hint \<Longrightarrow> zstd_chain run DECODE_BLOCK d' p d'' [] out' rem \<Longrightarrow>
    zstd_pieces run d (ps @ [p]) d'' (out @ out') (Some rem)"

definition decoder_inv ::
  "'d zstd_call \<Rightarrow> 'd \<Rightarrow> u64 \<Rightarrow> bytes list \<Rightarrow> 'd bounded_zstd_decoder \<Rightarrow> bool" where
  "decoder_inv run d0 cap ps self \<longleftrightarrow>
     capped self \<and> bz_output_cap self = cap \<and> bz_input_cap self = zstd_compress_bound cap \<and>
     unat (bz_consumed self) = min (sum_list (map length ps)) (2 ^ 64 - 1) \<and> bz_consumed self \<le> bz_input_cap self \<and>
     (\<exists>d hint. bz_decoder self = Some d \<and> zstd_pieces run d0 ps d (bz_buf self) hint \<and>
        bz_started self = (hint \<noteq> None) \<and> bz_frame_complete self = (hint = Some 0))"

lemma saturating_count:
  assumes "unat (c::u64) = min n (2 ^ 64 - 1)" "l < 2 ^ 64"
  shows "unat (saturating_add c (of_nat l)) = min (n + l) (2 ^ 64 - 1)"
proof -
  have "unat (of_nat l :: u64) = l" using assms(2) by (simp add: unat_of_nat)
  then show ?thesis using assms(1) by (simp add: unat_saturating_add)
qed

text \<open>The length of a slice is a 64-bit integer.\<close>

abbreviation "slices ps \<equiv> list_all (\<lambda>p. length p < 2 ^ 64) ps"

lemma push_inv:
  assumes "within_buffers run" "decoder_inv run d0 cap ps self" "length p < 2 ^ 64"
  shows "\<exists>self' r. push run self p = Some (self', r) \<and> (r = Ok () \<longrightarrow> decoder_inv run d0 cap (ps @ [p]) self')"
proof -
  let ?self = "self\<lparr> bz_consumed := saturating_add (bz_consumed self) (of_nat (length p)) \<rparr>"
  obtain d hint where d: "bz_decoder self = Some d" "zstd_pieces run d0 ps d (bz_buf self) hint"
    using assms(2) by (auto simp: decoder_inv_def)
  show ?thesis
  proof (cases "bz_input_cap ?self < bz_consumed ?self")
    case True
    then show ?thesis by (simp add: push_def)
  next
    case False
    have "capped (?self\<lparr> bz_decoder := None \<rparr>)" "bz_decoder (?self\<lparr> bz_decoder := None \<rparr>) = None"
      using assms(2) by (auto simp: decoder_inv_def capped_def)
    from push_loop_correct [OF assms(1) this, of d p 0]
    obtain self' r where loop: "push_loop run (?self\<lparr> bz_decoder := None \<rparr>) d p 0 = Some (self', r)"
      and post: "loop_post run (?self\<lparr> bz_decoder := None \<rparr>) d p self' r" by auto
    have "decoder_inv run d0 cap (ps @ [p]) self'" if ok: "r = Ok ()"
    proof -
      obtain d' out rem where "bz_decoder self' = Some d'" "bz_buf self' = bz_buf self @ out"
        "bz_frame_complete self' = (rem = 0)" "zstd_chain run DECODE_BLOCK d p d' [] out rem"
        and s: "bz_started self'" "static_part self' = static_part ?self" "capped self'"
        using post unfolding ok by (auto simp: loop_post_def static_part_def)
      then have "\<exists>d hint. bz_decoder self' = Some d \<and> zstd_pieces run d0 (ps @ [p]) d (bz_buf self') hint \<and>
        bz_started self' = (hint \<noteq> None) \<and> bz_frame_complete self' = (hint = Some 0)"
        using add_piece [OF d(2)] by (intro exI [of _ d'] exI [of _ "Some rem"]) simp
      then show ?thesis
        using s assms(2,3) False saturating_count [of "bz_consumed self" "sum_list (map length ps)" "length p"]
        by (simp add: decoder_inv_def static_part_def)
    qed
    then show ?thesis using loop False d(1) by (simp add: push_def Let_def)
  qed
qed

lemma push_all_inv:
  assumes "within_buffers run"
  shows "decoder_inv run d0 cap ps self \<Longrightarrow> slices qs \<Longrightarrow>
    \<exists>self' r. push_all run self qs = Some (self', r) \<and> (r = Ok () \<longrightarrow> decoder_inv run d0 cap (ps @ qs) self')"
proof (induction qs arbitrary: ps self)
  case (Cons q qs)
  obtain self' r where q: "push run self q = Some (self', r)" "r = Ok () \<Longrightarrow> decoder_inv run d0 cap (ps @ [q]) self'"
    using push_inv [OF assms Cons.prems(1), of q] Cons.prems(2) by auto
  show ?case
  proof (cases r)
    case (Inr u)
    then show ?thesis using Cons.IH [of "ps @ [q]" self'] Cons.prems(2) q by simp
  qed (use q in simp)
qed simp

lemma decode_body_cases:
  assumes "within_buffers run" "slices pieces"
  shows "\<exists>r. decode_body run fresh cap pieces = Some r \<and> (\<forall>body. r = Ok body \<longrightarrow>
    (\<exists>d d'. fresh ZSTD_WINDOW_LOG_MAX = Ok d \<and> zstd_pieces run d pieces d' body (Some 0)) \<and>
    body \<noteq> [] \<and> length body \<le> unat cap \<and>
    min (sum_list (map length pieces)) (2 ^ 64 - 1) \<le> unat (zstd_compress_bound cap))"
proof (cases "fresh ZSTD_WINDOW_LOG_MAX")
  case (Inl e)
  then show ?thesis by (simp add: decode_body_def decoder_new_def with_window_log_max_def)
next
  case (Inr d)
  let ?self = "\<lparr> bz_decoder = Some d, bz_buf = [], bz_output_cap = cap, bz_input_cap = zstd_compress_bound cap,
    bz_consumed = 0, bz_started = False, bz_frame_complete = False \<rparr>"
  have start: "decoder_new fresh cap = Ok ?self"
    using Inr by (simp add: decoder_new_def with_window_log_max_def)
  have "decoder_inv run d cap [] ?self"
    by (auto simp: decoder_inv_def capped_def intro!: no_piece)
  from push_all_inv [OF assms(1) this assms(2)] obtain self' r where
    all: "push_all run ?self pieces = Some (self', r)" "r = Ok () \<Longrightarrow> decoder_inv run d cap pieces self'" by auto
  show ?thesis
  proof (cases r)
    case (Inr u)
    then have inv: "decoder_inv run d cap pieces self'" using all(2) by simp
    moreover have "min (sum_list (map length pieces)) (2 ^ 64 - 1) \<le> unat (zstd_compress_bound cap)"
      using inv by (auto simp: decoder_inv_def word_le_nat_alt)
    ultimately show ?thesis using start all(1) Inr \<open>fresh _ = Ok d\<close>
      by (auto simp: decode_body_def decoder_finish_def decoder_inv_def capped_def split: option.splits)
  qed (use start all(1) in \<open>simp add: decode_body_def\<close>)
qed


section \<open>Properties\<close>

definition zstd_usable :: "u8 \<Rightarrow> serve_codec_policy \<Rightarrow> u64 \<Rightarrow> bool" where
  "zstd_usable accept policy raw_len \<longleftrightarrow>
     bit accept 1 \<and> zstd_enabled policy \<and> unat (min_compress_bytes policy) \<le> unat raw_len"

lemma negotiation_exact_parts:
  shows "(\<exists>why. negotiate_serve_codec accept policy raw_len = Ok (Zstd, why)) \<longleftrightarrow> zstd_usable accept policy raw_len"
    and "(\<exists>why. negotiate_serve_codec accept policy raw_len = Ok (Raw, why)) \<longleftrightarrow> \<not> zstd_usable accept policy raw_len \<and> bit accept 0"
    and "negotiate_serve_codec accept policy raw_len = Err (NoCommonCodec accept) \<longleftrightarrow> \<not> zstd_usable accept policy raw_len \<and> \<not> bit accept 0"
proof -
  have bits: "(accept AND ACCEPT_RAW) \<noteq> 0 \<longleftrightarrow> bit accept 0" "(accept AND ACCEPT_ZSTD) \<noteq> 0 \<longleftrightarrow> bit accept 1"
    by (simp_all add: ACCEPT_RAW_def ACCEPT_ZSTD_def and_exp_eq_0_iff_not_bit [of _ 0, simplified]
        and_exp_eq_0_iff_not_bit [of _ 1, simplified])
  show "(\<exists>why. negotiate_serve_codec accept policy raw_len = Ok (Zstd, why)) \<longleftrightarrow> zstd_usable accept policy raw_len"
    and "(\<exists>why. negotiate_serve_codec accept policy raw_len = Ok (Raw, why)) \<longleftrightarrow> \<not> zstd_usable accept policy raw_len \<and> bit accept 0"
    and "negotiate_serve_codec accept policy raw_len = Err (NoCommonCodec accept) \<longleftrightarrow> \<not> zstd_usable accept policy raw_len \<and> \<not> bit accept 0"
    unfolding zstd_usable_def negotiate_serve_codec_def Let_def bits by (auto simp: word_le_nat_alt)
qed

text \<open>The negotiated codec is one the client offered; zstd is chosen exactly when it is offered, enabled and the NAR
  reaches the threshold; the request is refused exactly when neither codec can be used, and then the answer
  carries the offer.\<close>

theorem negotiation_exact:
    shows "((\<exists>why. negotiate_serve_codec accept policy raw_len = Ok (Zstd, why)) \<longleftrightarrow> zstd_usable accept policy raw_len) \<and>
    ((\<exists>why. negotiate_serve_codec accept policy raw_len = Ok (Raw, why)) \<longleftrightarrow> \<not> zstd_usable accept policy raw_len \<and> bit accept 0) \<and>
    (negotiate_serve_codec accept policy raw_len = Err (NoCommonCodec accept) \<longleftrightarrow> \<not> zstd_usable accept policy raw_len \<and> \<not> bit accept 0)"
  using negotiation_exact_parts by blast

text \<open>C34: Whatever bytes a peer sends and however they are cut into pieces, decompression returns: the loop cannot run
  forever, because every pass reads input, writes output that fits the declared size, or ends in an error. All
  that is relied on is that the library stays within the buffers it is given.\<close>

theorem decompression_terminates:
  assumes "within_buffers run" "list_all (\<lambda>p. length p < 2 ^ 64) pieces"
  shows "\<exists>r. decode_body run fresh cap pieces = Some r"
  using decode_body_cases [OF assms] by blast

lemma decompression_bounded_parts:
  assumes "within_buffers run" "list_all (\<lambda>p. length p < 2 ^ 64) pieces"
    and "decode_body run fresh cap pieces = Some (Ok body)"
  shows "body \<noteq> []" and "length body \<le> unat cap"
    and "min (sum_list (map length pieces)) (2 ^ 64 - 1) \<le> unat (zstd_compress_bound cap)"
    and "\<exists>d d'. fresh ZSTD_WINDOW_LOG_MAX = Ok d \<and> zstd_pieces run d pieces d' body (Some 0)"
  using decode_body_cases [OF assms(1,2), of fresh cap] assms(3) by auto

text \<open>A body that is accepted is not empty, is no longer than the declared size, came from no more compressed input
  than the compression bound of that size, and is exactly what the library wrote while it worked off all the
  pieces, in order, ending at the end of a frame.\<close>

theorem decompression_bounded:
  assumes "within_buffers run" "list_all (\<lambda>p. length p < 2 ^ 64) pieces"
    and "decode_body run fresh cap pieces = Some (Ok body)"
    shows "(body \<noteq> []) \<and>
    (length body \<le> unat cap) \<and>
    (min (sum_list (map length pieces)) (2 ^ 64 - 1) \<le> unat (zstd_compress_bound cap)) \<and>
    (\<exists>d d'. fresh ZSTD_WINDOW_LOG_MAX = Ok d \<and> zstd_pieces run d pieces d' body (Some 0))"
  using decompression_bounded_parts [OF assms] by blast

text \<open>A stand-in library: it copies its input, and a zero byte ends the frame.\<close>

definition copy_call :: "unit zstd_call" where
  "copy_call d inp room =
     (let out = take room inp in Ok (d, length out, out, if 0 \<in> set out then 0 else 1))"

lemma copy_call_within: "within_buffers copy_call"
  by (auto simp: within_buffers_def copy_call_def Let_def)

lemma copy_call_body: "decode_body copy_call (\<lambda>_. Ok ()) 10 [[7, 8], [9, 0]] = Some (Ok [7, 8, 9, 0])"
  by (simp add: decode_body_def decoder_new_def with_window_log_max_def push_def push_loop.simps copy_call_def
      append_capped_def saturating_add_def zstd_compress_bound_def decoder_finish_def DECODE_BLOCK_def)

theorem decompression_terminates_witness:
  "\<exists>r. decode_body copy_call (\<lambda>_. Ok ()) 10 [[7, 8], [9, 0]] = Some r"
  by (rule decompression_terminates [OF copy_call_within]) simp

theorem decompression_bounded_witness:
  "decode_body copy_call (\<lambda>_. Ok ()) 10 [[7, 8], [9, 0]] = Some (Ok [7, 8, 9, 0]) \<and> length [7, 8, 9, 0 :: u8] \<le> unat (10 :: u64)"
  using decompression_bounded [OF copy_call_within _ copy_call_body] copy_call_body by simp

end
