(* ===== verification/Nar_V4.thy ===== *)
theory Nar_V4
  imports Wire_Codec
begin

text \<open>
  The body of a \<^verbatim>\<open>/nar/4\<close> transfer, \<^verbatim>\<open>fabric-libp2p/src/nar_v4.rs\<close>: a Bao tree sent in
  preorder, hash pairs of the inner nodes and leaves of up to 64 KiB, closed by a marker. The geometry of the
  tree (\<^verbatim>\<open>bao-tree\<close>), the BLAKE3 primitives and zstd are parameters. An error value carries what the message
  of the code prints.
\<close>

section \<open>Parameters\<close>

type_synonym hash = bytes

text \<open>The BLAKE3 primitives the code calls.\<close>

record blake3_ops =
  b3_hash :: "bytes \<Rightarrow> hash"
  b3_finalize_non_root :: "u64 \<Rightarrow> bytes \<Rightarrow> hash"
  b3_merge_root :: "hash \<Rightarrow> hash \<Rightarrow> hash"
  b3_merge_non_root :: "hash \<Rightarrow> hash \<Rightarrow> hash"

text \<open>The items of a full-range response, and the geometry that lists them.\<close>

datatype bao_chunk =
    Parent u64 bool bool bool
  | Leaf u64 nat bool

record bao_geometry =
  response_iter :: "u64 \<Rightarrow> bao_chunk list"
  outboard_size :: "u64 \<Rightarrow> u64"
  chunk_to_bytes :: "u64 \<Rightarrow> u64"

record ('d, 'e) zstd_lib =
  zl_decoder :: "u32 \<Rightarrow> (string, 'd) result"
  zl_decode :: "'d zstd_call"
  zl_encoder :: "int \<Rightarrow> u64 option \<Rightarrow> (string, 'e) result"
  zl_encode :: "'e zstd_call"
  zl_flush :: "'e \<Rightarrow> nat \<Rightarrow> (string, 'e \<times> bytes \<times> nat) result"


section \<open>Errors, readers\<close>

datatype accounting_error =
    ShortResponse u64 u64
  | LeafPrefixOverflow
  | ProofOverflow
  | ShortBody u64 u64
  | RawLeafBytesDiffer u64 u64
  | BodyOverflow
  | ResponseOverflow
  | ExchangeOverflow
  | InconsistentAccounting

datatype v4_error =
    SourceTooLong u64
  | OutboardLength nat nat
  | CountOverflow string u64 nat
  | OmittedParent u64
  | ProofUnderflow
  | ParentMismatch u64
  | LeafUnderflow
  | LeafMismatch u64
  | UnconsumedHashes
  | NonMonotonic u64 u64
  | ReplayShort u64 u64
  | ReplayLong u64
  | LostPrefix
  | EncodedLeafOverBound nat
  | ReadingParent u64 v4_error
  | ReadingRawLeaf nat v4_error
  | ReadingLeafLength v4_error
  | ReadingEncodedLeaf nat v4_error
  | LeafLengthOverBound nat
  | SkippableFrame
  | DecodeFailed decode_error
  | LeafDecodedTo nat nat
  | OverDeclared u64 u64
  | BadMarker bytes
  | TrailingByte
  | VerifiedOther u64 u64
  | Eof
  | Io string

text \<open>A stream: the bytes it will deliver, then either a clean end or a failure.\<close>

record reader =
  rd_bytes :: bytes
  rd_failure :: "string option"

definition read_exact :: "nat \<Rightarrow> reader \<Rightarrow> (v4_error, bytes \<times> reader) result" where
  "read_exact n rd =
     (if n \<le> length (rd_bytes rd) then Ok (take n (rd_bytes rd), rd\<lparr> rd_bytes := drop n (rd_bytes rd) \<rparr>)
      else Err (case rd_failure rd of None \<Rightarrow> Eof | Some why \<Rightarrow> Io why))"

definition read_extra :: "reader \<Rightarrow> (v4_error, nat) result" where
  "read_extra rd =
     (if rd_bytes rd \<noteq> [] then Ok 1
      else case rd_failure rd of None \<Rightarrow> Ok 0 | Some why \<Rightarrow> Err (Io why))"


section \<open>Wire accounting\<close>

definition COMPLETE_MARKER :: bytes where "COMPLETE_MARKER = [0x4E, 0x34, 0x4F, 0x4B]"

record nar_v4_wire_accounting =
  request_protocol_bytes :: u64
  response_header_bytes :: u64
  proof_bytes :: u64
  leaf_count :: u64
  leaf_length_prefix_bytes :: u64
  encoded_leaf_bytes :: u64
  complete_marker_bytes :: u64
  response_body_bytes :: u64
  response_protocol_bytes :: u64
  exchange_protocol_bytes :: u64

definition REQUEST_PROTOCOL_BYTES :: u64 where "REQUEST_PROTOCOL_BYTES = 33"
definition RESPONSE_HEADER_BYTES :: u64 where "RESPONSE_HEADER_BYTES = 10"
definition COMPLETE_MARKER_BYTES :: u64 where "COMPLETE_MARKER_BYTES = of_nat (length COMPLETE_MARKER)"

definition validate :: "nar_v4_wire_accounting \<Rightarrow> (accounting_error, unit) result" where
  "validate acc =
     (let framed = Option.bind (checked_add (proof_bytes acc) (leaf_length_prefix_bytes acc))
            (\<lambda>n. checked_add n (encoded_leaf_bytes acc));
          body = Option.bind framed (\<lambda>n. checked_add n (complete_marker_bytes acc));
          response = Option.bind body (\<lambda>n. checked_add n (response_header_bytes acc));
          exchange = Option.bind response (\<lambda>n. checked_add n (request_protocol_bytes acc))
      in if body \<noteq> Some (response_body_bytes acc) \<or> response \<noteq> Some (response_protocol_bytes acc) \<or>
            exchange \<noteq> Some (exchange_protocol_bytes acc) \<or> request_protocol_bytes acc \<noteq> REQUEST_PROTOCOL_BYTES \<or>
            response_header_bytes acc \<noteq> RESPONSE_HEADER_BYTES \<or> complete_marker_bytes acc \<noteq> COMPLETE_MARKER_BYTES
         then Err InconsistentAccounting else Ok ())"

definition div_ceil :: "u64 \<Rightarrow> u64 \<Rightarrow> u64" where
  "div_ceil a b = (if a mod b = 0 then a div b else a div b + 1)"

definition from_framed_bao_bytes ::
  "bao_geometry \<Rightarrow> u64 \<Rightarrow> wire_codec \<Rightarrow> u64 \<Rightarrow> (accounting_error, nar_v4_wire_accounting) result" where
  "from_framed_bao_bytes G raw_size codec framed_bao_bytes =
     (let proof = outboard_size G raw_size;
          leaves = max (div_ceil raw_size (64 * 1024)) 1
      in and_then (case codec of Raw \<Rightarrow> Ok 0 | Zstd \<Rightarrow> ok_or LeafPrefixOverflow (checked_mul leaves 4)) (\<lambda>prefix.
         and_then (ok_or ProofOverflow (checked_add proof prefix)) (\<lambda>fixed_body.
         and_then (ok_or (ShortBody framed_bao_bytes fixed_body) (checked_sub framed_bao_bytes fixed_body)) (\<lambda>encoded.
         if codec = Raw \<and> encoded \<noteq> raw_size then Err (RawLeafBytesDiffer encoded raw_size)
         else
         and_then (ok_or BodyOverflow (checked_add framed_bao_bytes COMPLETE_MARKER_BYTES)) (\<lambda>body.
         and_then (ok_or ResponseOverflow (checked_add RESPONSE_HEADER_BYTES body)) (\<lambda>response.
         and_then (ok_or ExchangeOverflow (checked_add REQUEST_PROTOCOL_BYTES response)) (\<lambda>exchange.
         let accounting = \<lparr> request_protocol_bytes = REQUEST_PROTOCOL_BYTES,
               response_header_bytes = RESPONSE_HEADER_BYTES, proof_bytes = proof, leaf_count = leaves,
               leaf_length_prefix_bytes = prefix, encoded_leaf_bytes = encoded,
               complete_marker_bytes = COMPLETE_MARKER_BYTES, response_body_bytes = body,
               response_protocol_bytes = response, exchange_protocol_bytes = exchange \<rparr>
         in and_then (validate accounting) (\<lambda>_. Ok accounting))))))))"

text \<open>The fixed framing is ten and four bytes, so its checked addition is their sum.\<close>

definition from_response_protocol_bytes ::
  "bao_geometry \<Rightarrow> u64 \<Rightarrow> wire_codec \<Rightarrow> u64 \<Rightarrow> (accounting_error, nar_v4_wire_accounting) result" where
  "from_response_protocol_bytes G raw_size codec response =
     (let fixed = RESPONSE_HEADER_BYTES + COMPLETE_MARKER_BYTES
      in and_then (ok_or (ShortResponse response fixed) (checked_sub response fixed)) (\<lambda>framed.
         from_framed_bao_bytes G raw_size codec framed))"


section \<open>Leaves, hashes\<close>

definition MAX_ENCODED_LEAF_BYTES :: nat where
  "MAX_ENCODED_LEAF_BYTES = 64 * 1024 + (64 * 1024) div 128 + 512 + 64"

definition ZSTD_MIN_WINDOW_LOG :: nat where "ZSTD_MIN_WINDOW_LOG = 10"

text \<open>The number of bits of an integer: the width of its type less its leading zeros.\<close>

fun bit_length :: "nat \<Rightarrow> nat" where
  "bit_length n = (if n = 0 then 0 else Suc (bit_length (n div 2)))"

declare bit_length.simps [simp del]

definition leaf_window_log_max :: "nat \<Rightarrow> u32" where
  "leaf_window_log_max raw_size =
     (let geometry_log = if raw_size \<le> 1 then 0 else bit_length (raw_size - 1)
      in of_nat (min (max geometry_log ZSTD_MIN_WINDOW_LOG) 16))"

definition checked_add_bytes :: "u64 \<Rightarrow> nat \<Rightarrow> string \<Rightarrow> (v4_error, u64) result" where
  "checked_add_bytes count increment context =
     ok_or (CountOverflow context count increment) (checked_add count (of_nat increment))"

definition hash_subtree :: "blake3_ops \<Rightarrow> u64 \<Rightarrow> bytes \<Rightarrow> bool \<Rightarrow> hash" where
  "hash_subtree B start_byte data is_root =
     (if is_root then b3_hash B data else b3_finalize_non_root B start_byte data)"

definition parent_hash :: "blake3_ops \<Rightarrow> hash \<Rightarrow> hash \<Rightarrow> bool \<Rightarrow> hash" where
  "parent_hash B left right is_root =
     (if is_root then b3_merge_root B left right else b3_merge_non_root B left right)"

definition parse_hash_pair :: "bytes \<Rightarrow> hash \<times> hash" where
  "parse_hash_pair pair = (take 32 pair, drop 32 pair)"

definition u32_from_le_bytes :: "bytes \<Rightarrow> u32" where
  "u32_from_le_bytes bs = of_nat (nat_of_be (rev bs))"

definition u32_to_le_bytes :: "u32 \<Rightarrow> bytes" where
  "u32_to_le_bytes x = rev (be_of_nat 4 (unat x))"

definition encoded_leaf :: "('d, 'e) zstd_lib \<Rightarrow> bytes \<Rightarrow> int \<Rightarrow> (v4_error, bytes) result option" where
  "encoded_leaf Z raw level =
     (case zl_encoder Z level (Some (of_nat (length raw))) of
        Err why \<Rightarrow> Some (Err (Io why))
      | Ok enc \<Rightarrow> (case compress_block (zl_encode Z) enc raw [0, 0, 0, 0] of
          None \<Rightarrow> None
        | Some (enc', framed, Err why) \<Rightarrow> Some (Err (Io why))
        | Some (enc', framed, Ok _) \<Rightarrow> (case encoder_finish (zl_flush Z) enc' framed of
            None \<Rightarrow> None
          | Some (framed, Err why) \<Rightarrow> Some (Err (Io why))
          | Some (framed, Ok _) \<Rightarrow> Some (
              if length framed < 4 then Err LostPrefix
              else let encoded_len = length framed - 4
                   in if encoded_len > MAX_ENCODED_LEAF_BYTES then Err (EncodedLeafOverBound encoded_len)
                      else Ok (u32_to_le_bytes (of_nat encoded_len) @ drop 4 framed)))))"


section \<open>Loops over the items\<close>

text \<open>A loop whose body may return an error, or not return at all (\<open>None\<close>).\<close>

fun try_each :: "('s \<Rightarrow> 'i \<Rightarrow> ('e, 's) result option) \<Rightarrow> 's \<Rightarrow> 'i list \<Rightarrow> ('e, 's) result option" where
  "try_each f s [] = Some (Ok s)"
| "try_each f s (i # items) =
     (case f s i of None \<Rightarrow> None | Some (Err e) \<Rightarrow> Some (Err e) | Some (Ok s') \<Rightarrow> try_each f s' items)"


section \<open>The server: validated encoding\<close>

record outboard =
  ob_size :: u64
  ob_root :: hash
  ob_load :: "u64 \<Rightarrow> (v4_error, (hash \<times> hash) option) result"

text \<open>The preorder outboard of a source read once: proof data of the expected size, and nothing left to read.\<close>

definition create_outboard ::
  "bao_geometry \<Rightarrow> (reader \<Rightarrow> u64 \<Rightarrow> (v4_error, outboard \<times> bytes \<times> reader) result) \<Rightarrow> reader \<Rightarrow> u64 \<Rightarrow>
    (v4_error, outboard \<times> bytes) result" where
  "create_outboard G create_sized rd raw_size =
     and_then (create_sized rd raw_size) (\<lambda>(outboard, data, rd).
     and_then (read_extra rd) (\<lambda>extra.
     if extra \<noteq> 0 then Err (SourceTooLong raw_size)
     else let expected = unat (outboard_size G (ob_size outboard))
          in if length data \<noteq> expected then Err (OutboardLength (length data) expected) else Ok (outboard, data)))"

record ('w, 'src) encode_state =
  es_expected :: "hash list"
  es_writer :: 'w
  es_source :: 'src
  es_raw_bytes :: u64
  es_wire_bytes :: u64

type_synonym 'w wire_sink = "'w \<Rightarrow> bytes \<Rightarrow> (v4_error, 'w) result"
type_synonym 'src read_at = "'src \<Rightarrow> u64 \<Rightarrow> nat \<Rightarrow> (v4_error, bytes \<times> 'src) result"

definition encode_parent ::
  "blake3_ops \<Rightarrow> outboard \<Rightarrow> 'w wire_sink \<Rightarrow> ('w, 'src) encode_state \<Rightarrow> u64 \<Rightarrow> bool \<Rightarrow> bool \<Rightarrow> bool \<Rightarrow>
    (v4_error, ('w, 'src) encode_state) result" where
  "encode_parent B outboard write_owned st node is_root left right =
     and_then (ob_load outboard node) (\<lambda>loaded.
     and_then (ok_or (OmittedParent node) loaded) (\<lambda>(left_hash, right_hash).
     (case es_expected st of
        [] \<Rightarrow> Err ProofUnderflow
      | wanted # expected \<Rightarrow>
          if parent_hash B left_hash right_hash is_root \<noteq> wanted then Err (ParentMismatch node)
          else let expected = (if right then right_hash # expected else expected);
                   expected = (if left then left_hash # expected else expected);
                   proof = left_hash @ right_hash
               in and_then (checked_add_bytes (es_wire_bytes st) (length proof) ''Bao proof wire byte count'') (\<lambda>next_wire_bytes.
                  and_then (write_owned (es_writer st) proof) (\<lambda>writer.
                  Ok (st\<lparr> es_expected := expected, es_writer := writer, es_wire_bytes := next_wire_bytes \<rparr>))))))"

definition send_leaf ::
  "('d, 'e) zstd_lib \<Rightarrow> 'w wire_sink \<Rightarrow> wire_codec \<Rightarrow> int \<Rightarrow> 'w \<Rightarrow> u64 \<Rightarrow> bytes \<Rightarrow> (v4_error, 'w \<times> u64) result option" where
  "send_leaf Z write_owned codec level writer wire_bytes raw =
     (case codec of
        Raw \<Rightarrow> Some (
          and_then (checked_add_bytes wire_bytes (length raw) ''raw leaf wire byte count'') (\<lambda>next_wire_bytes.
          and_then (write_owned writer raw) (\<lambda>writer. Ok (writer, next_wire_bytes))))
      | Zstd \<Rightarrow> map_option (\<lambda>r. and_then r (\<lambda>framed.
          and_then (checked_add_bytes wire_bytes (length framed) ''zstd leaf wire byte count'') (\<lambda>next_wire_bytes.
          and_then (write_owned writer framed) (\<lambda>writer. Ok (writer, next_wire_bytes)))))
          (encoded_leaf Z raw level))"

definition encode_leaf ::
  "bao_geometry \<Rightarrow> blake3_ops \<Rightarrow> ('d, 'e) zstd_lib \<Rightarrow> 'src read_at \<Rightarrow> 'w wire_sink \<Rightarrow> wire_codec \<Rightarrow> int \<Rightarrow>
    ('w, 'src) encode_state \<Rightarrow> u64 \<Rightarrow> nat \<Rightarrow> bool \<Rightarrow> (v4_error, ('w, 'src) encode_state) result option" where
  "encode_leaf G B Z read_exact_at write_owned codec level st start_chunk leaf_size is_root =
     (let start_byte = chunk_to_bytes G start_chunk
      in case read_exact_at (es_source st) start_byte leaf_size of
           Err e \<Rightarrow> Some (Err e)
         | Ok (raw, source) \<Rightarrow>
         (case es_expected st of
            [] \<Rightarrow> Some (Err LeafUnderflow)
          | wanted # expected \<Rightarrow>
              if hash_subtree B start_byte raw is_root \<noteq> wanted then Some (Err (LeafMismatch start_byte))
              else case checked_add_bytes (es_raw_bytes st) (length raw) ''Bao authenticated raw byte count'' of
                Err e \<Rightarrow> Some (Err e)
              | Ok next_raw_bytes \<Rightarrow>
                  map_option (\<lambda>r. and_then r (\<lambda>(writer, wire_bytes).
                    Ok (st\<lparr> es_expected := expected, es_writer := writer, es_source := source,
                            es_raw_bytes := next_raw_bytes, es_wire_bytes := wire_bytes \<rparr>)))
                  (send_leaf Z write_owned codec level (es_writer st) (es_wire_bytes st) raw)))"

fun encode_item ::
  "bao_geometry \<Rightarrow> blake3_ops \<Rightarrow> ('d, 'e) zstd_lib \<Rightarrow> outboard \<Rightarrow> 'src read_at \<Rightarrow> 'w wire_sink \<Rightarrow> wire_codec \<Rightarrow> int \<Rightarrow>
    ('w, 'src) encode_state \<Rightarrow> bao_chunk \<Rightarrow> (v4_error, ('w, 'src) encode_state) result option" where
  "encode_item G B Z outboard read_exact_at write_owned codec level st (Parent node is_root left right) =
     Some (encode_parent B outboard write_owned st node is_root left right)"
| "encode_item G B Z outboard read_exact_at write_owned codec level st (Leaf start_chunk leaf_size is_root) =
     encode_leaf G B Z read_exact_at write_owned codec level st start_chunk leaf_size is_root"

definition encode_validated ::
  "bao_geometry \<Rightarrow> blake3_ops \<Rightarrow> ('d, 'e) zstd_lib \<Rightarrow> 'src read_at \<Rightarrow> 'w wire_sink \<Rightarrow> ('w \<Rightarrow> (v4_error, 'w) result) \<Rightarrow>
    'src \<Rightarrow> outboard \<Rightarrow> 'w \<Rightarrow> wire_codec \<Rightarrow> int \<Rightarrow> (v4_error, ('w \<times> u64 \<times> u64) \<times> 'src) result option" where
  "encode_validated G B Z read_exact_at write_owned flush source outboard writer codec level =
     map_option (\<lambda>r. and_then r (\<lambda>st.
       if es_expected st \<noteq> [] then Err UnconsumedHashes
       else and_then (flush (es_writer st)) (\<lambda>writer.
         Ok ((writer, es_raw_bytes st, es_wire_bytes st), es_source st))))
     (try_each (encode_item G B Z outboard read_exact_at write_owned codec level)
       \<lparr> es_expected = [ob_root outboard], es_writer = writer, es_source = source, es_raw_bytes = 0, es_wire_bytes = 0 \<rparr>
       (response_iter G (ob_size outboard)))"

text \<open>A forward-only source: its position must be the offset asked for.\<close>

type_synonym monotonic = "reader \<times> u64"

definition monotonic_read_exact_at :: "monotonic read_at" where
  "monotonic_read_exact_at src position n =
     (let (rd, expected) = src
      in if n = 0 then Ok ([], src)
         else if position \<noteq> expected then Err (NonMonotonic position expected)
         else and_then (read_exact n rd) (\<lambda>(bytes, rd).
              and_then (checked_add_bytes expected (length bytes) ''monotonic Bao replay offset'') (\<lambda>next_position.
              Ok (bytes, (rd, next_position)))))"

definition encode_validated_reader ::
  "bao_geometry \<Rightarrow> blake3_ops \<Rightarrow> ('d, 'e) zstd_lib \<Rightarrow> 'w wire_sink \<Rightarrow> ('w \<Rightarrow> (v4_error, 'w) result) \<Rightarrow> reader \<Rightarrow>
    outboard \<Rightarrow> 'w \<Rightarrow> wire_codec \<Rightarrow> int \<Rightarrow> (v4_error, 'w \<times> u64 \<times> u64) result option" where
  "encode_validated_reader G B Z write_owned flush rd outboard writer codec level =
     (let raw_size = ob_size outboard
      in map_option (\<lambda>r. and_then r (\<lambda>(res, (rd, consumed)).
           if consumed \<noteq> raw_size then Err (ReplayShort consumed raw_size)
           else and_then (read_extra rd) (\<lambda>extra.
             if extra \<noteq> 0 then Err (ReplayLong raw_size) else Ok res)))
         (encode_validated G B Z monotonic_read_exact_at write_owned flush (rd, 0) outboard writer codec level))"

text \<open>The sink that collects in memory.\<close>

definition vec_write_owned :: "bytes wire_sink" where
  "vec_write_owned writer bytes = Ok (writer @ bytes)"

definition vec_flush :: "bytes \<Rightarrow> (v4_error, bytes) result" where
  "vec_flush writer = Ok writer"


section \<open>The client: verified decoding\<close>

definition is_skippable :: "bytes \<Rightarrow> bool" where
  "is_skippable encoded =
     (4 \<le> length encoded \<and> 0x184D2A50 \<le> u32_from_le_bytes (take 4 encoded) \<and> u32_from_le_bytes (take 4 encoded) \<le> 0x184D2A5F)"

definition read_encoded :: "reader \<Rightarrow> (v4_error, bytes \<times> reader) result" where
  "read_encoded rd =
     and_then (map_err ReadingLeafLength (read_exact 4 rd)) (\<lambda>(len, rd).
     let encoded_len = unat (u32_from_le_bytes len)
     in if encoded_len > MAX_ENCODED_LEAF_BYTES then Err (LeafLengthOverBound encoded_len)
        else and_then (map_err (ReadingEncodedLeaf encoded_len) (read_exact encoded_len rd)) (\<lambda>(encoded, rd).
          if is_skippable encoded then Err SkippableFrame else Ok (encoded, rd)))"

definition decode_leaf_frame :: "('d, 'e) zstd_lib \<Rightarrow> nat \<Rightarrow> bytes \<Rightarrow> (v4_error, bytes) result option" where
  "decode_leaf_frame Z leaf_size encoded =
     (case with_window_log_max (zl_decoder Z) (of_nat leaf_size) (leaf_window_log_max leaf_size) of
        Err e \<Rightarrow> Some (Err (DecodeFailed e))
      | Ok decoder \<Rightarrow> (case push (zl_decode Z) decoder encoded of
          None \<Rightarrow> None
        | Some (decoder', Err e) \<Rightarrow> Some (Err (DecodeFailed e))
        | Some (decoder', Ok _) \<Rightarrow> Some (
            and_then (case decoder_finish decoder' of
                Ok raw \<Rightarrow> Ok raw
              | Err e \<Rightarrow> if e = EmptyNar \<and> leaf_size = 0 then Ok [] else Err (DecodeFailed e)) (\<lambda>raw.
            if length raw \<noteq> leaf_size then Err (LeafDecodedTo (length raw) leaf_size) else Ok raw))))"

definition read_leaf ::
  "('d, 'e) zstd_lib \<Rightarrow> reader \<Rightarrow> nat \<Rightarrow> wire_codec \<Rightarrow> (v4_error, bytes \<times> reader) result option" where
  "read_leaf Z rd leaf_size codec =
     (case codec of
        Raw \<Rightarrow> Some (map_err (ReadingRawLeaf leaf_size) (read_exact leaf_size rd))
      | Zstd \<Rightarrow> (case read_encoded rd of
          Err e \<Rightarrow> Some (Err e)
        | Ok (encoded, rd) \<Rightarrow> map_option (\<lambda>r. and_then r (\<lambda>raw. Ok (raw, rd))) (decode_leaf_frame Z leaf_size encoded)))"

text \<open>The consumer of the leaves has a state of its own, which an error return keeps.\<close>

type_synonym 'c on_leaf = "'c \<Rightarrow> bytes \<Rightarrow> 'c \<times> (v4_error, unit) result"

record 'c decode_state =
  ds_reader :: reader
  ds_expected :: "hash list"
  ds_final_leaf :: "bytes option"
  ds_raw_bytes :: u64
  ds_consumer :: 'c

definition decode_parent ::
  "blake3_ops \<Rightarrow> 'c decode_state \<Rightarrow> u64 \<Rightarrow> bool \<Rightarrow> bool \<Rightarrow> bool \<Rightarrow> (v4_error, 'c decode_state) result" where
  "decode_parent B st node is_root left right =
     and_then (map_err (ReadingParent node) (read_exact 64 (ds_reader st))) (\<lambda>(pair, rd).
     let (left_hash, right_hash) = parse_hash_pair pair
     in case ds_expected st of
          [] \<Rightarrow> Err ProofUnderflow
        | wanted # expected \<Rightarrow>
            if parent_hash B left_hash right_hash is_root \<noteq> wanted then Err (ParentMismatch node)
            else let expected = (if right then right_hash # expected else expected);
                     expected = (if left then left_hash # expected else expected)
                 in Ok (st\<lparr> ds_reader := rd, ds_expected := expected \<rparr>))"

definition accept_leaf ::
  "bao_geometry \<Rightarrow> blake3_ops \<Rightarrow> u64 \<Rightarrow> 'c on_leaf \<Rightarrow> 'c decode_state \<Rightarrow> u64 \<Rightarrow> bool \<Rightarrow> bytes \<Rightarrow>
    (v4_error \<times> 'c, 'c decode_state) result" where
  "accept_leaf G B raw_size on_leaf st start_chunk is_root raw =
     (let start_byte = chunk_to_bytes G start_chunk
      in case ds_expected st of
           [] \<Rightarrow> Err (LeafUnderflow, ds_consumer st)
         | wanted # expected \<Rightarrow>
             if hash_subtree B start_byte raw is_root \<noteq> wanted then Err (LeafMismatch start_byte, ds_consumer st)
             else case checked_add_bytes (ds_raw_bytes st) (length raw) ''Bao verified raw byte count'' of
               Err e \<Rightarrow> Err (e, ds_consumer st)
             | Ok next_raw_bytes \<Rightarrow>
                 if next_raw_bytes > raw_size then Err (OverDeclared next_raw_bytes raw_size, ds_consumer st)
                 else let st = st\<lparr> ds_expected := expected, ds_raw_bytes := next_raw_bytes \<rparr>
                      in if next_raw_bytes = raw_size then Ok (st\<lparr> ds_final_leaf := Some raw \<rparr>)
                         else case on_leaf (ds_consumer st) raw of
                           (consumer, Err e) \<Rightarrow> Err (e, consumer)
                         | (consumer, Ok _) \<Rightarrow> Ok (st\<lparr> ds_consumer := consumer \<rparr>))"

fun decode_item ::
  "bao_geometry \<Rightarrow> blake3_ops \<Rightarrow> ('d, 'e) zstd_lib \<Rightarrow> u64 \<Rightarrow> wire_codec \<Rightarrow> 'c on_leaf \<Rightarrow> 'c decode_state \<Rightarrow> bao_chunk \<Rightarrow>
    (v4_error \<times> 'c, 'c decode_state) result option" where
  "decode_item G B Z raw_size codec on_leaf st (Parent node is_root left right) =
     Some (map_err (\<lambda>e. (e, ds_consumer st)) (decode_parent B st node is_root left right))"
| "decode_item G B Z raw_size codec on_leaf st (Leaf start_chunk leaf_size is_root) =
     map_option (\<lambda>r. and_then (map_err (\<lambda>e. (e, ds_consumer st)) r) (\<lambda>(raw, rd).
       accept_leaf G B raw_size on_leaf (st\<lparr> ds_reader := rd \<rparr>) start_chunk is_root raw))
     (read_leaf Z (ds_reader st) leaf_size codec)"

definition decode_close :: "u64 \<Rightarrow> 'c on_leaf \<Rightarrow> 'c decode_state \<Rightarrow> (v4_error \<times> 'c, u64 \<times> 'c) result" where
  "decode_close raw_size on_leaf st =
     (let c = ds_consumer st
      in if ds_expected st \<noteq> [] then Err (UnconsumedHashes, c)
         else and_then (map_err (\<lambda>e. (e, c)) (read_exact (length COMPLETE_MARKER) (ds_reader st))) (\<lambda>(marker, rd).
           if marker \<noteq> COMPLETE_MARKER then Err (BadMarker marker, c)
           else and_then (map_err (\<lambda>e. (e, c)) (read_extra rd)) (\<lambda>extra.
             if extra \<noteq> 0 then Err (TrailingByte, c)
             else if ds_raw_bytes st \<noteq> raw_size then Err (VerifiedOther (ds_raw_bytes st) raw_size, c)
             else case ds_final_leaf st of
               None \<Rightarrow> Ok (ds_raw_bytes st, c)
             | Some final_leaf \<Rightarrow> (case on_leaf c final_leaf of
                 (c, Err e) \<Rightarrow> Err (e, c)
               | (c, Ok _) \<Rightarrow> Ok (ds_raw_bytes st, c)))))"

definition decode_verified ::
  "bao_geometry \<Rightarrow> blake3_ops \<Rightarrow> ('d, 'e) zstd_lib \<Rightarrow> reader \<Rightarrow> hash \<Rightarrow> u64 \<Rightarrow> wire_codec \<Rightarrow> 'c on_leaf \<Rightarrow> 'c \<Rightarrow>
    (v4_error \<times> 'c, u64 \<times> 'c) result option" where
  "decode_verified G B Z rd root raw_size codec on_leaf c =
     map_option (\<lambda>r. and_then r (decode_close raw_size on_leaf))
     (try_each (decode_item G B Z raw_size codec on_leaf)
       \<lparr> ds_reader = rd, ds_expected = [root], ds_final_leaf = None, ds_raw_bytes = 0, ds_consumer = c \<rparr>
       (response_iter G raw_size))"

end
