(* ===== verification/Nar_V4_Auth.thy ===== *)
theory Nar_V4_Auth
  imports Nar_V4
begin

text \<open>
  What the \<^verbatim>\<open>/nar/4\<close> framing guarantees: the client accepts only bodies that hash to the root it asked for,
  hands on only authenticated prefixes even when a transfer fails, and always returns; the server emits only
  what it has validated; what the server emits, the client accepts.
\<close>

section \<open>Geometry\<close>

text \<open>
  The documented shape of a full-range response: the preorder of a binary tree whose leaves, in order, tile
  the body. A leaf is a start chunk and a size.
\<close>

datatype bao_shape = Tip u64 nat | Fork u64 bao_shape bao_shape

fun preorder :: "bool \<Rightarrow> bao_shape \<Rightarrow> bao_chunk list" where
  "preorder is_root (Tip start n) = [Leaf start n is_root]"
| "preorder is_root (Fork node l r) = Parent node is_root True True # preorder False l @ preorder False r"

fun body_size :: "bao_shape \<Rightarrow> nat" where
  "body_size (Tip start n) = n"
| "body_size (Fork node l r) = body_size l + body_size r"

fun no_empty_leaf :: "bao_shape \<Rightarrow> bool" where
  "no_empty_leaf (Tip start n) \<longleftrightarrow> 0 < n"
| "no_empty_leaf (Fork node l r) \<longleftrightarrow> no_empty_leaf l \<and> no_empty_leaf r"

text \<open>Where the leaves of a subtree that starts at a byte must start.\<close>

fun tiles :: "bao_geometry \<Rightarrow> nat \<Rightarrow> bao_shape \<Rightarrow> bool" where
  "tiles G a (Tip start n) \<longleftrightarrow> unat (chunk_to_bytes G start) = a"
| "tiles G a (Fork node l r) \<longleftrightarrow> tiles G a l \<and> tiles G (a + body_size l) r"

fun is_tip :: "bao_shape \<Rightarrow> bool" where
  "is_tip (Tip start n) = True"
| "is_tip (Fork node l r) = False"

definition bao_shaped :: "bao_geometry \<Rightarrow> u64 \<Rightarrow> bao_shape \<Rightarrow> bool" where
  "bao_shaped G raw_size t \<longleftrightarrow> response_iter G raw_size = preorder True t \<and> body_size t = unat raw_size \<and>
     tiles G 0 t \<and> (no_empty_leaf t \<or> is_tip t)"

text \<open>The root of a body over a shape.\<close>

fun tree_hash :: "bao_geometry \<Rightarrow> blake3_ops \<Rightarrow> bool \<Rightarrow> bao_shape \<Rightarrow> bytes \<Rightarrow> hash" where
  "tree_hash G B is_root (Tip start n) y = hash_subtree B (chunk_to_bytes G start) y is_root"
| "tree_hash G B is_root (Fork node l r) y =
     parent_hash B (tree_hash G B False l (take (body_size l) y)) (tree_hash G B False r (drop (body_size l) y)) is_root"


section \<open>Helpers\<close>

lemma try_each_append:
  "try_each f s (xs @ ys) = (case try_each f s xs of Some (Ok s') \<Rightarrow> try_each f s' ys | r \<Rightarrow> r)"
  by (induction xs arbitrary: s) (auto split: option.split sum.split)

lemma read_exact_Ok:
  "read_exact n rd = Ok (bs, rd') \<longleftrightarrow>
    n \<le> length (rd_bytes rd) \<and> bs = take n (rd_bytes rd) \<and> rd' = rd\<lparr> rd_bytes := drop n (rd_bytes rd) \<rparr>"
  by (auto simp: read_exact_def)

lemma map_err_Err_iff: "map_err g r = Err e \<longleftrightarrow> (\<exists>x. r = Err x \<and> e = g x)"
  by (cases r) auto

lemma checked_add_bytes_Ok:
  assumes "checked_add_bytes a n ctx = Ok b" "n < 2 ^ 64"
  shows "unat b = unat a + n"
  using assms by (auto simp: checked_add_bytes_def checked_add_Some_iff unat_of_nat)

lemma read_leaf_length: "read_leaf Z rd n codec = Some (Ok (raw, rd')) \<Longrightarrow> length raw = n"
  by (cases codec) (auto simp: read_leaf_def read_exact_Ok decode_leaf_frame_def split: sum.splits option.splits if_splits prod.splits)


section \<open>The client\<close>

text \<open>The leaves offered to the consumer.\<close>

definition offered :: "'c on_leaf \<Rightarrow> 'c \<Rightarrow> bytes list \<Rightarrow> 'c" where
  "offered on_leaf c ls = foldl (\<lambda>c l. fst (on_leaf c l)) c ls"

lemma offered_simps [simp]: "offered f c [] = c" "offered f c (ls @ [l]) = fst (f (offered f c ls) l)"
  by (simp_all add: offered_def)

definition held :: "'c decode_state \<Rightarrow> bytes" where
  "held st = (case ds_final_leaf st of None \<Rightarrow> [] | Some l \<Rightarrow> l)"

text \<open>The verified bytes so far: handed on, or held back because they complete the body.\<close>

definition verified :: "'c on_leaf \<Rightarrow> 'c \<Rightarrow> u64 \<Rightarrow> bytes \<Rightarrow> 'c decode_state \<Rightarrow> bool" where
  "verified on_leaf c raw_size v st \<longleftrightarrow>
     (\<exists>ls. ds_consumer st = offered on_leaf c ls \<and> v = concat ls @ held st) \<and> unat (ds_raw_bytes st) = length v \<and>
     (if ds_final_leaf st = None then length v < unat raw_size \<or> v = []
      else length v = unat raw_size \<and> (held st \<noteq> [] \<or> v = []))"

text \<open>A consumer that was offered a prefix, and not the whole body.\<close>

definition handed_prefix :: "'c on_leaf \<Rightarrow> 'c \<Rightarrow> u64 \<Rightarrow> bytes \<Rightarrow> 'c \<Rightarrow> bool" where
  "handed_prefix on_leaf c raw_size v c' \<longleftrightarrow>
     (\<exists>ls rest. c' = offered on_leaf c ls \<and> v = concat ls @ rest \<and> (length (concat ls) < unat raw_size \<or> concat ls = []))"

lemma verified_handed: "verified f c n v st \<Longrightarrow> handed_prefix f c n (v @ w) (ds_consumer st)"
proof -
  assume v: "verified f c n v st"
  then obtain ls where ls: "ds_consumer st = offered f c ls" "v = concat ls @ held st" by (auto simp: verified_def)
  have "length v = length (concat ls) + length (held st)" using ls(2) by simp
  moreover have "length (held st) > 0 \<longleftrightarrow> held st \<noteq> []" by simp
  ultimately have "length (concat ls) < unat n \<or> v = []"
    using v unfolding verified_def by (cases "ds_final_leaf st") (auto simp del: length_greater_0_conv length_concat)
  then show ?thesis using ls unfolding handed_prefix_def by auto
qed

lemma verified_reader [simp]:
  "verified f c n v (st\<lparr> ds_reader := rd \<rparr>) = verified f c n v st"
  "verified f c n v (st\<lparr> ds_reader := rd, ds_expected := hs \<rparr>) = verified f c n v st"
  by (simp_all add: verified_def held_def)

lemma handed_prefix_append: "handed_prefix f c n v c' \<Longrightarrow> handed_prefix f c n (v @ w) c'"
  unfolding handed_prefix_def by (metis append.assoc)

lemma decode_parent_Ok:
  assumes "decode_parent B st node is_root True True = Ok st'"
  obtains lh rh stk rd where "length lh = 32" "length rh = 32" "ds_expected st = parent_hash B lh rh is_root # stk"
    "read_exact 64 (ds_reader st) = Ok (lh @ rh, rd)" "st' = st\<lparr> ds_reader := rd, ds_expected := lh # rh # stk \<rparr>"
proof (cases "read_exact 64 (ds_reader st)")
  case (Inr res)
  obtain pair rd where pair: "read_exact 64 (ds_reader st) = Ok (pair, rd)" using Inr by (cases res) simp
  then have len: "length (take 32 pair) = 32" "length (drop 32 pair) = 32" by (auto simp: read_exact_Ok)
  show ?thesis
  proof (cases "ds_expected st")
    case (Cons w stk)
    then show ?thesis using assms pair len
      by (intro that [of "take 32 pair" "drop 32 pair" stk rd])
        (auto simp: decode_parent_def parse_hash_pair_def Let_def split: if_splits)
  qed (use assms pair in \<open>simp add: decode_parent_def parse_hash_pair_def\<close>)
qed (use assms in \<open>simp add: decode_parent_def\<close>)

lemma accept_leaf_Ok:
  assumes ok: "accept_leaf G B raw_size f st start is_root raw = Ok st'" and v: "verified f c raw_size v st"
    and len: "length raw < 2 ^ 64" and final: "0 < length raw \<or> ds_final_leaf st = None"
  shows "verified f c raw_size (v @ raw) st'"
    "ds_expected st = hash_subtree B (chunk_to_bytes G start) raw is_root # ds_expected st'"
proof -
  obtain m where m: "checked_add_bytes (ds_raw_bytes st) (length raw) ''Bao verified raw byte count'' = Ok m"
    and le: "m \<le> raw_size"
    and exp: "ds_expected st = hash_subtree B (chunk_to_bytes G start) raw is_root # ds_expected st'"
    and st': "m = raw_size \<and> st' = st\<lparr> ds_expected := ds_expected st', ds_raw_bytes := m, ds_final_leaf := Some raw \<rparr> \<or>
      m \<noteq> raw_size \<and> (\<exists>c'. f (ds_consumer st) raw = (c', Ok ()) \<and>
        st' = st\<lparr> ds_expected := ds_expected st', ds_raw_bytes := m, ds_consumer := c' \<rparr>)"
    using ok by (auto simp: accept_leaf_def Let_def not_less split: list.splits if_splits sum.splits prod.splits)
  have sum_eq: "unat m = length v + length raw"
    using checked_add_bytes_Ok [OF m len] v by (simp add: verified_def)
  have none: "ds_final_leaf st = None"
    using final le sum_eq v by (auto simp: verified_def word_le_nat_alt split: if_splits)
  obtain ls where ls: "ds_consumer st = offered f c ls" "v = concat ls"
    using v none by (auto simp: verified_def held_def)
  show "ds_expected st = hash_subtree B (chunk_to_bytes G start) raw is_root # ds_expected st'" by (rule exp)
  from st' show "verified f c raw_size (v @ raw) st'"
  proof
    assume a: "m = raw_size \<and> st' = st\<lparr> ds_expected := ds_expected st', ds_raw_bytes := m, ds_final_leaf := Some raw \<rparr>"
    then have "ds_final_leaf st' = Some raw" "ds_raw_bytes st' = m" "ds_consumer st' = ds_consumer st"
      by (metis decode_state.select_convs decode_state.surjective decode_state.update_convs)+
    moreover have "raw \<noteq> [] \<or> v = []" using v none a sum_eq by (auto simp: verified_def)
    ultimately show ?thesis using a ls sum_eq by (auto simp: verified_def held_def)
  next
    assume a: "m \<noteq> raw_size \<and> (\<exists>c'. f (ds_consumer st) raw = (c', Ok ()) \<and>
        st' = st\<lparr> ds_expected := ds_expected st', ds_raw_bytes := m, ds_consumer := c' \<rparr>)"
    then obtain c' where c': "f (ds_consumer st) raw = (c', Ok ())" 
      "st' = st\<lparr> ds_expected := ds_expected st', ds_raw_bytes := m, ds_consumer := c' \<rparr>" by blast
    then have "ds_final_leaf st' = None" "ds_raw_bytes st' = m" "ds_consumer st' = c'"
      using none by (metis decode_state.select_convs decode_state.surjective decode_state.update_convs)+
    moreover have "length v + length raw < unat raw_size"
      using a le sum_eq by (simp add: word_le_nat_alt word_unat_eq_iff)
    ultimately show ?thesis using c'(1) ls sum_eq
      by (auto simp: verified_def held_def intro!: exI [of _ "ls @ [raw]"])
  qed
qed

lemma decode_leaf_item:
  assumes "decode_item G B Z raw_size codec f st (Leaf start n is_root) = Some (Ok st')"
    and "verified f c raw_size v st" "n < 2 ^ 64" "0 < n \<or> ds_final_leaf st = None"
  obtains raw where "length raw = n" "verified f c raw_size (v @ raw) st'"
    "ds_expected st = hash_subtree B (chunk_to_bytes G start) raw is_root # ds_expected st'"
proof -
  obtain raw rd where "read_leaf Z (ds_reader st) n codec = Some (Ok (raw, rd))"
    and acc: "accept_leaf G B raw_size f (st\<lparr> ds_reader := rd \<rparr>) start is_root raw = Ok st'"
    using assms(1) by auto
  then have n: "length raw = n" by (simp add: read_leaf_length)
  have "verified f c raw_size v (st\<lparr> ds_reader := rd \<rparr>)"
    using assms(2) by simp
  from accept_leaf_Ok [OF acc this] n assms(3,4) show ?thesis by (intro that [of raw]) auto
qed

text \<open>A subtree that is worked off has delivered bytes that hash to what the stack expected of it.\<close>

lemma decode_subtree_sound:
  assumes "try_each (decode_item G B Z raw_size codec f) st (preorder is_root t) = Some (Ok st')"
    and "verified f c raw_size v st" "body_size t < 2 ^ 64" "no_empty_leaf t \<or> is_tip t \<and> ds_final_leaf st = None"
  shows "\<exists>y. length y = body_size t \<and> verified f c raw_size (v @ y) st' \<and>
    ds_expected st = tree_hash G B is_root t y # ds_expected st'"
  using assms
proof (induction t arbitrary: is_root st st' v)
  case (Tip start n)
  have item: "decode_item G B Z raw_size codec f st (Leaf start n is_root) = Some (Ok st')"
    using Tip.prems(1) by (simp del: decode_item.simps split: option.splits sum.splits)
  obtain raw where "length raw = n" "verified f c raw_size (v @ raw) st'"
    "ds_expected st = hash_subtree B (chunk_to_bytes G start) raw is_root # ds_expected st'"
    using Tip.prems(3,4) by (auto intro: decode_leaf_item [OF item Tip.prems(2)])
  then show ?case by auto
next
  case (Fork node l r)
  then obtain st1 st2 where p: "decode_parent B st node is_root True True = Ok st1"
    and l: "try_each (decode_item G B Z raw_size codec f) st1 (preorder False l) = Some (Ok st2)"
    and r: "try_each (decode_item G B Z raw_size codec f) st2 (preorder False r) = Some (Ok st')"
    by (auto simp: try_each_append split: option.splits sum.splits)
  obtain lh rh stk rd where e: "ds_expected st = parent_hash B lh rh is_root # stk"
    and st1: "st1 = st\<lparr> ds_reader := rd, ds_expected := lh # rh # stk \<rparr>"
    by (rule decode_parent_Ok [OF p])
  have v1: "verified f c raw_size v st1"
    using Fork.prems(2) st1 by simp
  obtain y where y: "length y = body_size l" "verified f c raw_size (v @ y) st2"
    "ds_expected st1 = tree_hash G B False l y # ds_expected st2"
    using Fork.IH(1) [OF l v1] Fork.prems(3,4) by auto
  obtain z where z: "length z = body_size r" "verified f c raw_size ((v @ y) @ z) st'"
    "ds_expected st2 = tree_hash G B False r z # ds_expected st'"
    using Fork.IH(2) [OF r y(2)] Fork.prems(3,4) by auto
  show ?case
    using y z e st1 by (intro exI [of _ "y @ z"]) simp
qed

text \<open>The body a root stands for, and no other preimage of its nodes.\<close>

fun no_second_preimage :: "bao_geometry \<Rightarrow> blake3_ops \<Rightarrow> bool \<Rightarrow> bao_shape \<Rightarrow> bytes \<Rightarrow> bool" where
  "no_second_preimage G B is_root (Tip start n) y \<longleftrightarrow>
     (\<forall>z. length z = n \<longrightarrow> hash_subtree B (chunk_to_bytes G start) z is_root = hash_subtree B (chunk_to_bytes G start) y is_root \<longrightarrow> z = y)"
| "no_second_preimage G B is_root (Fork node l r) y \<longleftrightarrow>
     (let lh = tree_hash G B False l (take (body_size l) y); rh = tree_hash G B False r (drop (body_size l) y) in
      (\<forall>a b. length a = 32 \<longrightarrow> length b = 32 \<longrightarrow> parent_hash B a b is_root = parent_hash B lh rh is_root \<longrightarrow> a = lh \<and> b = rh) \<and>
      no_second_preimage G B False l (take (body_size l) y) \<and> no_second_preimage G B False r (drop (body_size l) y))"

lemma accept_leaf_Err:
  assumes "accept_leaf G B raw_size f st start is_root raw = Err (e, c')" "verified f c raw_size v st"
    "ds_expected st = hash_subtree B (chunk_to_bytes G start) y is_root # stk"
    "hash_subtree B (chunk_to_bytes G start) raw is_root = hash_subtree B (chunk_to_bytes G start) y is_root \<Longrightarrow> raw = y"
    "length raw < 2 ^ 64"
  shows "handed_prefix f c raw_size (v @ y) c'"
proof (cases "c' = ds_consumer st")
  case True
  then show ?thesis using assms(2) by (simp add: verified_handed)
next
  case False
  then have y: "raw = y" and c': "c' = fst (f (ds_consumer st) raw)"
    and m: "\<exists>m. checked_add_bytes (ds_raw_bytes st) (length raw) ''Bao verified raw byte count'' = Ok m \<and> m \<le> raw_size \<and> m \<noteq> raw_size"
    using assms(1,3,4)
    by (auto simp: accept_leaf_def Let_def not_less split: if_splits sum.splits prod.splits)
  have "length v + length raw < unat raw_size"
    using assms(2) m checked_add_bytes_Ok [OF _ assms(5)]
    by (auto simp: verified_def word_le_nat_alt word_unat_eq_iff)
  then have none: "ds_final_leaf st = None" using assms(2) by (auto simp: verified_def split: if_splits)
  then obtain ls where "ds_consumer st = offered f c ls" "v = concat ls"
    using assms(2) by (auto simp: verified_def held_def)
  then have "c' = offered f c (ls @ [y])" "v @ y = concat (ls @ [y]) @ []" "length (concat (ls @ [y])) < unat raw_size"
    using c' y \<open>length v + length raw < unat raw_size\<close> by simp_all
  then show ?thesis unfolding handed_prefix_def by blast
qed

lemma no_second_preimage_fork:
  assumes "no_second_preimage G B is_root (Fork node l r) y" "length a = 32" "length b = 32"
    "parent_hash B a b is_root = tree_hash G B is_root (Fork node l r) y"
  shows "a = tree_hash G B False l (take (body_size l) y)" "b = tree_hash G B False r (drop (body_size l) y)"
  using assms by (simp_all add: Let_def)

text \<open>A subtree whose hash is that of a known body either delivers that body or, when it fails, a prefix of it.\<close>

lemma decode_subtree_prefix:
  assumes "try_each (decode_item G B Z raw_size codec f) st (preorder is_root t) = Some res"
    and "verified f c raw_size v st" "body_size t < 2 ^ 64" "no_empty_leaf t \<or> is_tip t \<and> ds_final_leaf st = None"
    and "length y = body_size t" "ds_expected st = tree_hash G B is_root t y # stk" "no_second_preimage G B is_root t y"
  shows "(\<forall>st'. res = Ok st' \<longrightarrow> verified f c raw_size (v @ y) st' \<and> ds_expected st' = stk) \<and>
    (\<forall>e c'. res = Err (e, c') \<longrightarrow> handed_prefix f c raw_size (v @ y) c')"
  using assms
proof (induction t arbitrary: is_root st res v y stk)
  case (Tip start n)
  have uniq: "raw = y" if "length raw = n" "hash_subtree B (chunk_to_bytes G start) raw is_root = hash_subtree B (chunk_to_bytes G start) y is_root" for raw
    using Tip.prems(7) that by simp
  have item: "decode_item G B Z raw_size codec f st (Leaf start n is_root) = Some res"
    using Tip.prems(1) by (simp del: decode_item.simps split: option.splits sum.splits)
  show ?case
  proof (intro conjI allI impI)
    fix st' assume res: "res = Ok st'"
    obtain raw where raw: "length raw = n" "verified f c raw_size (v @ raw) st'"
      "ds_expected st = hash_subtree B (chunk_to_bytes G start) raw is_root # ds_expected st'"
      using Tip.prems(3,4) by (auto intro: decode_leaf_item [OF item [unfolded res] Tip.prems(2)])
    then have "raw = y" using Tip.prems(6) by (intro uniq) auto
    then show "verified f c raw_size (v @ y) st'" "ds_expected st' = stk" using raw Tip.prems(6) by auto
  next
    fix e c' assume res: "res = Err (e, c')"
    consider "c' = ds_consumer st" | raw rd where "length raw = n"
      "accept_leaf G B raw_size f (st\<lparr> ds_reader := rd \<rparr>) start is_root raw = Err (e, c')"
      using item [unfolded res] read_leaf_length [of Z "ds_reader st" n codec]
      by (auto simp: and_then_Err_iff map_err_Err_iff split: sum.splits)
    then show "handed_prefix f c raw_size (v @ y) c'"
    proof cases
      case 1
      then show ?thesis using verified_handed [OF Tip.prems(2)] by simp
    next
      case 2
      show ?thesis
        by (rule accept_leaf_Err [OF 2(2), of c v y stk])
          (use Tip.prems uniq 2(1) in auto)
    qed
  qed
next
  case (Fork node l r)
  show ?case
  proof (cases "decode_parent B st node is_root True True")
    case (Inl e)
    then show ?thesis using Fork.prems(1) verified_handed [OF Fork.prems(2)] by auto
  next
    case (Inr st1)
    obtain lh rh stk' rd where len: "length lh = 32" "length rh = 32"
      and e: "ds_expected st = parent_hash B lh rh is_root # stk'"
      and st1: "st1 = st\<lparr> ds_reader := rd, ds_expected := lh # rh # stk' \<rparr>"
      by (rule decode_parent_Ok [OF Inr])
    let ?a = "take (body_size l) y" and ?b = "drop (body_size l) y"
    have hashes: "lh = tree_hash G B False l ?a" "rh = tree_hash G B False r ?b" and stk: "stk' = stk"
      using no_second_preimage_fork [OF Fork.prems(7) len] e Fork.prems(6) by auto
    have nsp: "no_second_preimage G B False l ?a" "no_second_preimage G B False r ?b"
      using Fork.prems(7) by (simp_all add: Let_def)
    have v1: "verified f c raw_size v st1" using Fork.prems(2) st1 by simp
    have rest: "(case try_each (decode_item G B Z raw_size codec f) st1 (preorder False l) of
        Some (Ok s') \<Rightarrow> try_each (decode_item G B Z raw_size codec f) s' (preorder False r) | r \<Rightarrow> r) = Some res"
      using Fork.prems(1) Inr by (simp add: try_each_append)
    then obtain res1 where l: "try_each (decode_item G B Z raw_size codec f) st1 (preorder False l) = Some res1"
      by (auto split: option.splits)
    note IHl = Fork.IH(1) [OF l v1, of ?a "rh # stk"]
    have L: "res1 = Ok st2 \<Longrightarrow> verified f c raw_size (v @ ?a) st2 \<and> ds_expected st2 = rh # stk"
      "res1 = Err (x, c') \<Longrightarrow> handed_prefix f c raw_size (v @ ?a) c'" for st2 x c'
      using IHl Fork.prems(3-5) nsp(1) st1 hashes(1) stk by auto
    show ?thesis
    proof (cases res1)
      case (Inl ec)
      obtain x c' where "ec = (x, c')" by (cases ec)
      then have "res = Err (x, c')" "handed_prefix f c raw_size (v @ ?a) c'"
        using rest l Inl L(2) by auto
      then show ?thesis using handed_prefix_append [of f c raw_size "v @ ?a" c' ?b] by simp
    next
      case (Inr st2)
      then have r: "try_each (decode_item G B Z raw_size codec f) st2 (preorder False r) = Some res"
        using rest l by simp
      have v2: "verified f c raw_size (v @ ?a) st2" "ds_expected st2 = rh # stk" using L(1) Inr by auto
      show ?thesis
        using Fork.IH(2) [OF r v2(1), of ?b stk] Fork.prems(3-5) nsp(2) v2(2) hashes(2) by auto
    qed
  qed
qed


section \<open>The whole transfer\<close>

definition decode_start :: "reader \<Rightarrow> hash \<Rightarrow> 'c \<Rightarrow> 'c decode_state" where
  "decode_start rd root c =
     \<lparr> ds_reader = rd, ds_expected = [root], ds_final_leaf = None, ds_raw_bytes = 0, ds_consumer = c \<rparr>"

lemma decode_start_verified: "verified f c raw_size [] (decode_start rd root c)"
  by (auto simp: verified_def decode_start_def held_def intro!: exI [of _ "[]"])

lemma bao_shapedD:
  assumes "bao_shaped G raw_size t"
  shows "response_iter G raw_size = preorder True t" "body_size t = unat raw_size" "body_size t < 2 ^ 64"
    "no_empty_leaf t \<or> is_tip t \<and> ds_final_leaf (decode_start rd root c) = None"
  using assms unat_bound [of raw_size] by (auto simp: bao_shaped_def decode_start_def)

lemma decode_close_Ok:
  assumes "decode_close raw_size f st = Ok (n, c')" "verified f c raw_size v st"
  shows "ds_expected st = [] \<and> n = raw_size \<and> length v = unat raw_size \<and> (\<exists>ls. c' = offered f c ls \<and> concat ls = v)"
proof -
  have e: "ds_expected st = []" "n = raw_size" "ds_raw_bytes st = raw_size"
    and c': "c' = (case ds_final_leaf st of None \<Rightarrow> ds_consumer st | Some l \<Rightarrow> fst (f (ds_consumer st) l))"
    using assms(1)
    by (auto simp: decode_close_def Let_def split: if_splits option.splits prod.splits sum.splits)
  obtain ls where ls: "ds_consumer st = offered f c ls" "v = concat ls @ held st" and len: "length v = unat raw_size"
    using assms(2) e(3) by (auto simp: verified_def)
  show ?thesis
  proof (cases "ds_final_leaf st")
    case None
    then show ?thesis using e ls len c' by (auto simp: held_def)
  next
    case (Some l)
    then have "c' = offered f c (ls @ [l])" "concat (ls @ [l]) = v" using ls c' by (simp_all add: held_def)
    then show ?thesis using e len by blast
  qed
qed

lemma decode_close_Err:
  assumes "decode_close raw_size f st = Err (e, c')" "verified f c raw_size v st"
  shows "handed_prefix f c raw_size v c' \<or>
    (\<exists>ls l. c' = offered f c (ls @ [l]) \<and> concat (ls @ [l]) = v \<and> snd (f (offered f c ls) l) = Err e)"
proof (cases "c' = ds_consumer st")
  case True
  then show ?thesis using verified_handed [OF assms(2), of "[]"] by simp
next
  case False
  then obtain l where l: "ds_final_leaf st = Some l" "f (ds_consumer st) l = (c', Err e)"
    using assms(1)
    by (auto simp: decode_close_def Let_def and_then_Err_iff map_err_Err_iff split: if_splits option.splits prod.splits sum.splits)
  obtain ls where "ds_consumer st = offered f c ls" "v = concat ls @ l"
    using assms(2) l(1) by (auto simp: verified_def held_def)
  then have "c' = offered f c (ls @ [l])" "concat (ls @ [l]) = v" "snd (f (offered f c ls) l) = Err e"
    using l(2) by simp_all
  then show ?thesis by blast
qed

lemma decode_verified_Ok:
  assumes "bao_shaped G raw_size t" "decode_verified G B Z rd root raw_size codec f c = Some (Ok (n, c'))"
  shows "\<exists>ls. c' = offered f c ls \<and> n = raw_size \<and> length (concat ls) = unat raw_size \<and>
    tree_hash G B True t (concat ls) = root"
proof -
  note shape = bao_shapedD [OF assms(1)]
  obtain st where loop: "try_each (decode_item G B Z raw_size codec f) (decode_start rd root c) (preorder True t) = Some (Ok st)"
    and close: "decode_close raw_size f st = Ok (n, c')"
    using assms(2) by (auto simp: decode_verified_def decode_start_def shape(1))
  obtain y where y: "length y = body_size t" "verified f c raw_size ([] @ y) st"
    "ds_expected (decode_start rd root c) = tree_hash G B True t y # ds_expected st"
    using decode_subtree_sound [OF loop decode_start_verified shape(3,4)] by blast
  then show ?thesis
    using decode_close_Ok [OF close y(2)] y(3) by (auto simp: decode_start_def)
qed

lemma decode_verified_Err:
  assumes "bao_shaped G raw_size t" "decode_verified G B Z rd root raw_size codec f c = Some (Err (e, c'))"
    and "root = tree_hash G B True t y" "length y = unat raw_size" "no_second_preimage G B True t y"
  shows "handed_prefix f c raw_size y c' \<or>
    (\<exists>ls l. c' = offered f c (ls @ [l]) \<and> concat (ls @ [l]) = y \<and> snd (f (offered f c ls) l) = Err e)"
proof -
  note shape = bao_shapedD [OF assms(1)]
  obtain res where loop: "try_each (decode_item G B Z raw_size codec f) (decode_start rd root c) (preorder True t) = Some res"
    and fin: "and_then res (decode_close raw_size f) = Err (e, c')"
    using assms(2) by (auto simp: decode_verified_def decode_start_def shape(1))
  have y: "length y = body_size t" "ds_expected (decode_start rd root c) = tree_hash G B True t y # []"
    using assms(3,4) shape(2) by (simp_all add: decode_start_def)
  note sub = decode_subtree_prefix [OF loop decode_start_verified shape(3,4) y assms(5)]
  show ?thesis
  proof (cases res)
    case (Inl ec)
    then show ?thesis using sub fin by (cases ec) auto
  next
    case (Inr st)
    then show ?thesis using sub fin decode_close_Err [of raw_size f st e c' c y] by auto
  qed
qed


section \<open>The server\<close>

text \<open>The canonical wire form of a body: the hash pairs and the leaves in preorder.\<close>

fun wire_of :: "bao_geometry \<Rightarrow> blake3_ops \<Rightarrow> (bytes \<Rightarrow> bytes) \<Rightarrow> bao_shape \<Rightarrow> bytes \<Rightarrow> bytes" where
  "wire_of G B leaf_wire (Tip start n) y = leaf_wire y"
| "wire_of G B leaf_wire (Fork node l r) y =
     tree_hash G B False l (take (body_size l) y) @ tree_hash G B False r (drop (body_size l) y) @
     wire_of G B leaf_wire l (take (body_size l) y) @ wire_of G B leaf_wire r (drop (body_size l) y)"

text \<open>An outboard that holds the pairs of a body.\<close>

fun outboard_for :: "bao_geometry \<Rightarrow> blake3_ops \<Rightarrow> outboard \<Rightarrow> bao_shape \<Rightarrow> bytes \<Rightarrow> bool" where
  "outboard_for G B ob (Tip start n) y \<longleftrightarrow> True"
| "outboard_for G B ob (Fork node l r) y \<longleftrightarrow>
     ob_load ob node = Ok (Some (tree_hash G B False l (take (body_size l) y), tree_hash G B False r (drop (body_size l) y))) \<and>
     outboard_for G B ob l (take (body_size l) y) \<and> outboard_for G B ob r (drop (body_size l) y)"

definition hashes_32 :: "blake3_ops \<Rightarrow> bool" where
  "hashes_32 B \<longleftrightarrow> (\<forall>y. length (b3_hash B y) = 32) \<and> (\<forall>a y. length (b3_finalize_non_root B a y) = 32) \<and>
     (\<forall>l r. length (b3_merge_root B l r) = 32) \<and> (\<forall>l r. length (b3_merge_non_root B l r) = 32)"

lemma length_tree_hash: "hashes_32 B \<Longrightarrow> length (tree_hash G B is_root t y) = 32"
  by (cases t) (auto simp: hashes_32_def hash_subtree_def parent_hash_def)

text \<open>A replay of known bytes, read forward.\<close>

definition replay :: "bytes \<Rightarrow> nat \<Rightarrow> monotonic \<Rightarrow> bool" where
  "replay y a src \<longleftrightarrow> rd_bytes (fst src) = y \<and> unat (snd src) = a"

lemma monotonic_read_Ok:
  assumes "monotonic_read_exact_at src p n = Ok (raw, src')" "n < 2 ^ 64"
  shows "length raw = n \<and> rd_bytes (fst src) = raw @ rd_bytes (fst src') \<and> unat (snd src') = unat (snd src) + n \<and>
    rd_failure (fst src') = rd_failure (fst src)"
  using assms checked_add_bytes_Ok
  by (cases src) (fastforce simp: monotonic_read_exact_at_def read_exact_Ok split: if_splits)

lemma encode_parent_Ok:
  assumes "encode_parent B ob w st node is_root True True = Ok st'"
  obtains lh rh stk where "es_expected st = parent_hash B lh rh is_root # stk" "es_expected st' = lh # rh # stk"
    "es_source st' = es_source st"
proof (cases "es_expected st")
  case (Cons h stk)
  then show ?thesis using assms that
    by (auto simp: encode_parent_def Let_def split: if_splits)
qed (use assms in \<open>auto simp: encode_parent_def\<close>)

lemma encode_leaf_Ok:
  assumes "encode_leaf G B Z rat w codec level st start n is_root = Some (Ok st')"
  obtains raw where "rat (es_source st) (chunk_to_bytes G start) n = Ok (raw, es_source st')"
    "es_expected st = hash_subtree B (chunk_to_bytes G start) raw is_root # es_expected st'"
proof (cases "es_expected st")
  case (Cons h stk)
  then show ?thesis using assms that
    by (auto simp: encode_leaf_def Let_def split: if_splits sum.splits)
qed (use assms in \<open>auto simp: encode_leaf_def Let_def split: sum.splits\<close>)

text \<open>What the server has sent of a subtree hashes to what the stack expected.\<close>

lemma encode_subtree_sound:
  assumes "try_each (encode_item G B Z ob monotonic_read_exact_at w codec level) st (preorder is_root t) = Some (Ok st')"
    and "body_size t < 2 ^ 64"
  shows "\<exists>y. length y = body_size t \<and> rd_bytes (fst (es_source st)) = y @ rd_bytes (fst (es_source st')) \<and>
    unat (snd (es_source st')) = unat (snd (es_source st)) + body_size t \<and>
    rd_failure (fst (es_source st')) = rd_failure (fst (es_source st)) \<and>
    es_expected st = tree_hash G B is_root t y # es_expected st'"
  using assms
proof (induction t arbitrary: is_root st st')
  case (Tip start n)
  have "encode_leaf G B Z monotonic_read_exact_at w codec level st start n is_root = Some (Ok st')"
    using Tip.prems(1) by (simp split: option.splits sum.splits)
  then obtain raw where "monotonic_read_exact_at (es_source st) (chunk_to_bytes G start) n = Ok (raw, es_source st')"
    "es_expected st = hash_subtree B (chunk_to_bytes G start) raw is_root # es_expected st'"
    by (rule encode_leaf_Ok)
  then show ?case using monotonic_read_Ok Tip.prems(2) by (metis body_size.simps(1) tree_hash.simps(1))
next
  case (Fork node l r)
  then obtain st1 st2 where p: "encode_parent B ob w st node is_root True True = Ok st1"
    and l: "try_each (encode_item G B Z ob monotonic_read_exact_at w codec level) st1 (preorder False l) = Some (Ok st2)"
    and r: "try_each (encode_item G B Z ob monotonic_read_exact_at w codec level) st2 (preorder False r) = Some (Ok st')"
    by (auto simp: try_each_append split: option.splits sum.splits)
  obtain lh rh stk where e: "es_expected st = parent_hash B lh rh is_root # stk" "es_expected st1 = lh # rh # stk"
    "es_source st1 = es_source st"
    by (rule encode_parent_Ok [OF p])
  obtain y where y: "length y = body_size l" "rd_bytes (fst (es_source st1)) = y @ rd_bytes (fst (es_source st2))"
    "unat (snd (es_source st2)) = unat (snd (es_source st1)) + body_size l"
    "rd_failure (fst (es_source st2)) = rd_failure (fst (es_source st1))"
    "es_expected st1 = tree_hash G B False l y # es_expected st2"
    using Fork.IH(1) [OF l] Fork.prems(2) by auto
  obtain z where z: "length z = body_size r" "rd_bytes (fst (es_source st2)) = z @ rd_bytes (fst (es_source st'))"
    "unat (snd (es_source st')) = unat (snd (es_source st2)) + body_size r"
    "rd_failure (fst (es_source st')) = rd_failure (fst (es_source st2))"
    "es_expected st2 = tree_hash G B False r z # es_expected st'"
    using Fork.IH(2) [OF r] Fork.prems(2) by auto
  show ?case using y z e by (intro exI [of _ "y @ z"]) simp
qed

lemma encode_validated_reader_Ok:
  assumes "bao_shaped G (ob_size ob) t"
    "encode_validated_reader G B Z w flush rd ob writer codec level = Some (Ok res)"
  shows "length (rd_bytes rd) = unat (ob_size ob) \<and> rd_failure rd = None \<and> tree_hash G B True t (rd_bytes rd) = ob_root ob"
proof -
  note shape = bao_shapedD [OF assms(1)]
  let ?st = "\<lparr> es_expected = [ob_root ob], es_writer = writer, es_source = (rd, 0), es_raw_bytes = 0, es_wire_bytes = 0 \<rparr>"
  obtain st where loop: "try_each (encode_item G B Z ob monotonic_read_exact_at w codec level) ?st (preorder True t) = Some (Ok st)"
    and fin: "es_expected st = []" "snd (es_source st) = ob_size ob" "read_extra (fst (es_source st)) = Ok 0"
    using assms(2)
    by (auto simp: encode_validated_reader_def encode_validated_def Let_def shape(1) split: if_splits prod.splits)
  have eof: "rd_bytes (fst (es_source st)) = []" "rd_failure (fst (es_source st)) = None"
    using fin(3) by (auto simp: read_extra_def split: if_splits option.splits)
  show ?thesis
    using encode_subtree_sound [OF loop shape(3)] fin(1,2) eof shape(2) by auto
qed


section \<open>Round trip\<close>

fun largest_leaf :: "bao_shape \<Rightarrow> nat" where
  "largest_leaf (Tip start n) = n"
| "largest_leaf (Fork node l r) = max (largest_leaf l) (largest_leaf r)"

lemma checked_add_bytes_fits:
  "unat a + n < 2 ^ 64 \<Longrightarrow> \<exists>b. checked_add_bytes a n ctx = Ok b \<and> unat b = unat a + n"
  by (auto simp: checked_add_bytes_def checked_add_def unat_of_nat unat_word_ariths)

lemma monotonic_read_complete:
  assumes "rd_bytes (fst src) = raw @ rest" "snd src = p" "unat p + length raw < 2 ^ 64"
  shows "\<exists>src'. monotonic_read_exact_at src p (length raw) = Ok (raw, src') \<and> rd_bytes (fst src') = rest \<and>
    rd_failure (fst src') = rd_failure (fst src) \<and> unat (snd src') = unat p + length raw"
  using assms checked_add_bytes_fits [OF assms(3), of "''monotonic Bao replay offset''"]
  by (cases src) (auto simp: monotonic_read_exact_at_def read_exact_def)

text \<open>What a step of the server adds to its counters and its output.\<close>

definition sends :: "(bytes, monotonic) encode_state \<Rightarrow> bytes \<Rightarrow> bytes \<Rightarrow> (bytes, monotonic) encode_state \<Rightarrow> bool" where
  "sends st y sent st' \<longleftrightarrow> es_writer st' = es_writer st @ sent \<and>
     unat (es_wire_bytes st') = unat (es_wire_bytes st) + length sent \<and>
     unat (es_raw_bytes st') = unat (es_raw_bytes st) + length y \<and>
     rd_bytes (fst (es_source st)) = y @ rd_bytes (fst (es_source st')) \<and>
     rd_failure (fst (es_source st')) = rd_failure (fst (es_source st)) \<and>
     unat (snd (es_source st')) = unat (snd (es_source st)) + length y"

text \<open>What the framing needs of the codec of a leaf: what is sent of a leaf is read back as that leaf.\<close>

locale leaf_transport =
  fixes Z :: "('d, 'e) zstd_lib" and codec :: wire_codec and level :: int and leaf_wire :: "bytes \<Rightarrow> bytes" and limit :: nat
  assumes send_ok: "length raw \<le> limit \<Longrightarrow> unat wb + length (leaf_wire raw) < 2 ^ 64 \<Longrightarrow>
      \<exists>wb'. send_leaf Z vec_write_owned codec level wr wb raw = Some (Ok (wr @ leaf_wire raw, wb')) \<and>
        unat wb' = unat wb + length (leaf_wire raw)"
    and receive_ok: "length raw \<le> limit \<Longrightarrow>
      read_leaf Z \<lparr> rd_bytes = leaf_wire raw @ rest, rd_failure = why \<rparr> (length raw) codec =
        Some (Ok (raw, \<lparr> rd_bytes = rest, rd_failure = why \<rparr>))"
begin

lemma encode_leaf_complete:
  assumes "rd_bytes (fst (es_source st)) = raw @ rest" "snd (es_source st) = chunk_to_bytes G start"
    "unat (snd (es_source st)) + length raw < 2 ^ 64" "unat (es_raw_bytes st) + length raw < 2 ^ 64"
    "unat (es_wire_bytes st) + length (leaf_wire raw) < 2 ^ 64" "length raw \<le> limit"
    "es_expected st = hash_subtree B (chunk_to_bytes G start) raw is_root # stk"
  shows "\<exists>st'. encode_leaf G B Z monotonic_read_exact_at vec_write_owned codec level st start (length raw) is_root = Some (Ok st') \<and>
    es_expected st' = stk \<and> sends st raw (leaf_wire raw) st'"
proof -
  obtain src' where src: "monotonic_read_exact_at (es_source st) (chunk_to_bytes G start) (length raw) = Ok (raw, src')"
    "rd_bytes (fst src') = rest" "rd_failure (fst src') = rd_failure (fst (es_source st))"
    "unat (snd src') = unat (snd (es_source st)) + length raw"
    using monotonic_read_complete [OF assms(1,2)] assms(2,3) by auto
  obtain n where n: "checked_add_bytes (es_raw_bytes st) (length raw) ''Bao authenticated raw byte count'' = Ok n"
    "unat n = unat (es_raw_bytes st) + length raw"
    using checked_add_bytes_fits [OF assms(4)] by blast
  obtain wb where wb: "send_leaf Z vec_write_owned codec level (es_writer st) (es_wire_bytes st) raw =
      Some (Ok (es_writer st @ leaf_wire raw, wb))" "unat wb = unat (es_wire_bytes st) + length (leaf_wire raw)"
    using send_ok [OF assms(6,5)] by blast
  show ?thesis
    using src n wb assms(1,7) by (simp add: encode_leaf_def sends_def)
qed

lemma encode_subtree_complete:
  assumes "rd_bytes (fst (es_source st)) = y @ rest" "length y = body_size t" "largest_leaf t \<le> limit"
    "tiles G (unat (snd (es_source st))) t" "unat (snd (es_source st)) + body_size t < 2 ^ 64"
    "unat (es_raw_bytes st) + body_size t < 2 ^ 64" "unat (es_wire_bytes st) + length (wire_of G B leaf_wire t y) < 2 ^ 64"
    "outboard_for G B ob t y" "es_expected st = tree_hash G B is_root t y # stk"
  shows "\<exists>st'. try_each (encode_item G B Z ob monotonic_read_exact_at vec_write_owned codec level) st (preorder is_root t) = Some (Ok st') \<and>
    es_expected st' = stk \<and> sends st y (wire_of G B leaf_wire t y) st'"
  using assms
proof (induction t arbitrary: is_root st y rest stk)
  case (Tip start n)
  have "snd (es_source st) = chunk_to_bytes G start" using Tip.prems(4) by (simp add: word_unat_eq_iff)
  then show ?case using encode_leaf_complete [OF Tip.prems(1), of G start B is_root stk] Tip.prems by auto
next
  case (Fork node l r)
  let ?a = "take (body_size l) y" and ?b = "drop (body_size l) y"
  let ?pair = "tree_hash G B False l ?a @ tree_hash G B False r ?b"
  let ?loop = "try_each (encode_item G B Z ob monotonic_read_exact_at vec_write_owned codec level)"
  have len: "length ?a = body_size l" "length ?b = body_size r" and y: "y = ?a @ ?b"
    using Fork.prems(2) by simp_all
  have "unat (es_wire_bytes st) + length ?pair < 2 ^ 64" using Fork.prems(7) by simp
  then obtain wb where wb: "checked_add_bytes (es_wire_bytes st) (length ?pair) ''Bao proof wire byte count'' = Ok wb"
    "unat wb = unat (es_wire_bytes st) + length ?pair" using checked_add_bytes_fits by blast
  let ?st1 = "st\<lparr> es_expected := tree_hash G B False l ?a # tree_hash G B False r ?b # stk, es_writer := es_writer st @ ?pair,
    es_wire_bytes := wb \<rparr>"
  have p: "encode_parent B ob vec_write_owned st node is_root True True = Ok ?st1"
    using Fork.prems(8,9) wb(1) by (simp add: encode_parent_def vec_write_owned_def)
  obtain st2 where l: "?loop ?st1 (preorder False l) = Some (Ok st2)" "es_expected st2 = tree_hash G B False r ?b # stk"
    "sends ?st1 ?a (wire_of G B leaf_wire l ?a) st2"
    using Fork.IH(1) [of ?st1 ?a "?b @ rest" False "tree_hash G B False r ?b # stk"] Fork.prems len(1) wb(2) y by auto
  have "?a @ rd_bytes (fst (es_source st2)) = y @ rest"
    using l(3) Fork.prems(1) by (simp add: sends_def)
  also have "\<dots> = ?a @ ?b @ rest" by (metis append.assoc append_take_drop_id)
  finally have src2: "rd_bytes (fst (es_source st2)) = ?b @ rest" by (simp only: same_append_eq)
  obtain st3 where r: "?loop st2 (preorder False r) = Some (Ok st3)" "es_expected st3 = stk"
    "sends st2 ?b (wire_of G B leaf_wire r ?b) st3"
    using Fork.IH(2) [OF src2, of False stk] Fork.prems(2-9) len wb(2) l(2,3) by (auto simp: sends_def)
  have "sends st y (wire_of G B leaf_wire (Fork node l r) y) st3"
    using l(3) r(3) wb(2) Fork.prems(2) by (auto simp: sends_def)
  then show ?case using p l(1) r(1,2) by (simp add: try_each_append)
qed

lemma decode_leaf_complete:
  assumes "ds_reader st = \<lparr> rd_bytes = leaf_wire raw @ rest, rd_failure = why \<rparr>" "length raw \<le> limit"
    "ds_expected st = hash_subtree B (chunk_to_bytes G start) raw is_root # stk" "verified f c raw_size v st"
    "length v + length raw \<le> unat raw_size" "\<And>c l. snd (f c l) = Ok ()"
  shows "\<exists>st'. decode_item G B Z raw_size codec f st (Leaf start (length raw) is_root) = Some (Ok st') \<and>
    ds_reader st' = \<lparr> rd_bytes = rest, rd_failure = why \<rparr> \<and> ds_expected st' = stk"
proof -
  have "unat (ds_raw_bytes st) = length v" using assms(4) by (simp add: verified_def)
  then obtain n where n: "checked_add_bytes (ds_raw_bytes st) (length raw) ''Bao verified raw byte count'' = Ok n"
    "unat n = length v + length raw"
    using checked_add_bytes_fits [of "ds_raw_bytes st" "length raw"] assms(5) unat_bound [of raw_size] by fastforce
  have "\<not> n > raw_size" using n(2) assms(5) by (simp add: word_less_nat_alt)
  moreover obtain c' where "f (ds_consumer st) raw = (c', Ok ())" using assms(6) by (metis surjective_pairing)
  ultimately show ?thesis
    using assms(1,3) receive_ok [OF assms(2)] n(1) by (simp add: accept_leaf_def Let_def)
qed

lemma decode_subtree_complete:
  assumes "ds_reader st = \<lparr> rd_bytes = wire_of G B leaf_wire t y @ rest, rd_failure = why \<rparr>" "length y = body_size t"
    "largest_leaf t \<le> limit" "ds_expected st = tree_hash G B is_root t y # stk" "verified f c raw_size v st"
    "length v + length y \<le> unat raw_size" "\<And>c l. snd (f c l) = Ok ()" "hashes_32 B"
    "no_empty_leaf t \<or> is_tip t \<and> ds_final_leaf st = None"
  shows "\<exists>st'. try_each (decode_item G B Z raw_size codec f) st (preorder is_root t) = Some (Ok st') \<and>
    ds_reader st' = \<lparr> rd_bytes = rest, rd_failure = why \<rparr> \<and> ds_expected st' = stk \<and> verified f c raw_size (v @ y) st'"
  using assms
proof (induction t arbitrary: is_root st y rest stk v)
  case (Tip start n)
  obtain st' where st': "decode_item G B Z raw_size codec f st (Leaf start n is_root) = Some (Ok st')"
    "ds_reader st' = \<lparr> rd_bytes = rest, rd_failure = why \<rparr>" "ds_expected st' = stk"
    using decode_leaf_complete [of st y rest why B G start is_root stk f c raw_size v] Tip.prems by auto
  have raw: "read_leaf Z (ds_reader st) n codec = Some (Ok (y, \<lparr> rd_bytes = rest, rd_failure = why \<rparr>))"
    using Tip.prems(1-3) receive_ok [of y rest why] by simp
  have "accept_leaf G B raw_size f (st\<lparr> ds_reader := \<lparr> rd_bytes = rest, rd_failure = why \<rparr> \<rparr>) start is_root y = Ok st'"
    using st'(1) raw by simp
  then have "verified f c raw_size (v @ y) st'"
    by (rule accept_leaf_Ok) (use Tip.prems unat_bound [of raw_size] in auto)
  then show ?case using st' by (simp del: decode_item.simps)
next
  case (Fork node l r)
  let ?a = "take (body_size l) y" and ?b = "drop (body_size l) y"
  let ?lh = "tree_hash G B False l ?a" and ?rh = "tree_hash G B False r ?b"
  let ?loop = "try_each (decode_item G B Z raw_size codec f)"
  let ?rd = "\<lparr> rd_bytes = wire_of G B leaf_wire l ?a @ wire_of G B leaf_wire r ?b @ rest, rd_failure = why \<rparr>"
  let ?st1 = "st\<lparr> ds_reader := ?rd, ds_expected := ?lh # ?rh # stk \<rparr>"
  have len: "length ?a = body_size l" "length ?b = body_size r" and y: "?a @ ?b = y"
    using Fork.prems(2) by simp_all
  have "length ?lh = 32" "length ?rh = 32" using Fork.prems(8) by (rule length_tree_hash)+
  then have p: "decode_parent B st node is_root True True = Ok ?st1"
    using Fork.prems(1,4) by (simp add: decode_parent_def read_exact_def parse_hash_pair_def Let_def)
  obtain st2 where l: "?loop ?st1 (preorder False l) = Some (Ok st2)"
    "ds_reader st2 = \<lparr> rd_bytes = wire_of G B leaf_wire r ?b @ rest, rd_failure = why \<rparr>" "ds_expected st2 = ?rh # stk"
    "verified f c raw_size (v @ ?a) st2"
    using Fork.IH(1) [of ?st1 ?a "wire_of G B leaf_wire r ?b @ rest" False "?rh # stk" v] Fork.prems len(1) by auto
  obtain st3 where r: "?loop st2 (preorder False r) = Some (Ok st3)"
    "ds_reader st3 = \<lparr> rd_bytes = rest, rd_failure = why \<rparr>" "ds_expected st3 = stk" "verified f c raw_size ((v @ ?a) @ ?b) st3"
    using Fork.IH(2) [of st2 ?b rest False stk "v @ ?a"] Fork.prems len l(2-4) by auto
  then show ?case using p l(1) y by (auto simp: try_each_append)
qed

text \<open>What is sent is accepted, and delivered as it was.\<close>

lemma transfer_complete:
  assumes "bao_shaped G (ob_size ob) t" "largest_leaf t \<le> limit" "hashes_32 B" "length y = unat (ob_size ob)"
    "ob_root ob = tree_hash G B True t y" "outboard_for G B ob t y" "length (wire_of G B leaf_wire t y) < 2 ^ 64"
    "\<And>c l. snd (f c l) = Ok ()"
  shows "\<exists>res. encode_validated_reader G B Z vec_write_owned vec_flush \<lparr> rd_bytes = y, rd_failure = None \<rparr> ob [] codec level =
      Some (Ok (wire_of G B leaf_wire t y, res))"
    and "\<exists>ls. concat ls = y \<and> decode_verified G B Z \<lparr> rd_bytes = wire_of G B leaf_wire t y @ COMPLETE_MARKER, rd_failure = None \<rparr>
      (ob_root ob) (ob_size ob) codec f c = Some (Ok (ob_size ob, offered f c ls))"
proof -
  note shape = bao_shapedD [OF assms(1)]
  have tiles: "tiles G 0 t" using assms(1) by (simp add: bao_shaped_def)
  let ?st = "\<lparr> es_expected = [ob_root ob], es_writer = [], es_source = (\<lparr> rd_bytes = y, rd_failure = None \<rparr>, 0),
    es_raw_bytes = 0, es_wire_bytes = 0 \<rparr> :: (bytes, monotonic) encode_state"
  obtain st where enc: "try_each (encode_item G B Z ob monotonic_read_exact_at vec_write_owned codec level) ?st (preorder True t) = Some (Ok st)"
    "es_expected st = []" "sends ?st y (wire_of G B leaf_wire t y) st"
    using encode_subtree_complete [of ?st y "[]" t G B ob True "[]"] assms(2,4-7) shape(2,3) tiles by auto
  have "snd (es_source st) = ob_size ob" "rd_bytes (fst (es_source st)) = []" "rd_failure (fst (es_source st)) = None"
    "es_writer st = wire_of G B leaf_wire t y"
    using enc(3) assms(4) by (auto simp: sends_def word_unat_eq_iff)
  then show "\<exists>res. encode_validated_reader G B Z vec_write_owned vec_flush \<lparr> rd_bytes = y, rd_failure = None \<rparr> ob [] codec level =
      Some (Ok (wire_of G B leaf_wire t y, res))"
    using enc(1,2) by (cases "es_source st")
      (simp add: encode_validated_reader_def encode_validated_def shape(1) vec_flush_def read_extra_def)
  let ?rd = "\<lparr> rd_bytes = wire_of G B leaf_wire t y @ COMPLETE_MARKER, rd_failure = None \<rparr>"
  obtain ds where dec: "try_each (decode_item G B Z (ob_size ob) codec f) (decode_start ?rd (ob_root ob) c) (preorder True t) = Some (Ok ds)"
    "ds_reader ds = \<lparr> rd_bytes = COMPLETE_MARKER, rd_failure = None \<rparr>" "ds_expected ds = []" "verified f c (ob_size ob) y ds"
    using decode_subtree_complete [of "decode_start ?rd (ob_root ob) c" G B t y COMPLETE_MARKER None True "[]" f c "ob_size ob" "[]"]
      decode_start_verified [of f c "ob_size ob"] assms(2-5,8) shape(2) bao_shapedD(4) [OF assms(1)]
    by (auto simp: decode_start_def)
  have "ds_raw_bytes ds = ob_size ob" using dec(4) assms(4) by (simp add: verified_def word_unat_eq_iff)
  then have "\<exists>n c'. decode_close (ob_size ob) f ds = Ok (n, c')"
    using dec(2,3) assms(8) by (auto simp: decode_close_def read_exact_def read_extra_def Let_def split: option.splits prod.splits sum.splits)
      (metis snd_conv sum.simps(4))
  then show "\<exists>ls. concat ls = y \<and> decode_verified G B Z ?rd (ob_root ob) (ob_size ob) codec f c = Some (Ok (ob_size ob, offered f c ls))"
    using decode_close_Ok [OF _ dec(4)] dec(1) by (fastforce simp: decode_verified_def decode_start_def shape(1))
qed

end

text \<open>Uncompressed leaves are sent as they are.\<close>

interpretation raw_leaf: leaf_transport Z Raw level "\<lambda>raw. raw" limit
proof
  show "\<exists>wb'. send_leaf Z vec_write_owned Raw level wr wb raw = Some (Ok (wr @ raw, wb')) \<and> unat wb' = unat wb + length raw"
    if "unat wb + length raw < 2 ^ 64" for raw wr and wb :: u64
    using checked_add_bytes_fits [OF that] by (auto simp: send_leaf_def vec_write_owned_def)
qed (simp add: read_leaf_def read_exact_def)


section \<open>Termination\<close>

lemma decode_leaf_frame_returns:
  assumes "within_buffers (zl_decode Z)"
  shows "decode_leaf_frame Z n encoded \<noteq> None"
proof (cases "with_window_log_max (zl_decoder Z) (of_nat n) (leaf_window_log_max n)")
  case (Inr dec)
  then have "capped dec" by (auto simp: with_window_log_max_def capped_def)
  with push_returns [OF assms] show ?thesis
    using Inr by (fastforce simp: decode_leaf_frame_def split: option.splits sum.splits)
qed (simp add: decode_leaf_frame_def)

lemma try_each_returns: "(\<And>s i. i \<in> set items \<Longrightarrow> f s i \<noteq> None) \<Longrightarrow> try_each f s items \<noteq> None"
  by (induction items arbitrary: s) (auto split: option.split sum.split)

lemma decode_item_returns: "within_buffers (zl_decode Z) \<Longrightarrow> decode_item G B Z raw_size codec f st i \<noteq> None"
  using decode_leaf_frame_returns [of Z]
  by (cases i) (auto simp: read_leaf_def split: wire_codec.splits sum.splits)

end
