(* ===== verification/Nar_V4_Properties.thy ===== *)
theory Nar_V4_Properties
  imports Nar_V4_Auth
begin

text \<open>
  The guarantees of a \<^verbatim>\<open>/nar/4\<close> transfer, stated over the definitions of the codec, with concrete transfers that meet
  their premises.
\<close>

lemma leaf_window_covers:
  assumes "n \<le> 65536"
  shows "n \<le> 2 ^ unat (leaf_window_log_max n) \<and> 10 \<le> unat (leaf_window_log_max n) \<and> unat (leaf_window_log_max n) \<le> 16"
proof -
  have bits: "m < 2 ^ bit_length m" for m
  proof (induction m rule: bit_length.induct)
    case (1 m)
    then show ?case by (cases "m = 0") (auto simp: bit_length.simps [of m])
  qed
  define g where "g = (if n \<le> 1 then 0 else bit_length (n - 1))"
  have g: "n \<le> 2 ^ g" using bits [of "n - 1"] unfolding g_def by (cases "n \<le> 1") auto
  have w: "unat (leaf_window_log_max n) = min (max g 10) 16"
    by (simp add: leaf_window_log_max_def ZSTD_MIN_WINDOW_LOG_def Let_def unat_of_nat g_def)
  have "n \<le> 2 ^ min (max g 10) 16"
  proof (cases "max g 10 \<le> 16")
    case True
    have "(2::nat) ^ g \<le> 2 ^ max g 10" by (rule power_increasing) simp_all
    with g have "n \<le> 2 ^ max g 10" by (rule order_trans)
    then show ?thesis using True by (simp only: min_absorb1)
  next
    case False
    then show ?thesis using assms by (simp add: min_def)
  qed
  then show ?thesis unfolding w by auto
qed


section \<open>Properties\<close>

text \<open>C1: A client that accepts a transfer has handed its consumer exactly the declared number of bytes, and these
  bytes hash, over the tree of that size, to the root it asked for. Nothing is assumed of the sender, of the
  codec or of the hash functions; only the shape of the tree iteration is relied on.\<close>

theorem accepted_body_is_authentic:
  assumes "bao_shaped G raw_size t" "decode_verified G B Z rd root raw_size codec on_leaf c = Some (Ok (n, c'))"
  shows "\<exists>ls. c' = offered on_leaf c ls \<and> n = raw_size \<and> length (concat ls) = unat raw_size \<and>
    tree_hash G B True t (concat ls) = root"
  using assms by (rule decode_verified_Ok)

text \<open>C7: A transfer that fails has handed on only authenticated data. When the root is that of some body and the
  hash functions have no second preimage at its nodes, the consumer has seen a prefix of that body and, unless
  it was the consumer itself that refused the last leaf, not all of it: the last leaf is withheld until the
  marker and the end of the stream have been seen.\<close>

theorem failed_transfer_hands_on_prefix:
  assumes "bao_shaped G raw_size t" "decode_verified G B Z rd root raw_size codec on_leaf c = Some (Err (e, c'))"
    and "root = tree_hash G B True t y" "length y = unat raw_size" "no_second_preimage G B True t y"
  shows "handed_prefix on_leaf c raw_size y c' \<or>
    (\<exists>ls l. c' = offered on_leaf c (ls @ [l]) \<and> concat (ls @ [l]) = y \<and> snd (on_leaf (offered on_leaf c ls) l) = Err e)"
  using assms by (rule decode_verified_Err)

text \<open>C31: A server that completes a transfer has read exactly the declared number of bytes up to a clean end, and these
  bytes hash to the root of its outboard: a source that changed, grew or shrank between the two passes is never
  served to the end.\<close>

theorem served_body_is_validated:
  assumes "bao_shaped G (ob_size ob) t"
    "encode_validated_reader G B Z write_owned flush rd ob writer codec level = Some (Ok res)"
  shows "length (rd_bytes rd) = unat (ob_size ob) \<and> rd_failure rd = None \<and> tree_hash G B True t (rd_bytes rd) = ob_root ob"
  using assms by (rule encode_validated_reader_Ok)

text \<open>C32: What the server sends of a body, uncompressed and followed by the marker, the client accepts and hands on
  byte for byte. Both sides succeed, whatever the shape of the tree.\<close>

theorem transfer_round_trip:
  assumes "bao_shaped G (ob_size ob) t" "hashes_32 B" "length y = unat (ob_size ob)"
    "ob_root ob = tree_hash G B True t y" "outboard_for G B ob t y" "length (wire_of G B (\<lambda>raw. raw) t y) < 2 ^ 64"
    "\<And>c l. snd (on_leaf c l) = Ok ()"
  shows "\<exists>sent counts ls. encode_validated_reader G B Z vec_write_owned vec_flush \<lparr> rd_bytes = y, rd_failure = None \<rparr> ob [] Raw level =
      Some (Ok (sent, counts)) \<and>
    decode_verified G B Z \<lparr> rd_bytes = sent @ COMPLETE_MARKER, rd_failure = None \<rparr> (ob_root ob) (ob_size ob) Raw on_leaf c =
      Some (Ok (ob_size ob, offered on_leaf c ls)) \<and> concat ls = y"
proof -
  note tc = raw_leaf.transfer_complete [where f = on_leaf, OF assms(1) order_refl assms(2-7)]
  obtain res where "encode_validated_reader G B Z vec_write_owned vec_flush \<lparr> rd_bytes = y, rd_failure = None \<rparr> ob [] Raw level =
      Some (Ok (wire_of G B (\<lambda>raw. raw) t y, res))" using tc(1) by blast
  moreover obtain ls where "concat ls = y" "decode_verified G B Z
      \<lparr> rd_bytes = wire_of G B (\<lambda>raw. raw) t y @ COMPLETE_MARKER, rd_failure = None \<rparr> (ob_root ob) (ob_size ob) Raw on_leaf c =
      Some (Ok (ob_size ob, offered on_leaf c ls))" using tc(2) by blast
  ultimately show ?thesis by blast
qed

text \<open>C33: The client always comes to an end of its loop over a body, whatever the peer sends: for a finite stream
  decoding returns a verdict, provided the decompressor stays within its buffers.\<close>

theorem decode_verified_returns:
  assumes "within_buffers (zl_decode Z)"
  shows "\<exists>verdict. decode_verified G B Z rd root raw_size codec on_leaf c = Some verdict"
proof -
  have "try_each (decode_item G B Z raw_size codec on_leaf) st items \<noteq> None" for st items
    by (rule try_each_returns) (rule decode_item_returns [OF assms])
  then show ?thesis by (simp add: decode_verified_def)
qed

lemma leaf_limits_parts:
  assumes "n \<le> 65536"
  shows "n \<le> 2 ^ unat (leaf_window_log_max n)" "10 \<le> unat (leaf_window_log_max n)" "unat (leaf_window_log_max n) \<le> 16"
    and "unat (zstd_compress_bound (of_nat n)) \<le> MAX_ENCODED_LEAF_BYTES"
proof -
  have n: "unat (of_nat n :: u64) = n" using assms by (simp add: unat_of_nat)
  have d: "unat (of_nat n div (128::u64)) = n div 128" by (simp add: unat_div n)
  have "n div 128 \<le> 512" using div_le_mono [OF assms, of 128] by simp
  then show "unat (zstd_compress_bound (of_nat n)) \<le> MAX_ENCODED_LEAF_BYTES"
    using assms by (simp add: zstd_compress_bound_def unat_saturating_add n d MAX_ENCODED_LEAF_BYTES_def)
qed (use leaf_window_covers [OF assms] in auto)


text \<open>The decompression window granted for a leaf always suffices for that leaf and never exceeds 64 KiB, and the
  bound on the compressed length of a leaf is the compression bound of a full leaf.\<close>

theorem leaf_limits:
  assumes "n \<le> 65536"
    shows "(n \<le> 2 ^ unat (leaf_window_log_max n)) \<and>
    (10 \<le> unat (leaf_window_log_max n)) \<and>
    (unat (leaf_window_log_max n) \<le> 16) \<and>
    (unat (zstd_compress_bound (of_nat n)) \<le> MAX_ENCODED_LEAF_BYTES)"
  using leaf_limits_parts [OF assms] by blast

section \<open>Examples\<close>

text \<open>A body of two leaves under toy hash functions that single it out.\<close>

definition demo_shape :: bao_shape where
  "demo_shape = Fork 0 (Tip 0 2) (Tip 1 1)"

definition demo_geometry :: bao_geometry where
  "demo_geometry = \<lparr> response_iter = (\<lambda>_. preorder True demo_shape), outboard_size = (\<lambda>_. 64), chunk_to_bytes = (\<lambda>n. 2 * n) \<rparr>"

definition demo_blake3 :: blake3_ops where
  "demo_blake3 = \<lparr> b3_hash = (\<lambda>_. replicate 32 0),
     b3_finalize_non_root = (\<lambda>_ y. replicate 32 (if y = [7, 8] then 1 else if y = [9] then 2 else 0)),
     b3_merge_root = (\<lambda>l r. replicate 32 (if l = replicate 32 1 \<and> r = replicate 32 2 then 3 else 0)),
     b3_merge_non_root = (\<lambda>_ _. replicate 32 0) \<rparr>"

definition demo_zstd :: "(unit, unit) zstd_lib" where
  "demo_zstd = \<lparr> zl_decoder = (\<lambda>_. Ok ()), zl_decode = copy_call, zl_encoder = (\<lambda>_ _. Ok ()), zl_encode = copy_call,
     zl_flush = (\<lambda>e _. Ok (e, [], 0)) \<rparr>"

definition collect :: "bytes on_leaf" where
  "collect c l = (c @ l, Ok ())"

definition demo_outboard :: outboard where
  "demo_outboard = \<lparr> ob_size = 3, ob_root = replicate 32 3, ob_load = (\<lambda>_. Ok (Some (replicate 32 1, replicate 32 2))) \<rparr>"

lemmas demo_v4_defs = demo_shape_def demo_geometry_def demo_blake3_def demo_zstd_def demo_outboard_def
  hash_subtree_def parent_hash_def

lemma demo_shaped: "bao_shaped demo_geometry 3 demo_shape"
  by (simp add: bao_shaped_def demo_v4_defs)

lemma demo_root: "tree_hash demo_geometry demo_blake3 True demo_shape [7, 8, 9] = replicate 32 3"
  by (simp add: demo_v4_defs)

lemma demo_hashes: "hashes_32 demo_blake3"
  by (simp add: hashes_32_def demo_v4_defs)

lemma demo_outboard_for: "outboard_for demo_geometry demo_blake3 demo_outboard demo_shape [7, 8, 9]"
  by (simp add: demo_v4_defs)

lemma demo_preimage: "no_second_preimage demo_geometry demo_blake3 True demo_shape [7, 8, 9]"
  by (auto simp: demo_v4_defs split: if_splits)

lemma demo_wire: "wire_of demo_geometry demo_blake3 (\<lambda>raw. raw) demo_shape [7, 8, 9] = replicate 32 1 @ replicate 32 2 @ [7, 8, 9]"
  by (simp add: demo_v4_defs)

lemma collect_offered: "offered collect c ls = c @ concat ls"
  by (induction ls arbitrary: c) (simp_all add: offered_def collect_def)

theorem transfer_round_trip_witness:
  "\<exists>sent counts. encode_validated_reader demo_geometry demo_blake3 demo_zstd vec_write_owned vec_flush
      \<lparr> rd_bytes = [7, 8, 9], rd_failure = None \<rparr> demo_outboard [] Raw 3 = Some (Ok (sent, counts)) \<and>
    decode_verified demo_geometry demo_blake3 demo_zstd \<lparr> rd_bytes = sent @ COMPLETE_MARKER, rd_failure = None \<rparr>
      (replicate 32 3) 3 Raw collect [] = Some (Ok (3, [7, 8, 9]))"
proof -
  have ob: "ob_size demo_outboard = 3" "ob_root demo_outboard = replicate 32 3" by (simp_all add: demo_outboard_def)
  have "\<exists>sent counts ls. encode_validated_reader demo_geometry demo_blake3 demo_zstd vec_write_owned vec_flush
      \<lparr> rd_bytes = [7, 8, 9], rd_failure = None \<rparr> demo_outboard [] Raw 3 = Some (Ok (sent, counts)) \<and>
    decode_verified demo_geometry demo_blake3 demo_zstd \<lparr> rd_bytes = sent @ COMPLETE_MARKER, rd_failure = None \<rparr>
      (ob_root demo_outboard) (ob_size demo_outboard) Raw collect [] = Some (Ok (ob_size demo_outboard, offered collect [] ls)) \<and>
    concat ls = [7, 8, 9]"
    by (rule transfer_round_trip [where t = demo_shape])
      (simp_all add: ob demo_shaped demo_hashes demo_root demo_outboard_for demo_wire collect_def)
  then show ?thesis by (auto simp: ob collect_offered)
qed

lemma demo_outboard_shaped: "bao_shaped demo_geometry (ob_size demo_outboard) demo_shape"
  using demo_shaped by (simp add: demo_outboard_def)

lemma demo_transfer:
  "\<exists>res. encode_validated_reader demo_geometry demo_blake3 demo_zstd vec_write_owned vec_flush
      \<lparr> rd_bytes = [7, 8, 9], rd_failure = None \<rparr> demo_outboard [] Raw 3 = Some (Ok res)"
  "decode_verified demo_geometry demo_blake3 demo_zstd
    \<lparr> rd_bytes = (replicate 32 1 @ replicate 32 2 @ [7, 8, 9]) @ COMPLETE_MARKER, rd_failure = None \<rparr> (replicate 32 3) 3 Raw collect [] =
   Some (Ok (3, [7, 8, 9]))"
proof -
  have ob: "ob_size demo_outboard = 3" "ob_root demo_outboard = replicate 32 3" by (simp_all add: demo_outboard_def)
  have p: "length [7, 8, 9 :: u8] = unat (ob_size demo_outboard)"
    "ob_root demo_outboard = tree_hash demo_geometry demo_blake3 True demo_shape [7, 8, 9]"
    "length (wire_of demo_geometry demo_blake3 (\<lambda>raw. raw) demo_shape [7, 8, 9]) < 2 ^ 64" "\<And>c l. snd (collect c l) = Ok ()"
    by (simp_all add: ob demo_root demo_wire collect_def)
  note tc = raw_leaf.transfer_complete [where f = collect, OF demo_outboard_shaped order_refl demo_hashes p(1,2) demo_outboard_for p(3,4), unfolded demo_wire ob]
  show "\<exists>res. encode_validated_reader demo_geometry demo_blake3 demo_zstd vec_write_owned vec_flush
      \<lparr> rd_bytes = [7, 8, 9], rd_failure = None \<rparr> demo_outboard [] Raw 3 = Some (Ok res)" using tc(1) by blast
  show "decode_verified demo_geometry demo_blake3 demo_zstd
    \<lparr> rd_bytes = (replicate 32 1 @ replicate 32 2 @ [7, 8, 9]) @ COMPLETE_MARKER, rd_failure = None \<rparr> (replicate 32 3) 3 Raw collect [] =
   Some (Ok (3, [7, 8, 9]))" using tc(2) [where Z = demo_zstd and c = "[]"] by (auto simp only: collect_offered append_Nil)
qed

lemma demo_decode_short:
  "\<exists>e. decode_verified demo_geometry demo_blake3 demo_zstd
    \<lparr> rd_bytes = replicate 32 1 @ replicate 32 2 @ [7, 8, 9], rd_failure = None \<rparr> (replicate 32 3) 3 Raw collect [] =
   Some (Err (e, [7, 8]))"
  by (simp add: demo_v4_defs decode_verified_def decode_parent_def read_exact_def parse_hash_pair_def read_leaf_def accept_leaf_def
      checked_add_bytes_def checked_add_def collect_def decode_close_def COMPLETE_MARKER_def)

theorem accepted_body_is_authentic_witness:
  "\<exists>ls. [7, 8, 9] = offered collect [] ls \<and> (3::u64) = 3 \<and> length (concat ls) = unat (3::u64) \<and>
    tree_hash demo_geometry demo_blake3 True demo_shape (concat ls) = replicate 32 3"
  by (rule accepted_body_is_authentic [OF demo_shaped demo_transfer(2)])

theorem failed_transfer_hands_on_prefix_witness:
  "handed_prefix collect [] 3 [7, 8, 9] [7, 8] \<or>
    (\<exists>e ls l. [7, 8] = offered collect [] (ls @ [l]) \<and> concat (ls @ [l]) = [7, 8, 9] \<and> snd (collect (offered collect [] ls) l) = Err e)"
  using demo_decode_short failed_transfer_hands_on_prefix [OF demo_shaped _ demo_root [symmetric] _ demo_preimage] by fastforce

theorem served_body_is_validated_witness:
  "length [7, 8, 9 :: u8] = unat (ob_size demo_outboard) \<and>
    tree_hash demo_geometry demo_blake3 True demo_shape [7, 8, 9] = ob_root demo_outboard"
proof -
  obtain res where "encode_validated_reader demo_geometry demo_blake3 demo_zstd vec_write_owned vec_flush
      \<lparr> rd_bytes = [7, 8, 9], rd_failure = None \<rparr> demo_outboard [] Raw 3 = Some (Ok res)"
    using demo_transfer(1) by blast
  from served_body_is_validated [OF demo_outboard_shaped this] show ?thesis by simp
qed

theorem decode_verified_returns_witness:
  "\<exists>verdict. decode_verified demo_geometry demo_blake3 demo_zstd \<lparr> rd_bytes = [1, 2, 3], rd_failure = None \<rparr>
    (replicate 32 3) 3 Zstd collect [] = Some verdict"
  by (rule decode_verified_returns) (simp add: demo_zstd_def copy_call_within)

theorem leaf_limits_witness: "(1500::nat) \<le> 2 ^ unat (leaf_window_log_max 1500)"
  by (rule leaf_limits [THEN conjunct1]) simp

end
