(* ===== verification/Nar_V4_Accounting.thy ===== *)
theory Nar_V4_Accounting
  imports Nar_V4
begin

text \<open>
  The byte accounting of a \<^verbatim>\<open>/nar/4\<close> exchange: every accepted accounting adds up as unbounded integers, and the
  final consistency check never fails.
\<close>

section \<open>Accounting\<close>

text \<open>The parts of an accounting add up, as integers.\<close>

definition balanced :: "nar_v4_wire_accounting \<Rightarrow> bool" where
  "balanced acc \<longleftrightarrow>
     unat (response_body_bytes acc) = unat (proof_bytes acc) + unat (leaf_length_prefix_bytes acc) +
       unat (encoded_leaf_bytes acc) + unat (complete_marker_bytes acc) \<and>
     unat (response_protocol_bytes acc) = unat (response_body_bytes acc) + unat (response_header_bytes acc) \<and>
     unat (exchange_protocol_bytes acc) = unat (response_protocol_bytes acc) + unat (request_protocol_bytes acc) \<and>
     unat (request_protocol_bytes acc) = 33 \<and> unat (response_header_bytes acc) = 10 \<and> unat (complete_marker_bytes acc) = 4"

lemma checked_bind_iff:
  "Option.bind v (\<lambda>n. checked_add n (x::u64)) = Some y \<longleftrightarrow> (\<exists>n. v = Some n \<and> unat y = unat n + unat x)"
proof -
  have "unat n + unat x < 2 ^ 64" if "unat y = unat n + unat x" for n using that unat_bound [of y] by simp
  then show ?thesis by (auto simp: bind_eq_Some_conv checked_add_Some_iff)
qed

lemma constants: "unat REQUEST_PROTOCOL_BYTES = 33" "unat RESPONSE_HEADER_BYTES = 10" "unat COMPLETE_MARKER_BYTES = 4"
  by (simp_all add: REQUEST_PROTOCOL_BYTES_def RESPONSE_HEADER_BYTES_def COMPLETE_MARKER_BYTES_def COMPLETE_MARKER_def)

lemma validate_balanced:
  assumes "request_protocol_bytes acc = REQUEST_PROTOCOL_BYTES" "response_header_bytes acc = RESPONSE_HEADER_BYTES"
    "complete_marker_bytes acc = COMPLETE_MARKER_BYTES" "balanced acc"
  shows "validate acc = Ok ()"
proof -
  let ?p = "proof_bytes acc" and ?x = "leaf_length_prefix_bytes acc" and ?e = "encoded_leaf_bytes acc"
  have le: "unat ?p + unat ?x + unat ?e < 2 ^ 64"
    using assms(4) unat_bound [of "response_body_bytes acc"] by (auto simp: balanced_def)
  have "checked_add ?p ?x = Some (?p + ?x)" "checked_add (?p + ?x) ?e = Some (?p + ?x + ?e)"
    and u: "unat (?p + ?x + ?e) = unat ?p + unat ?x + unat ?e"
    using le by (auto simp: checked_add_def unat_word_ariths)
  then have framed: "Option.bind (checked_add ?p ?x) (\<lambda>n. checked_add n ?e) = Some (?p + ?x + ?e)" by simp
  have body: "Option.bind (Some (?p + ?x + ?e)) (\<lambda>n. checked_add n (complete_marker_bytes acc)) = Some (response_body_bytes acc)"
    "Option.bind (Some (response_body_bytes acc)) (\<lambda>n. checked_add n (response_header_bytes acc)) = Some (response_protocol_bytes acc)"
    "Option.bind (Some (response_protocol_bytes acc)) (\<lambda>n. checked_add n (request_protocol_bytes acc)) = Some (exchange_protocol_bytes acc)"
    using assms(4) u by (simp_all only: checked_bind_iff balanced_def) simp_all
  show ?thesis unfolding validate_def framed body Let_def using assms(1-3) by simp
qed

lemma and_then_ok_or: "and_then (ok_or e v) f = (case v of None \<Rightarrow> Err e | Some x \<Rightarrow> f x)"
  by (cases v) auto

text \<open>The accounting that a framed body of a given length has.\<close>

definition accounted :: "bao_geometry \<Rightarrow> u64 \<Rightarrow> wire_codec \<Rightarrow> u64 \<Rightarrow> nar_v4_wire_accounting \<Rightarrow> bool" where
  "accounted G raw_size codec framed acc \<longleftrightarrow> balanced acc \<and> proof_bytes acc = outboard_size G raw_size \<and>
     unat framed = unat (proof_bytes acc) + unat (leaf_length_prefix_bytes acc) + unat (encoded_leaf_bytes acc) \<and>
     (codec = Raw \<longrightarrow> encoded_leaf_bytes acc = raw_size)"

lemma from_framed_cases:
  "(\<exists>acc. from_framed_bao_bytes G raw_size codec framed = Ok acc \<and> accounted G raw_size codec framed acc) \<or>
   (\<exists>e. from_framed_bao_bytes G raw_size codec framed = Err e \<and> e \<noteq> InconsistentAccounting)"
proof (cases "case codec of Raw \<Rightarrow> Ok 0 | Zstd \<Rightarrow> ok_or LeafPrefixOverflow (checked_mul (max (div_ceil raw_size (64 * 1024)) 1) 4)")
  case (Inl e)
  then have "e = LeafPrefixOverflow" by (cases codec) (auto split: option.splits elim!: ok_or.elims)
  then show ?thesis by (simp only: from_framed_bao_bytes_def Let_def Inl and_then.simps) simp
next
  case (Inr pre)
  note eq = from_framed_bao_bytes_def [of G raw_size codec framed, unfolded Let_def Inr and_then.simps and_then_ok_or]
  show ?thesis
  proof (rule disjCI)
    assume no: "\<not> (\<exists>e. from_framed_bao_bytes G raw_size codec framed = Err e \<and> e \<noteq> InconsistentAccounting)"
    obtain fixed enc body resp exch where
      s: "checked_add (outboard_size G raw_size) pre = Some fixed" "checked_sub framed fixed = Some enc"
        "\<not> (codec = Raw \<and> enc \<noteq> raw_size)" "checked_add framed COMPLETE_MARKER_BYTES = Some body"
        "checked_add RESPONSE_HEADER_BYTES body = Some resp" "checked_add REQUEST_PROTOCOL_BYTES resp = Some exch"
      using no unfolding eq by (simp split: option.splits if_splits)
    let ?acc = "\<lparr> request_protocol_bytes = REQUEST_PROTOCOL_BYTES, response_header_bytes = RESPONSE_HEADER_BYTES,
      proof_bytes = outboard_size G raw_size, leaf_count = max (div_ceil raw_size (64 * 1024)) 1,
      leaf_length_prefix_bytes = pre, encoded_leaf_bytes = enc, complete_marker_bytes = COMPLETE_MARKER_BYTES,
      response_body_bytes = body, response_protocol_bytes = resp, exchange_protocol_bytes = exch \<rparr>"
    have bal: "balanced ?acc" and framed: "unat framed = unat (outboard_size G raw_size) + unat pre + unat enc"
      using s by (auto simp: balanced_def constants checked_add_Some_iff checked_sub_Some_iff)
    have valid: "validate ?acc = Ok ()" using bal by (intro validate_balanced) simp_all
    have "from_framed_bao_bytes G raw_size codec framed = Ok ?acc"
      by (simp only: eq s option.case if_False valid and_then.simps)
    then show "\<exists>acc. from_framed_bao_bytes G raw_size codec framed = Ok acc \<and> accounted G raw_size codec framed acc"
      using bal framed s(3) by (auto simp: accounted_def)
  qed
qed


section \<open>Property\<close>

text \<open>The accounting of a response, whatever its length: either it is refused for a reason other than an
  inconsistency of its own, so the final consistency check never fires, or it adds up. Then the parts sum
  without wrap-around to the body, the response and the exchange, the response has the length that was
  observed, the proof has the size of the tree, and an uncompressed body has the declared size.\<close>

theorem accounting_adds_up:
  "(\<exists>acc. from_response_protocol_bytes G raw_size codec response = Ok acc \<and> balanced acc \<and>
     response_protocol_bytes acc = response \<and> proof_bytes acc = outboard_size G raw_size \<and>
     encoded_leaf_bytes acc = (if codec = Raw then raw_size else encoded_leaf_bytes acc)) \<or>
   (\<exists>e. from_response_protocol_bytes G raw_size codec response = Err e \<and> e \<noteq> InconsistentAccounting)"
proof (cases "checked_sub response (RESPONSE_HEADER_BYTES + COMPLETE_MARKER_BYTES)")
  case None
  then show ?thesis by (simp add: from_response_protocol_bytes_def)
next
  case (Some framed)
  have "unat response = 14 + unat framed"
    using Some by (simp add: checked_sub_Some_iff RESPONSE_HEADER_BYTES_def COMPLETE_MARKER_BYTES_def COMPLETE_MARKER_def)
  then have "response_protocol_bytes acc = response" if "accounted G raw_size codec framed acc" for acc
    using that by (auto simp: accounted_def balanced_def word_unat_eq_iff)
  then show ?thesis
    using from_framed_cases [of G raw_size codec framed] Some
    by (auto simp: from_response_protocol_bytes_def accounted_def)
qed

end
