(* ===== verification/Rust_Str.thy ===== *)
theory Rust_Str
  imports Text_Lines "HOL-Library.Sublist"
begin

text \<open>
  Functions of Rust's \<^verbatim>\<open>str\<close> that look at characters rather than bytes. A string is a list of bytes, one
  \<^typ>\<open>char\<close> per byte; the functions agree with the library on well-formed UTF-8.
\<close>

section \<open>UTF-8\<close>

text \<open>Well-formed UTF-8, as \<^verbatim>\<open>std::str::from_utf8\<close> checks it.\<close>

abbreviation "continuation b \<equiv> 0x80 \<le> b \<and> b \<le> (0xBF::nat)"

fun utf8 :: "nat list \<Rightarrow> bool" where
  "utf8 [] = True"
| "utf8 (a # xs) =
     (if a < 0x80 then utf8 xs
      else if 0xC2 \<le> a \<and> a \<le> 0xDF then (case xs of b # ys \<Rightarrow> continuation b \<and> utf8 ys | [] \<Rightarrow> False)
      else if 0xE0 \<le> a \<and> a \<le> 0xEF then
        (case xs of b # c # ys \<Rightarrow>
           (if a = 0xE0 then 0xA0 else 0x80) \<le> b \<and> b \<le> (if a = 0xED then 0x9F else 0xBF) \<and> continuation c \<and> utf8 ys
         | _ \<Rightarrow> False)
      else if 0xF0 \<le> a \<and> a \<le> 0xF4 then
        (case xs of b # c # d # ys \<Rightarrow>
           (if a = 0xF0 then 0x90 else 0x80) \<le> b \<and> b \<le> (if a = 0xF4 then 0x8F else 0xBF) \<and>
           continuation c \<and> continuation d \<and> utf8 ys
         | _ \<Rightarrow> False)
      else False)"

definition from_utf8 :: "string \<Rightarrow> string option" where
  "from_utf8 s = (if utf8 (map of_char s) then Some s else None)"

definition is_ascii_whitespace :: "char \<Rightarrow> bool" where
  "is_ascii_whitespace c \<longleftrightarrow> (of_char c :: nat) \<in> {0x20, 0x09, 0x0A, 0x0C, 0x0D}"

text \<open>
  \<^verbatim>\<open>String::from_utf8_lossy\<close>: each maximal ill-formed piece becomes one replacement character. \<open>bad_len\<close> is the
  length of such a piece at the front of a list on which no character starts.
\<close>

definition lead_width :: "nat \<Rightarrow> nat" where
  "lead_width a =
     (if a < 0x80 then 1 else if 0xC2 \<le> a \<and> a \<le> 0xDF then 2 else if 0xE0 \<le> a \<and> a \<le> 0xEF then 3
      else if 0xF0 \<le> a \<and> a \<le> 0xF4 then 4 else 0)"

definition second_ok :: "nat \<Rightarrow> nat \<Rightarrow> bool" where
  "second_ok a b \<longleftrightarrow>
     (if a = 0xE0 then 0xA0 else if a = 0xF0 then 0x90 else 0x80) \<le> b \<and>
     b \<le> (if a = 0xED then 0x9F else if a = 0xF4 then 0x8F else 0xBF)"

definition good_char :: "nat list \<Rightarrow> nat option" where
  "good_char xs =
     (case xs of [] \<Rightarrow> None
      | a # _ \<Rightarrow>
          (let w = lead_width a
           in if w = 0 \<or> length xs < w then None
              else if w = 1 then Some 1
              else if second_ok a (xs ! 1) \<and> (\<forall>i \<in> {2..<w}. continuation (xs ! i)) then Some w
              else None))"

definition bad_len :: "nat list \<Rightarrow> nat" where
  "bad_len xs =
     (let w = lead_width (xs ! 0)
      in if w \<le> 2 \<or> length xs < 2 \<or> \<not> second_ok (xs ! 0) (xs ! 1) then 1
         else if w = 3 \<or> length xs < 3 \<or> \<not> continuation (xs ! 2) then 2
         else 3)"

lemma good_char_pos: "good_char xs = Some n \<Longrightarrow> 0 < n"
  by (auto simp: good_char_def Let_def split: list.splits if_splits)

lemma bad_len_pos: "0 < bad_len xs"
  by (simp add: bad_len_def Let_def)

function lossy :: "nat list \<Rightarrow> nat list" where
  "lossy [] = []"
| "lossy (x # xs) =
     (case good_char (x # xs) of
        Some n \<Rightarrow> take n (x # xs) @ lossy (drop n (x # xs))
      | None \<Rightarrow> [0xEF, 0xBF, 0xBD] @ lossy (drop (bad_len (x # xs)) (x # xs)))"
  by pat_completeness auto

termination
  by (relation "measure length") (auto simp: bad_len_pos dest: good_char_pos)

definition from_utf8_lossy :: "string \<Rightarrow> string" where
  "from_utf8_lossy s = map char_of (lossy (map of_char s))"


lemma utf8_ascii: "\<forall>x \<in> set xs. x < 0x80 \<Longrightarrow> utf8 xs"
  by (induction xs) auto

lemma str_lines_open_end:
  "list_all plain_line ls \<Longrightarrow> NEWLINE \<notin> set l \<Longrightarrow> l \<noteq> [] \<Longrightarrow> str_lines (unlines ls @ l) = ls @ [l]"
proof (induction ls)
  case Nil
  then have "strip_suffix [NEWLINE] l = None" by (auto simp: strip_suffix_None_iff)
  then show ?case using Nil by (simp add: str_lines_def split_inclusive_free strip_line_end_def)
next
  case (Cons k ls)
  then show ?case by (simp add: str_lines_def split_inclusive_append strip_line_end_newline plain_line_def)
qed


section \<open>White space\<close>

text \<open>The encodings of the characters with the Unicode property White_Space.\<close>

definition WHITE_SPACE :: "string list" where
  "WHITE_SPACE = map (map char_of)
     ([[0x09], [0x0A], [0x0B], [0x0C], [0x0D], [0x20], [0xC2, 0x85], [0xC2, 0xA0], [0xE1, 0x9A, 0x80]] @
      map (\<lambda>b. [0xE2, 0x80, b]) [0x80..<0x8B] @
      [[0xE2, 0x80, 0xA8], [0xE2, 0x80, 0xA9], [0xE2, 0x80, 0xAF], [0xE2, 0x81, 0x9F], [0xE3, 0x80, 0x80 :: nat]])"

function strip_any :: "'a list list \<Rightarrow> 'a list \<Rightarrow> 'a list" where
  "strip_any ws s =
     (case List.find (\<lambda>w. w \<noteq> [] \<and> prefix w s) ws of None \<Rightarrow> s | Some w \<Rightarrow> strip_any ws (drop (length w) s))"
  by pat_completeness auto

termination
  by (relation "measure (length \<circ> snd)") (auto simp: find_Some_iff prefix_def)

declare strip_any.simps [simp del]

definition str_trim :: "string \<Rightarrow> string" where
  "str_trim s = rev (strip_any (map rev WHITE_SPACE) (rev (strip_any WHITE_SPACE s)))"

function split_ws :: "string \<Rightarrow> string \<Rightarrow> string list" where
  "split_ws cur s =
     (case List.find (\<lambda>w. w \<noteq> [] \<and> prefix w s) WHITE_SPACE of
        Some w \<Rightarrow> (if cur = [] then [] else [rev cur]) @ split_ws [] (drop (length w) s)
      | None \<Rightarrow> (case s of [] \<Rightarrow> (if cur = [] then [] else [rev cur]) | c # cs \<Rightarrow> split_ws (c # cur) cs))"
  by pat_completeness auto

termination
  by (relation "measure (length \<circ> snd)") (auto simp: find_Some_iff prefix_def)

declare split_ws.simps [simp del]

definition split_whitespace :: "string \<Rightarrow> string list" where
  "split_whitespace s = split_ws [] s"


section \<open>Splitting from the right\<close>

definition rsplit_once :: "'a \<Rightarrow> 'a list \<Rightarrow> ('a list \<times> 'a list) option" where
  "rsplit_once c s = map_option (\<lambda>(r, l). (rev l, rev r)) (split_once c (rev s))"

lemma split_once_Some_iff: "split_once c s = Some (a, b) \<longleftrightarrow> s = a @ c # b \<and> c \<notin> set a"
proof
  assume "split_once c s = Some (a, b)"
  then obtain y where y: "dropWhile (\<lambda>x. x \<noteq> c) s = y # b" "a = takeWhile (\<lambda>x. x \<noteq> c) s"
    by (auto simp: split_once_def split: list.splits)
  then have "y = c" using hd_dropWhile [of "\<lambda>x. x \<noteq> c" s] by simp
  then show "s = a @ c # b \<and> c \<notin> set a"
    using y takeWhile_dropWhile_id [of "\<lambda>x. x \<noteq> c" s] by (auto dest: set_takeWhileD)
next
  assume s: "s = a @ c # b \<and> c \<notin> set a"
  then have "dropWhile (\<lambda>x. x \<noteq> c) s = c # b" "takeWhile (\<lambda>x. x \<noteq> c) s = a"
    by (auto simp: dropWhile_append takeWhile_append)
  then show "split_once c s = Some (a, b)" by (simp add: split_once_def)
qed

lemma split_once_append [text_simps]: "c \<notin> set a \<Longrightarrow> split_once c (a @ c # b) = Some (a, b)"
  by (simp add: split_once_Some_iff)

lemma split_once_None_iff: "split_once c s = None \<longleftrightarrow> c \<notin> set s"
proof (cases "dropWhile (\<lambda>x. x \<noteq> c) s")
  case Nil
  then have "c \<notin> set s" by auto
  then show ?thesis unfolding split_once_def Nil by simp
next
  case (Cons y ys)
  then have "y = c" "y \<in> set s" using hd_dropWhile [of "\<lambda>x. x \<noteq> c" s] set_dropWhileD [of y "\<lambda>x. x \<noteq> c" s] by auto
  then show ?thesis using Cons by (simp add: split_once_def)
qed

lemma rsplit_once_Some_iff: "rsplit_once c s = Some (a, b) \<longleftrightarrow> s = a @ c # b \<and> c \<notin> set b"
proof -
  have "rsplit_once c s = Some (a, b) \<longleftrightarrow> split_once c (rev s) = Some (rev b, rev a)"
    by (cases "split_once c (rev s)") (auto simp: rsplit_once_def)
  also have "\<dots> \<longleftrightarrow> s = a @ c # b \<and> c \<notin> set b"
    unfolding split_once_Some_iff by (auto simp: rev_swap)
  finally show ?thesis .
qed


section \<open>Trimming\<close>

text \<open>Text without a white-space prefix or suffix is left alone, and only white space is removed.\<close>

lemma find_hit: "List.find p xs = Some x \<Longrightarrow> x \<in> set xs \<and> p x"
  by (auto simp: find_Some_iff)

lemma strip_any_id: "\<forall>w \<in> set ws. w \<noteq> [] \<longrightarrow> \<not> prefix w s \<Longrightarrow> strip_any ws s = s"
  by (subst strip_any.simps) (auto dest!: find_hit split: option.split)

lemma strip_any_result: "w \<in> set ws \<Longrightarrow> w \<noteq> [] \<Longrightarrow> \<not> prefix w (strip_any ws s)"
proof (induction ws s rule: strip_any.induct)
  case (1 ws s)
  show ?case
  proof (cases "List.find (\<lambda>w. w \<noteq> [] \<and> prefix w s) ws")
    case None
    then show ?thesis using "1.prems" by (subst strip_any.simps) (simp, auto simp: find_None_iff)
  next
    case (Some u)
    then show ?thesis using "1.IH" [OF Some] "1.prems" by (subst strip_any.simps) simp
  qed
qed

lemma strip_any_idem [simp]: "strip_any ws (strip_any ws s) = strip_any ws s"
  by (rule strip_any_id) (blast dest: strip_any_result)

lemma suffix_strip_any: "suffix (strip_any ws s) s"
proof (induction ws s rule: strip_any.induct)
  case (1 ws s)
  show ?case
  proof (cases "List.find (\<lambda>w. w \<noteq> [] \<and> prefix w s) ws")
    case (Some u)
    then show ?thesis using "1.IH" [OF Some] suffix_drop suffix_order.trans by (subst strip_any.simps) fastforce
  qed (subst strip_any.simps, simp)
qed

text \<open>Printable ASCII is never white space.\<close>

definition graphic :: "char \<Rightarrow> bool" where
  "graphic c \<longleftrightarrow> 0x20 < (of_char c :: nat) \<and> (of_char c :: nat) < 0x7F"

lemma decimal_graphic: "list_all graphic (decimal n)"
proof -
  have "graphic c" if "c \<in> set (decimal n)" for c
    using decimal_digits [OF that] by (auto simp: digit_value_def graphic_def Let_def split: if_splits)
  then show ?thesis by (simp add: list_all_iff)
qed

lemma graphic_free: "list_all graphic s \<Longrightarrow> CHR '' '' \<notin> set s \<and> NEWLINE \<notin> set s \<and> CARRIAGE_RETURN \<notin> set s \<and> CHR 0x09 \<notin> set s"
  by (auto simp: list_all_iff graphic_def NEWLINE_def CARRIAGE_RETURN_def)

lemma white_space_not_graphic: "w \<in> set WHITE_SPACE \<Longrightarrow> w \<noteq> [] \<and> (\<forall>c \<in> set w. \<not> graphic c)"
proof -
  have "list_all (\<lambda>w. w \<noteq> [] \<and> list_all (\<lambda>c. \<not> graphic c) w) WHITE_SPACE" by code_simp
  then show "w \<in> set WHITE_SPACE \<Longrightarrow> w \<noteq> [] \<and> (\<forall>c \<in> set w. \<not> graphic c)" by (auto simp: list_all_iff)
qed

lemma not_white_prefix: "w \<in> set WHITE_SPACE \<Longrightarrow> graphic (hd s) \<Longrightarrow> \<not> prefix w s"
  using white_space_not_graphic [of w] by (cases w; cases s) auto

lemma not_white_suffix: "w \<in> set WHITE_SPACE \<Longrightarrow> graphic (last s) \<Longrightarrow> \<not> prefix (rev w) (rev s)"
  using white_space_not_graphic [of w] by (cases w rule: rev_cases; cases s rule: rev_cases) auto

lemma str_trim_graphic: "s = [] \<or> graphic (hd s) \<and> graphic (last s) \<Longrightarrow> str_trim s = s"
  using not_white_prefix not_white_suffix white_space_not_graphic
  by (auto simp: str_trim_def strip_any_id)

end
