(* ===== verification/Rewrite.thy ===== *)
theory Rewrite
  imports Rust_Str
begin

text \<open>
  The narinfo rewriting of \<^verbatim>\<open>daemon-core/src/rewrite.rs\<close>: a narinfo for a compressed NAR is turned into one for
  the raw NAR by replacing the four transport fields. A body is a string, one character per byte. It is proved
  that every other line is kept byte for byte and in place, and that rewriting is idempotent.
\<close>

section \<open>Definitions\<close>

definition REWRITE_ALLOWLIST :: "string list" where
  "REWRITE_ALLOWLIST = [''Compression'', ''URL'', ''FileHash'', ''FileSize'']"

definition SIGNED_FIELDS :: "string list" where
  "SIGNED_FIELDS = [''StorePath'', ''NarHash'', ''NarSize'', ''References'', ''Deriver'', ''CA'', ''Sig'']"

record raw_rewrite =
  rw_body :: string
  rw_url_token :: string
  rw_nar_hash :: string
  rw_nar_size :: u64

datatype rewrite_error = MissingField string | MalformedNarSize string | MalformedNarHash string

definition ascii_trim :: "string \<Rightarrow> string" where
  "ascii_trim = trim is_ascii_whitespace"

definition COLON :: char where "COLON = CHR '':''"

definition is_field :: "string \<Rightarrow> string \<Rightarrow> bool" where
  "is_field line key \<longleftrightarrow> length line > length key \<and> take (length key) line = key \<and> line ! length key = COLON"

definition field_value :: "string \<Rightarrow> string \<Rightarrow> string option" where
  "field_value line key = (if is_field line key then Some (drop (length key + 1) line) else None)"

definition field_key :: "string \<Rightarrow> string option" where
  "field_key line = (if COLON \<in> set line then Some (takeWhile (\<lambda>c. c \<noteq> COLON) line) else None)"

definition split_terminator :: "string \<Rightarrow> string \<times> string" where
  "split_terminator seg =
     (case strip_suffix [CARRIAGE_RETURN, NEWLINE] seg of
        Some rest \<Rightarrow> (rest, drop (length rest) seg)
      | None \<Rightarrow> (case strip_suffix [NEWLINE] seg of
          Some rest \<Rightarrow> (rest, drop (length rest) seg)
        | None \<Rightarrow> (seg, drop (length seg) seg)))"

text \<open>The scan for the fields a rewrite needs; a later line overrides an earlier one.\<close>

record scan =
  sc_nar_hash :: "string option"
  sc_nar_size :: "string option"
  sc_compression :: "string option"
  sc_url :: bool
  sc_filehash :: bool
  sc_filesize :: bool

definition scan_start :: scan where
  "scan_start = \<lparr> sc_nar_hash = None, sc_nar_size = None, sc_compression = None, sc_url = False, sc_filehash = False,
     sc_filesize = False \<rparr>"

definition scan_line :: "scan \<Rightarrow> string \<Rightarrow> scan" where
  "scan_line sc line =
     (case field_value line ''NarHash'' of Some v \<Rightarrow> sc\<lparr> sc_nar_hash := Some v \<rparr>
      | None \<Rightarrow> (case field_value line ''NarSize'' of Some v \<Rightarrow> sc\<lparr> sc_nar_size := Some v \<rparr>
      | None \<Rightarrow> (case field_value line ''Compression'' of Some v \<Rightarrow> sc\<lparr> sc_compression := Some v \<rparr>
      | None \<Rightarrow> if is_field line ''URL'' then sc\<lparr> sc_url := True \<rparr>
        else if is_field line ''FileHash'' then sc\<lparr> sc_filehash := True \<rparr>
        else if is_field line ''FileSize'' then sc\<lparr> sc_filesize := True \<rparr>
        else sc)))"

definition replacement :: "string \<Rightarrow> string \<Rightarrow> u64 \<Rightarrow> string \<Rightarrow> string option" where
  "replacement url_token nar_hash nar_size line =
     (case field_key line of
        None \<Rightarrow> None
      | Some key \<Rightarrow>
          if key \<notin> set REWRITE_ALLOWLIST then None
          else if key = ''URL'' then Some (''URL: nar/'' @ url_token)
          else if key = ''Compression'' then Some ''Compression: none''
          else if key = ''FileHash'' then Some (''FileHash: '' @ nar_hash)
          else if key = ''FileSize'' then Some (''FileSize: '' @ decimal (unat nar_size))
          else None)"

definition rewrite_seg :: "string \<Rightarrow> string \<Rightarrow> u64 \<Rightarrow> string \<Rightarrow> string" where
  "rewrite_seg url_token nar_hash nar_size seg =
     (let (line, eol) = split_terminator seg
      in case replacement url_token nar_hash nar_size line of Some new_line \<Rightarrow> new_line @ eol | None \<Rightarrow> seg)"

text \<open>The facts a rewrite takes from a body: the token, the hash and the size.\<close>

definition raw_facts :: "string \<Rightarrow> (rewrite_error, string \<times> string \<times> u64) result" where
  "raw_facts body =
     (let sc = foldl scan_line scan_start (split_on NEWLINE body)
      in and_then (ok_or (MissingField ''NarHash'') (sc_nar_hash sc)) (\<lambda>nar_hash.
         and_then (ok_or (MissingField ''NarSize'') (sc_nar_size sc)) (\<lambda>nar_size_raw.
         if \<not> sc_url sc then Err (MissingField ''URL'')
         else and_then (ok_or (MissingField ''Compression'') (sc_compression sc)) (\<lambda>compression.
         let is_uncompressed = (ascii_trim compression = ''none'')
         in if \<not> sc_filehash sc \<and> \<not> is_uncompressed then Err (MissingField ''FileHash'')
            else if \<not> sc_filesize sc \<and> \<not> is_uncompressed then Err (MissingField ''FileSize'')
            else and_then (ok_or (MalformedNarHash ''<non-utf8>'') (from_utf8 (ascii_trim nar_hash))) (\<lambda>nar_hash.
            and_then (ok_or (MalformedNarSize (from_utf8_lossy nar_size_raw))
              (Option.bind (from_utf8 (ascii_trim nar_size_raw)) parse_u64)) (\<lambda>nar_size.
            let digest = (case split_once COLON nar_hash of None \<Rightarrow> nar_hash | Some (_, d) \<Rightarrow> d)
            in if digest = [] then Err (MalformedNarHash nar_hash)
               else Ok (digest @ ''.nar'', nar_hash, nar_size)))))))"

definition to_raw :: "string \<Rightarrow> (rewrite_error, raw_rewrite) result" where
  "to_raw body =
     and_then (raw_facts body) (\<lambda>(url_token, nar_hash, nar_size).
     Ok \<lparr> rw_body = concat (map (rewrite_seg url_token nar_hash nar_size) (split_inclusive NEWLINE body)),
          rw_url_token = url_token, rw_nar_hash = nar_hash, rw_nar_size = nar_size \<rparr>)"

text \<open>Which hashes are served raw: nothing, a set, or any of several decisions.\<close>

datatype raw_serve_decision = NoRawServe | AllowlistRawServe "string list" | AnyRawServe "raw_serve_decision list"

fun will_serve_raw :: "raw_serve_decision \<Rightarrow> string \<Rightarrow> bool" where
  "will_serve_raw NoRawServe nar_hash = False"
| "will_serve_raw (AllowlistRawServe hashes) nar_hash = (nar_hash \<in> set hashes)"
| "will_serve_raw (AnyRawServe decisions) nar_hash = (\<exists>d \<in> set decisions. will_serve_raw d nar_hash)"


section \<open>Segments\<close>

text \<open>A segment of a body: a line without newlines, then at most one newline.\<close>

definition proper_seg :: "string \<Rightarrow> bool" where
  "proper_seg seg \<longleftrightarrow> (\<exists>l. NEWLINE \<notin> set l \<and> (seg = l @ [NEWLINE] \<or> seg = l))"

definition chop :: "string \<Rightarrow> string" where
  "chop seg = (case strip_suffix [NEWLINE] seg of Some l \<Rightarrow> l | None \<Rightarrow> seg)"

text \<open>A list of segments that a body splits into: all but the last end in a newline, none is empty.\<close>

fun segments :: "string list \<Rightarrow> bool" where
  "segments [] = True"
| "segments (s # ss) \<longleftrightarrow> s \<noteq> [] \<and> NEWLINE \<notin> set (chop s) \<and> (ss \<noteq> [] \<longrightarrow> s = chop s @ [NEWLINE]) \<and> segments ss"

lemma chop_newline [simp]: "chop (l @ [NEWLINE]) = l"
  by (simp add: chop_def)

lemma chop_plain: "NEWLINE \<notin> set l \<Longrightarrow> chop l = l"
  by (auto simp: chop_def split: option.splits)

lemma chop_cases: "s = chop s @ [NEWLINE] \<or> s = chop s"
  by (auto simp: chop_def split: option.splits)

lemma segments_split: "segments (split_inclusive NEWLINE s)"
proof (induction s rule: length_induct)
  case (1 s)
  show ?case
  proof (cases "NEWLINE \<in> set s")
    case True
    then obtain l rest where s: "s = l @ NEWLINE # rest" "NEWLINE \<notin> set l" by (meson split_list_first)
    then show ?thesis using 1 by (simp add: split_inclusive_append)
  next
    case False
    then show ?thesis by (cases "s = []") (auto simp: split_inclusive_free chop_plain)
  qed
qed

lemma split_segments: "segments ss \<Longrightarrow> split_inclusive NEWLINE (concat ss) = ss"
proof (induction ss)
  case (Cons s ss)
  show ?case
  proof (cases "s = chop s @ [NEWLINE]")
    case True
    then have eq: "concat (s # ss) = chop s @ NEWLINE # concat ss" by (metis append.assoc append_Cons append_Nil concat.simps(2))
    show ?thesis unfolding eq using True Cons split_inclusive_append [of NEWLINE "chop s" "concat ss"] by auto
  next
    case False
    then have "s = chop s" "ss = []" using Cons.prems chop_cases [of s] by auto
    then show ?thesis using Cons.prems by (auto intro!: split_inclusive_free)
  qed
qed simp

lemma scan_empty [simp]: "scan_line sc [] = sc"
  by (simp add: scan_line_def field_value_def is_field_def)

lemma scan_segments: "segments ss \<Longrightarrow> foldl scan_line sc (split_on NEWLINE (concat ss)) = foldl scan_line sc (map chop ss)"
proof (induction ss arbitrary: sc)
  case (Cons s ss)
  show ?case
  proof (cases "s = chop s @ [NEWLINE]")
    case True
    then have eq: "concat (s # ss) = chop s @ NEWLINE # concat ss" by (metis append.assoc append_Cons append_Nil concat.simps(2))
    show ?thesis unfolding eq using Cons split_on_append [of NEWLINE "chop s" "concat ss"] by auto
  next
    case False
    then have "s = chop s" "ss = []" using Cons.prems chop_cases [of s] by auto
    then show ?thesis using Cons.prems by (auto simp: split_on_free)
  qed
qed simp


section \<open>Lines\<close>

lemma takeWhile_key: "COLON \<notin> set key \<Longrightarrow> takeWhile (\<lambda>c. c \<noteq> COLON) (key @ COLON # rest) = key"
  by (induction key) auto

lemma is_field_iff: "COLON \<notin> set key \<Longrightarrow> is_field line key \<longleftrightarrow> field_key line = Some key"
proof
  assume key: "COLON \<notin> set key"
  {
    assume "is_field line key"
    then have "line = key @ COLON # drop (Suc (length key)) line"
      by (metis Cons_nth_drop_Suc append_take_drop_id is_field_def)
    then show "field_key line = Some key"
      using takeWhile_key [OF key] by (metis (mono_tags, lifting) field_key_def in_set_conv_decomp)
  }
  assume k: "field_key line = Some key"
  then have c: "COLON \<in> set line" and tk: "takeWhile (\<lambda>c. c \<noteq> COLON) line = key"
    by (auto simp: field_key_def split: if_splits)
  then have "line = key @ dropWhile (\<lambda>c. c \<noteq> COLON) line" "dropWhile (\<lambda>c. c \<noteq> COLON) line \<noteq> []"
    by (auto simp: dropWhile_eq_Nil_conv)
  then obtain rest where "line = key @ COLON # rest"
    by (metis (mono_tags) hd_Cons_tl hd_dropWhile)
  then show "is_field line key" by (simp add: is_field_def)
qed

lemma field_key_append:
  "COLON \<notin> set key \<Longrightarrow> field_key (key @ COLON # rest) = Some key"
  by (simp add: field_key_def takeWhile_key)

lemma field_key_ext: "COLON \<notin> set x \<Longrightarrow> field_key (line @ x) = field_key line"
  by (auto simp: field_key_def takeWhile_append1)

text \<open>A rewritten segment, as a line: its key is the same, and only an allowlisted one changes.\<close>

lemma split_terminator_cases:
  assumes "split_terminator seg = (line, eol)"
  shows "seg = line @ eol" "eol = [] \<and> chop seg = line \<or> eol = [NEWLINE] \<and> chop seg = line \<or>
    eol = [CARRIAGE_RETURN, NEWLINE] \<and> chop seg = line @ [CARRIAGE_RETURN]"
proof -
  have "seg = line @ eol \<and> (eol = [] \<and> chop seg = line \<or> eol = [NEWLINE] \<and> chop seg = line \<or>
    eol = [CARRIAGE_RETURN, NEWLINE] \<and> chop seg = line @ [CARRIAGE_RETURN])"
    using assms chop_newline [of "line @ [CARRIAGE_RETURN]"] chop_newline [of line] chop_def [of seg]
    by (auto simp: split_terminator_def split: option.splits)
  then show "seg = line @ eol" "eol = [] \<and> chop seg = line \<or> eol = [NEWLINE] \<and> chop seg = line \<or>
    eol = [CARRIAGE_RETURN, NEWLINE] \<and> chop seg = line @ [CARRIAGE_RETURN]" by auto
qed

definition rewritten_key :: "string \<Rightarrow> bool" where
  "rewritten_key line \<longleftrightarrow> (\<exists>key \<in> set REWRITE_ALLOWLIST. field_key line = Some key)"

lemma colon_free: "COLON \<notin> set ''URL''" "COLON \<notin> set ''Compression''" "COLON \<notin> set ''FileHash''" "COLON \<notin> set ''FileSize''"
    "COLON \<notin> set ''NarHash''" "COLON \<notin> set ''NarSize''" "COLON \<noteq> CARRIAGE_RETURN" "COLON \<noteq> NEWLINE"
  by (simp_all add: COLON_def CARRIAGE_RETURN_def NEWLINE_def)

lemma replacement_None_iff: "replacement tok h n line = None \<longleftrightarrow> \<not> rewritten_key line"
  by (auto simp: replacement_def rewritten_key_def REWRITE_ALLOWLIST_def split: option.splits)

text \<open>What replaces a line keeps its key and is a line of its own, when the facts are.\<close>

definition fact_ok :: "string \<Rightarrow> bool" where
  "fact_ok x \<longleftrightarrow> NEWLINE \<notin> set x \<and> x \<noteq> [] \<and> last x \<noteq> CARRIAGE_RETURN"

lemma decimal_fact: "fact_ok (decimal n)"
proof -
  have "NEWLINE \<notin> set (decimal n)" "CARRIAGE_RETURN \<notin> set (decimal n)"
    using decimal_digits [of NEWLINE n] decimal_digits [of CARRIAGE_RETURN n]
    by (auto simp: digit_value_def NEWLINE_def CARRIAGE_RETURN_def)
  then show ?thesis by (metis decimal_nonempty fact_ok_def last_in_set)
qed

lemma fact_append: "NEWLINE \<notin> set x \<Longrightarrow> fact_ok y \<Longrightarrow> fact_ok (x @ y)"
  by (auto simp: fact_ok_def)

lemma literal_keys:
  "field_key (''URL: nar/'' @ x) = Some ''URL''" "field_key ''Compression: none'' = Some ''Compression''"
  "field_key (''FileHash: '' @ x) = Some ''FileHash''" "field_key (''FileSize: '' @ x) = Some ''FileSize''"
  by (simp_all add: field_key_def COLON_def)

lemma replacement_Some:
  assumes "replacement tok h n line = Some new" "fact_ok tok" "fact_ok h"
  shows "field_key new = field_key line \<and> fact_ok new \<and> replacement tok h n new = Some new \<and>
    (field_key line = Some ''Compression'' \<longrightarrow> new = ''Compression: none'')"
proof -
  have nl: "NEWLINE \<notin> set ''URL: nar/''" "fact_ok ''Compression: none''" "NEWLINE \<notin> set ''FileHash: ''" "NEWLINE \<notin> set ''FileSize: ''"
    by (simp_all add: fact_ok_def NEWLINE_def CARRIAGE_RETURN_def)
  obtain key where key: "field_key line = Some key" "key \<in> set REWRITE_ALLOWLIST"
    using assms(1) by (auto simp: replacement_def split: option.splits if_splits)
  then consider (url) "key = ''URL''" | (comp) "key = ''Compression''" | (fh) "key = ''FileHash''" | (fs) "key = ''FileSize''"
    by (auto simp: REWRITE_ALLOWLIST_def)
  then show ?thesis
  proof cases
    case url
    then have "new = ''URL: nar/'' @ tok" using assms(1) key by (simp add: replacement_def)
    then show ?thesis using url key fact_append [OF nl(1) assms(2)] literal_keys(1) [of tok] by (simp only: replacement_def) simp
  next
    case comp
    then have "new = ''Compression: none''" using assms(1) key by (simp add: replacement_def)
    then show ?thesis using comp key nl(2) literal_keys(2) by (simp only: replacement_def) simp
  next
    case fh
    then have "new = ''FileHash: '' @ h" using assms(1) key by (simp add: replacement_def)
    then show ?thesis using fh key fact_append [OF nl(3) assms(3)] literal_keys(3) [of h] by (simp only: replacement_def) simp
  next
    case fs
    then have "new = ''FileSize: '' @ decimal (unat n)" using assms(1) key by (simp add: replacement_def)
    then show ?thesis using fs key fact_append [OF nl(4) decimal_fact] literal_keys(4) [of "decimal (unat n)"] by (simp only: replacement_def) simp
  qed
qed

text \<open>One segment: untouched, or the same key, line end and no newline inside.\<close>

lemma rewrite_seg_cases:
  assumes "fact_ok tok" "fact_ok h"
  shows "\<not> rewritten_key (chop seg) \<and> rewrite_seg tok h n seg = seg \<or>
    rewritten_key (chop seg) \<and> (\<exists>new eol. rewrite_seg tok h n seg = new @ eol \<and> fact_ok new \<and>
      replacement tok h n new = Some new \<and> eol \<in> {[], [NEWLINE], [CARRIAGE_RETURN, NEWLINE]} \<and>
      (eol = [] \<longleftrightarrow> seg = chop seg) \<and> field_key new = field_key (chop seg) \<and>
      (field_key new = Some ''Compression'' \<longrightarrow> new = ''Compression: none''))"
proof -
  obtain line eol where st: "split_terminator seg = (line, eol)" by fastforce
  note cases = split_terminator_cases [OF st]
  have key: "field_key (chop seg) = field_key line"
    using cases(2) colon_free(7) field_key_ext [of "[CARRIAGE_RETURN]" line] by auto
  have eol: "eol \<in> {[], [NEWLINE], [CARRIAGE_RETURN, NEWLINE]}" "eol = [] \<longleftrightarrow> seg = chop seg"
    using cases by auto
  show ?thesis
  proof (cases "replacement tok h n line")
    case None
    then show ?thesis using st key replacement_None_iff [of tok h n line] by (simp add: rewrite_seg_def rewritten_key_def)
  next
    case (Some new)
    note new = replacement_Some [OF Some assms]
    have "rewritten_key (chop seg)" using Some key replacement_None_iff [of tok h n line] by (simp add: rewritten_key_def)
    moreover have "rewrite_seg tok h n seg = new @ eol" using Some st by (simp add: rewrite_seg_def)
    ultimately show ?thesis using key eol new by (intro disjI2 conjI exI [of _ new] exI [of _ eol]) auto
  qed
qed

lemma chop_eol:
  assumes "NEWLINE \<notin> set new" "eol \<in> {[], [NEWLINE], [CARRIAGE_RETURN, NEWLINE]}"
  shows "chop (new @ eol) = new @ (if eol = [CARRIAGE_RETURN, NEWLINE] then [CARRIAGE_RETURN] else [])"
    "eol \<noteq> [] \<Longrightarrow> new @ eol = chop (new @ eol) @ [NEWLINE]"
proof -
  have *: "chop (new @ [CARRIAGE_RETURN, NEWLINE]) = new @ [CARRIAGE_RETURN]"
    using chop_newline [of "new @ [CARRIAGE_RETURN]"] by simp
  have ne: "[NEWLINE] \<noteq> [CARRIAGE_RETURN, NEWLINE]" by simp
  show c: "chop (new @ eol) = new @ (if eol = [CARRIAGE_RETURN, NEWLINE] then [CARRIAGE_RETURN] else [])"
    using assms * ne by (auto simp: chop_plain)
  show "eol \<noteq> [] \<Longrightarrow> new @ eol = chop (new @ eol) @ [NEWLINE]" using assms(2) unfolding c by auto
qed

lemma newline_not_cr: "NEWLINE \<noteq> CARRIAGE_RETURN"
  by (simp add: NEWLINE_def CARRIAGE_RETURN_def)

lemma split_terminator_fact:
  assumes "fact_ok new" "eol \<in> {[], [NEWLINE], [CARRIAGE_RETURN, NEWLINE]}"
  shows "split_terminator (new @ eol) = (new, eol)"
proof -
  have "strip_suffix [CARRIAGE_RETURN, NEWLINE] (new @ [NEWLINE]) = None"
    using assms(1) append_butlast_last_id [of new] by (auto simp: strip_suffix_None_iff fact_ok_def)
  moreover have "strip_suffix [CARRIAGE_RETURN, NEWLINE] new = None" "strip_suffix [NEWLINE] new = None"
    using assms(1) by (auto simp: strip_suffix_None_iff fact_ok_def)
  ultimately show ?thesis using assms(2)
    by (elim insertE emptyE) (simp_all add: split_terminator_def)
qed

lemma rewrite_seg_shape:
  assumes "fact_ok tok" "fact_ok h" "NEWLINE \<notin> set (chop seg)" "seg \<noteq> []"
  shows "NEWLINE \<notin> set (chop (rewrite_seg tok h n seg))" "rewrite_seg tok h n seg \<noteq> []"
    "seg = chop seg @ [NEWLINE] \<Longrightarrow> rewrite_seg tok h n seg = chop (rewrite_seg tok h n seg) @ [NEWLINE]"
    "field_key (chop (rewrite_seg tok h n seg)) = field_key (chop seg)"
    "rewrite_seg tok h n (rewrite_seg tok h n seg) = rewrite_seg tok h n seg"
proof -
  have "NEWLINE \<notin> set (chop (rewrite_seg tok h n seg)) \<and> rewrite_seg tok h n seg \<noteq> [] \<and>
    (seg = chop seg @ [NEWLINE] \<longrightarrow> rewrite_seg tok h n seg = chop (rewrite_seg tok h n seg) @ [NEWLINE]) \<and>
    field_key (chop (rewrite_seg tok h n seg)) = field_key (chop seg) \<and>
    rewrite_seg tok h n (rewrite_seg tok h n seg) = rewrite_seg tok h n seg"
    using rewrite_seg_cases [OF assms(1,2), of seg n]
  proof (elim disjE conjE exE)
    fix new eol
    assume r: "rewrite_seg tok h n seg = new @ eol" and new: "fact_ok new" "replacement tok h n new = Some new"
      and eol: "eol \<in> {[], [NEWLINE], [CARRIAGE_RETURN, NEWLINE]}" "(eol = []) = (seg = chop seg)"
      and key: "field_key new = field_key (chop seg)"
    note c = chop_eol [OF _ eol(1), of new]
    have nl: "NEWLINE \<notin> set new" "new \<noteq> []" using new(1) by (auto simp: fact_ok_def)
    have k: "field_key (chop (new @ eol)) = field_key new"
      unfolding c(1) [OF nl(1)] using colon_free(7) by (auto intro!: field_key_ext)
    have "rewrite_seg tok h n (new @ eol) = new @ eol"
      unfolding rewrite_seg_def split_terminator_fact [OF new(1) eol(1)] using new(2) by simp
    then show ?thesis using r nl eol c key k newline_not_cr by (auto simp: c(1))
  qed (use assms in auto)
  then show "NEWLINE \<notin> set (chop (rewrite_seg tok h n seg))" "rewrite_seg tok h n seg \<noteq> []"
    "seg = chop seg @ [NEWLINE] \<Longrightarrow> rewrite_seg tok h n seg = chop (rewrite_seg tok h n seg) @ [NEWLINE]"
    "field_key (chop (rewrite_seg tok h n seg)) = field_key (chop seg)"
    "rewrite_seg tok h n (rewrite_seg tok h n seg) = rewrite_seg tok h n seg" by auto
qed

lemma segments_rewrite:
  assumes "fact_ok tok" "fact_ok h"
  shows "segments ss \<Longrightarrow> segments (map (rewrite_seg tok h n) ss)"
proof (induction ss)
  case (Cons s ss)
  then show ?case using rewrite_seg_shape(1-3) [OF assms, of s n] by auto
qed simp


section \<open>The facts of a rewritten body\<close>

text \<open>Two scans that lead to the same facts, the second over rewritten lines.\<close>

definition scans_alike :: "scan \<Rightarrow> scan \<Rightarrow> bool" where
  "scans_alike sc sc' \<longleftrightarrow> sc_nar_hash sc' = sc_nar_hash sc \<and> sc_nar_size sc' = sc_nar_size sc \<and> sc_url sc' = sc_url sc \<and>
     sc_filehash sc' = sc_filehash sc \<and> sc_filesize sc' = sc_filesize sc \<and>
     (sc_compression sc = None \<longleftrightarrow> sc_compression sc' = None) \<and>
     (\<forall>v. sc_compression sc' = Some v \<longrightarrow> ascii_trim v = ''none'')"

lemma scan_line_key:
  "scan_line sc line =
    (if field_key line = Some ''NarHash'' then sc\<lparr> sc_nar_hash := Some (drop 8 line) \<rparr>
     else if field_key line = Some ''NarSize'' then sc\<lparr> sc_nar_size := Some (drop 8 line) \<rparr>
     else if field_key line = Some ''Compression'' then sc\<lparr> sc_compression := Some (drop 12 line) \<rparr>
     else if field_key line = Some ''URL'' then sc\<lparr> sc_url := True \<rparr>
     else if field_key line = Some ''FileHash'' then sc\<lparr> sc_filehash := True \<rparr>
     else if field_key line = Some ''FileSize'' then sc\<lparr> sc_filesize := True \<rparr>
     else sc)"
proof -
  have case_if: "(case (if P then Some v else None) of None \<Rightarrow> b | Some x \<Rightarrow> a x) = (if P then a v else b)"
    for P :: bool and v :: string and a and b :: scan by simp
  have len: "length ''NarHash'' + 1 = 8" "length ''NarSize'' + 1 = 8" "length ''Compression'' + 1 = 12" by simp_all
  show ?thesis
    unfolding scan_line_def field_value_def case_if len
      is_field_iff [OF colon_free(1)] is_field_iff [OF colon_free(2)] is_field_iff [OF colon_free(3)]
      is_field_iff [OF colon_free(4)] is_field_iff [OF colon_free(5)] is_field_iff [OF colon_free(6)]
    by (rule refl)
qed

lemma trim_none: "ascii_trim '' none'' = ''none''" "ascii_trim ('' none'' @ [CARRIAGE_RETURN]) = ''none''"
  by (simp_all add: ascii_trim_def trim_def is_ascii_whitespace_def CARRIAGE_RETURN_def)

lemma scan_rewritten:
  assumes "fact_ok tok" "fact_ok h" "scans_alike sc sc'" "NEWLINE \<notin> set (chop seg)" "seg \<noteq> []"
  shows "scans_alike (scan_line sc (chop seg)) (scan_line sc' (chop (rewrite_seg tok h n seg)))"
proof -
  note key = rewrite_seg_shape(4) [OF assms(1,2,4,5), of n]
  consider (same) "\<not> rewritten_key (chop seg)" "rewrite_seg tok h n seg = seg"
    | (comp) new eol where "rewrite_seg tok h n seg = new @ eol" "eol \<in> {[], [NEWLINE], [CARRIAGE_RETURN, NEWLINE]}"
        "field_key (chop seg) = Some ''Compression''" "new = ''Compression: none''"
    | (other) key where "field_key (chop seg) = Some key" "key \<in> {''URL'', ''FileHash'', ''FileSize''}"
    using rewrite_seg_cases [OF assms(1,2), of seg n] by (auto simp: rewritten_key_def REWRITE_ALLOWLIST_def)
  then show ?thesis
  proof cases
    case same
    then have "field_key (chop seg) \<noteq> Some ''Compression''" by (auto simp: rewritten_key_def REWRITE_ALLOWLIST_def)
    then show ?thesis using same(2) assms(3) by (simp add: scan_line_key scans_alike_def)
  next
    case comp
    have "NEWLINE \<notin> set new" unfolding comp(4) by (simp add: NEWLINE_def)
    then have c: "chop (rewrite_seg tok h n seg) = new @ (if eol = [CARRIAGE_RETURN, NEWLINE] then [CARRIAGE_RETURN] else [])"
      unfolding comp(1) using comp(2) by (rule chop_eol)
    have "drop 12 (chop (rewrite_seg tok h n seg)) = '' none'' @ (if eol = [CARRIAGE_RETURN, NEWLINE] then [CARRIAGE_RETURN] else [])"
      unfolding c comp(4) by simp
    then show ?thesis using assms(3) comp(3) key trim_none unfolding scan_line_key scans_alike_def by auto
  next
    case other
    then show ?thesis using key assms(3) by (auto simp: scan_line_key scans_alike_def)
  qed
qed

lemma scan_rewritten_all:
  assumes "fact_ok tok" "fact_ok h"
  shows "segments ss \<Longrightarrow> scans_alike sc sc' \<Longrightarrow>
    scans_alike (foldl scan_line sc (map chop ss)) (foldl scan_line sc' (map chop (map (rewrite_seg tok h n) ss)))"
  by (induction ss arbitrary: sc sc') (auto simp: scan_rewritten [OF assms])

text \<open>Where the facts come from.\<close>

lemma raw_facts_Ok:
  assumes "raw_facts body = Ok (tok, h, n)"
  obtains raw_hash raw_size comp digest where
    "sc_nar_hash (foldl scan_line scan_start (split_on NEWLINE body)) = Some raw_hash" "h = ascii_trim raw_hash"
    "digest \<noteq> []" "tok = digest @ ''.nar''" "digest = (case split_once COLON h of None \<Rightarrow> h | Some (_, d) \<Rightarrow> d)"
  using assms by (auto simp: raw_facts_def Let_def from_utf8_def split: if_splits)

lemma scan_hash_plain:
  assumes "\<forall>l \<in> set ls. NEWLINE \<notin> set l" "\<forall>v. sc_nar_hash sc = Some v \<longrightarrow> NEWLINE \<notin> set v"
    "sc_nar_hash (foldl scan_line sc ls) = Some v"
  shows "NEWLINE \<notin> set v"
  using assms
proof (induction ls arbitrary: sc)
  case (Cons l ls)
  have "\<forall>v. sc_nar_hash (scan_line sc l) = Some v \<longrightarrow> NEWLINE \<notin> set v"
    using Cons.prems(1,2) by (auto simp: scan_line_key dest: in_set_dropD)
  then show ?case using Cons.IH [of "scan_line sc l"] Cons.prems(1,3) by simp
qed simp

lemma last_trim: "ascii_trim x \<noteq> [] \<Longrightarrow> last (ascii_trim x) \<noteq> CARRIAGE_RETURN"
proof -
  assume ne: "ascii_trim x \<noteq> []"
  then have "last (ascii_trim x) = hd (dropWhile is_ascii_whitespace (rev (dropWhile is_ascii_whitespace x)))"
    by (simp add: ascii_trim_def trim_def last_rev)
  then have "\<not> is_ascii_whitespace (last (ascii_trim x))"
    using ne hd_dropWhile [of is_ascii_whitespace "rev (dropWhile is_ascii_whitespace x)"] by (auto simp: ascii_trim_def trim_def)
  then show ?thesis by (auto simp: is_ascii_whitespace_def CARRIAGE_RETURN_def)
qed

lemma raw_facts_ok:
  assumes "raw_facts body = Ok (tok, h, n)"
  shows "fact_ok tok" "fact_ok h"
proof -
  obtain raw_hash digest where f: "sc_nar_hash (foldl scan_line scan_start (split_on NEWLINE body)) = Some raw_hash"
    "h = ascii_trim raw_hash" "digest \<noteq> []" "tok = digest @ ''.nar''"
    "digest = (case split_once COLON h of None \<Rightarrow> h | Some (_, d) \<Rightarrow> d)"
    using raw_facts_Ok [OF assms] by metis
  have "NEWLINE \<notin> set raw_hash"
    by (rule scan_hash_plain [OF _ _ f(1)]) (auto simp: scan_start_def dest: split_on_segments)
  then have h: "NEWLINE \<notin> set h" using set_trim [of is_ascii_whitespace raw_hash] f(2) by (auto simp: ascii_trim_def)
  have tail: "set ys \<subseteq> set h" if "dropWhile (\<lambda>x. x \<noteq> COLON) h = y # ys" for y ys
    using that by (metis list.set_intros(2) set_dropWhileD subsetI)
  have sub: "set digest \<subseteq> set h"
    using f(5) by (cases "dropWhile (\<lambda>x. x \<noteq> COLON) h") (use tail in \<open>auto simp: split_once_def\<close>)
  then show "fact_ok tok" using h f(4) by (auto simp: fact_ok_def NEWLINE_def CARRIAGE_RETURN_def)
  have "h \<noteq> []" using sub f(3) by auto
  then show "fact_ok h" using h last_trim [of raw_hash] f(2) by (simp add: fact_ok_def)
qed

lemma raw_facts_alike:
  assumes "raw_facts body = Ok r" "scans_alike (foldl scan_line scan_start (split_on NEWLINE body)) (foldl scan_line scan_start (split_on NEWLINE body'))"
  shows "raw_facts body' = Ok r"
proof -
  obtain sc sc' where sc: "sc = foldl scan_line scan_start (split_on NEWLINE body)" "sc' = foldl scan_line scan_start (split_on NEWLINE body')"
    by blast
  then obtain c where c: "sc_compression sc' = Some c" "ascii_trim c = ''none''"
    using assms by (auto simp: scans_alike_def raw_facts_def Let_def split: if_splits)
  have same: "sc_nar_hash sc' = sc_nar_hash sc" "sc_nar_size sc' = sc_nar_size sc" "sc_url sc' = sc_url sc"
    using assms(2) sc by (auto simp: scans_alike_def)
  show ?thesis using assms(1) unfolding raw_facts_def sc [symmetric] Let_def same c(1)
    by (auto simp: c(2) split: if_splits)
qed

lemma segment_shape: "segments ss \<Longrightarrow> s \<in> set ss \<Longrightarrow> NEWLINE \<notin> set (chop s) \<and> s \<noteq> []"
  by (induction ss rule: segments.induct) auto

lemma to_raw_segments:
  assumes "to_raw body = Ok rw"
  shows "split_inclusive NEWLINE (rw_body rw) =
      map (rewrite_seg (rw_url_token rw) (rw_nar_hash rw) (rw_nar_size rw)) (split_inclusive NEWLINE body)"
    "raw_facts body = Ok (rw_url_token rw, rw_nar_hash rw, rw_nar_size rw)"
    "fact_ok (rw_url_token rw)" "fact_ok (rw_nar_hash rw)"
proof -
  obtain tok h n where f: "raw_facts body = Ok (tok, h, n)"
    and rw: "rw = \<lparr> rw_body = concat (map (rewrite_seg tok h n) (split_inclusive NEWLINE body)),
      rw_url_token = tok, rw_nar_hash = h, rw_nar_size = n \<rparr>"
    using assms by (auto simp: to_raw_def)
  note ok = raw_facts_ok [OF f]
  show "split_inclusive NEWLINE (rw_body rw) =
      map (rewrite_seg (rw_url_token rw) (rw_nar_hash rw) (rw_nar_size rw)) (split_inclusive NEWLINE body)"
    unfolding rw using split_segments [OF segments_rewrite [OF ok segments_split]] by simp
  show "raw_facts body = Ok (rw_url_token rw, rw_nar_hash rw, rw_nar_size rw)"
    "fact_ok (rw_url_token rw)" "fact_ok (rw_nar_hash rw)" using f ok rw by simp_all
qed

lemma to_raw_idem:
  assumes "to_raw body = Ok rw"
  shows "to_raw (rw_body rw) = Ok rw"
proof -
  note seg = to_raw_segments [OF assms]
  let ?f = "rewrite_seg (rw_url_token rw) (rw_nar_hash rw) (rw_nar_size rw)" and ?ss = "split_inclusive NEWLINE body"
  have body': "rw_body rw = concat (map ?f ?ss)" using seg(1) concat_split_inclusive [of NEWLINE "rw_body rw"] by simp
  have "scans_alike scan_start scan_start" by (simp add: scans_alike_def scan_start_def)
  then have "scans_alike (foldl scan_line scan_start (split_on NEWLINE body)) (foldl scan_line scan_start (split_on NEWLINE (rw_body rw)))"
    using scan_rewritten_all [OF seg(3,4) segments_split] scan_segments [OF segments_split [of body]]
      scan_segments [OF segments_rewrite [OF seg(3,4) segments_split]] body' by simp
  then have facts: "raw_facts (rw_body rw) = Ok (rw_url_token rw, rw_nar_hash rw, rw_nar_size rw)"
    by (rule raw_facts_alike [OF seg(2)])
  have "?f (?f s) = ?f s" if "s \<in> set ?ss" for s
    using rewrite_seg_shape(5) [OF seg(3,4)] segment_shape [OF segments_split that] by simp
  then have "map ?f (map ?f ?ss) = map ?f ?ss" by simp
  then have "concat (map ?f (split_inclusive NEWLINE (rw_body rw))) = rw_body rw"
    unfolding seg(1) by (simp only: body')
  then show ?thesis using facts by (simp add: to_raw_def)
qed


section \<open>Properties\<close>

text \<open>C16: Rewriting works line by line and touches only the four transport fields: the output has as many lines as the
  input, each with the same key; a line whose key is not one of the four is kept byte for byte, its line end
  included; and none of the signed fields is among the four. So every signed line of a narinfo survives in
  place.\<close>

theorem rewrite_keeps_signed_lines:
  assumes "to_raw body = Ok rw"
  shows "list_all2 (\<lambda>seg seg'. field_key (chop seg') = field_key (chop seg) \<and>
      ((\<forall>key \<in> set REWRITE_ALLOWLIST. field_key (chop seg) \<noteq> Some key) \<longrightarrow> seg' = seg))
      (split_inclusive NEWLINE body) (split_inclusive NEWLINE (rw_body rw)) \<and>
    set SIGNED_FIELDS \<inter> set REWRITE_ALLOWLIST = {}"
proof
  note seg = to_raw_segments [OF assms]
  show "list_all2 (\<lambda>seg seg'. field_key (chop seg') = field_key (chop seg) \<and>
      ((\<forall>key \<in> set REWRITE_ALLOWLIST. field_key (chop seg) \<noteq> Some key) \<longrightarrow> seg' = seg))
      (split_inclusive NEWLINE body) (split_inclusive NEWLINE (rw_body rw))"
    unfolding seg(1) list_all2_map2
  proof (rule list.rel_refl_strong)
    fix s assume "s \<in> set (split_inclusive NEWLINE body)"
    then show "field_key (chop (rewrite_seg (rw_url_token rw) (rw_nar_hash rw) (rw_nar_size rw) s)) = field_key (chop s) \<and>
        ((\<forall>key \<in> set REWRITE_ALLOWLIST. field_key (chop s) \<noteq> Some key) \<longrightarrow>
          rewrite_seg (rw_url_token rw) (rw_nar_hash rw) (rw_nar_size rw) s = s)"
      using rewrite_seg_shape(4) [OF seg(3,4)] segment_shape [OF segments_split] rewrite_seg_cases [OF seg(3,4), of s]
      by (auto simp: rewritten_key_def)
  qed
  show "set SIGNED_FIELDS \<inter> set REWRITE_ALLOWLIST = {}"
    by (simp add: SIGNED_FIELDS_def REWRITE_ALLOWLIST_def)
qed

text \<open>Rewriting is idempotent: a rewritten narinfo can be rewritten again, gives itself, and names the same hash,
  size and token.\<close>

theorem rewrite_idempotent:
  assumes "to_raw body = Ok rw"
  shows "to_raw (rw_body rw) = Ok rw"
  using assms by (rule to_raw_idem)

text \<open>A narinfo of an xz archive.\<close>

definition demo_lines :: "string list" where
  "demo_lines = [''URL: nar/1.nar.xz'', ''Compression: xz'', ''FileHash: sha256:1'', ''FileSize: 9'', ''NarHash: sha256:2'', ''NarSize: 7'']"

lemma unlines_segments:
  "list_all (\<lambda>l. NEWLINE \<notin> set l) ls \<Longrightarrow> segments (map (\<lambda>l. l @ [NEWLINE]) ls)"
  by (induction ls) auto

lemma demo_raw_facts: "raw_facts (unlines demo_lines) = Ok (''2.nar'', ''sha256:2'', 7)"
proof -
  have "list_all (\<lambda>l. NEWLINE \<notin> set l) demo_lines" by (simp add: demo_lines_def NEWLINE_def)
  from scan_segments [OF unlines_segments [OF this], of scan_start]
  have "foldl scan_line scan_start (split_on NEWLINE (unlines demo_lines)) = foldl scan_line scan_start demo_lines"
    by (simp add: unlines_def o_def)
  also have "\<dots> = \<lparr> sc_nar_hash = Some '' sha256:2'', sc_nar_size = Some '' 7'', sc_compression = Some '' xz'',
      sc_url = True, sc_filehash = True, sc_filesize = True \<rparr>"
    by (simp add: demo_lines_def scan_line_key scan_start_def field_key_def COLON_def)
  finally show ?thesis
    by (simp add: raw_facts_def ascii_trim_def trim_def is_ascii_whitespace_def from_utf8_def split_once_def COLON_def
        parse_u64_def digit_value_def)
qed

theorem rewrite_keeps_signed_lines_witness:
  "\<exists>rw. to_raw (unlines demo_lines) = Ok rw \<and> set SIGNED_FIELDS \<inter> set REWRITE_ALLOWLIST = {} \<and>
    length (split_inclusive NEWLINE (rw_body rw)) = length (split_inclusive NEWLINE (unlines demo_lines))"
proof -
  obtain rw where rw: "to_raw (unlines demo_lines) = Ok rw" using demo_raw_facts by (simp add: to_raw_def)
  from rewrite_keeps_signed_lines [OF this] rw show ?thesis by (auto dest: list_all2_lengthD)
qed

theorem rewrite_idempotent_witness: "\<exists>rw. to_raw (unlines demo_lines) = Ok rw \<and> to_raw (rw_body rw) = Ok rw"
proof -
  obtain rw where rw: "to_raw (unlines demo_lines) = Ok rw" using demo_raw_facts by (simp add: to_raw_def)
  from rewrite_idempotent [OF this] rw show ?thesis by blast
qed

end
