(* ===== verification/Resolve.thy ===== *)
theory Resolve
  imports Outcome Budget Record_Codec
begin

text \<open>
  Batched provider resolution, \<^verbatim>\<open>peer-fabric/src/resolve.rs\<close>, with the default batch of a directory from
  \<^verbatim>\<open>peer-fabric/src/capabilities.rs\<close>: the outcome of each key, the accumulators that fold the answers of several
  mechanisms, and the sequential executor of a plan. A mechanism is a function from the keys and the budget to
  its reply, or to nothing when the timeout of that call elapsed; the readings of the clock are arguments.
\<close>

section \<open>Definitions\<close>

type_synonym batch_resolve_request = "content_key list"

datatype key_resolution =
    KeyFound "provider_record list"
  | KeyMiss
  | KeyUnavailable unavailable
  | NotAttempted

fun holders :: "key_resolution \<Rightarrow> provider_record list option" where
  "holders (KeyFound records) = Some records"
| "holders _ = None"

fun is_authoritative :: "key_resolution \<Rightarrow> bool" where
  "is_authoritative (KeyFound records) = True"
| "is_authoritative KeyMiss = True"
| "is_authoritative _ = False"

definition classify_lookup :: "content_key \<Rightarrow> provider_record list lookup \<Rightarrow> key_resolution" where
  "classify_lookup key answer =
     (case answer of
        Found records \<Rightarrow>
          (let had_records = (records \<noteq> []);
               bound = filter (\<lambda>r. pr_key r = key) records
           in if bound \<noteq> [] then KeyFound bound
              else if had_records then KeyUnavailable (Backend
                ''directory returned holders for un-asked key(s) only (wrong-key answer)'')
              else KeyUnavailable (Backend ''directory returned an empty Found (Found is never empty)''))
      | Miss \<Rightarrow> KeyMiss
      | Unavailable why \<Rightarrow> KeyUnavailable why)"

datatype control_bytes = Measured u64 | NotInstrumented

datatype resource_outcome = Completed | DeadlineCut | MechanismDown

record mechanism_measurement =
  observed_latency_ns :: u64
  mm_control_bytes :: control_bytes
  resource :: resource_outcome

record directory_capabilities =
  global_directory :: bool
  batched_roundtrip :: bool
  measures_latency :: bool
  measures_control_bytes :: bool

definition conservative :: directory_capabilities where
  "conservative = \<lparr> global_directory = False, batched_roundtrip = False, measures_latency = True, measures_control_bytes = False \<rparr>"

datatype batch_misalignment = BatchMisalignment nat nat

fun display_misalignment :: "batch_misalignment \<Rightarrow> string" where
  "display_misalignment (BatchMisalignment ask ans) =
     ''batch resolution carries '' @ decimal ans @ '' outcomes for '' @ decimal ask @
     '' keys asked (positional outcomes; a mismatch mis-assigns every later key)''"

datatype batch_bind_error = LengthMismatch nat nat | FoundUnaskedKey nat | EmptyFound nat

fun display_bind_error :: "batch_bind_error \<Rightarrow> string" where
  "display_bind_error (LengthMismatch ask ans) =
     ''batch resolution carries '' @ decimal ans @ '' outcomes for '' @ decimal ask @ '' keys asked''"
| "display_bind_error (FoundUnaskedKey index) =
     ''batch resolution position '' @ decimal index @
     '' names holders of a key the asker did not name (an un-asked holding) - rejected''"
| "display_bind_error (EmptyFound index) =
     ''batch resolution position '' @ decimal index @
     '' carries an empty Found (Found is never empty; an empty holder set is a Miss or a backend fault) - rejected''"

record batch_resolution =
  outcomes :: "key_resolution list"
  measurement :: mechanism_measurement

fun check_bound :: "nat \<Rightarrow> (content_key \<times> key_resolution) list \<Rightarrow> (batch_bind_error, unit) result" where
  "check_bound index [] = Ok ()"
| "check_bound index ((key, KeyFound records) # rest) =
     (if records = [] then Err (EmptyFound index)
      else if \<exists>r \<in> set records. pr_key r \<noteq> key then Err (FoundUnaskedKey index)
      else check_bound (Suc index) rest)"
| "check_bound index (_ # rest) = check_bound (Suc index) rest"

definition for_request ::
  "batch_resolve_request \<Rightarrow> key_resolution list \<Rightarrow> mechanism_measurement \<Rightarrow> (batch_bind_error, batch_resolution) result" where
  "for_request request outs meas =
     (if length outs \<noteq> length request then Err (LengthMismatch (length request) (length outs))
      else and_then (check_bound 0 (zip request outs)) (\<lambda>_. Ok \<lparr> outcomes = outs, measurement = meas \<rparr>))"

definition aligned_with ::
  "batch_resolution \<Rightarrow> batch_resolve_request \<Rightarrow> (batch_misalignment, (content_key \<times> key_resolution) list) result" where
  "aligned_with res request =
     (if length (outcomes res) \<noteq> length request then Err (BatchMisalignment (length request) (length (outcomes res)))
      else Ok (zip request (outcomes res)))"

definition is_complete :: "batch_resolution \<Rightarrow> bool" where
  "is_complete res = list_all is_authoritative (outcomes res)"

definition is_partial :: "batch_resolution \<Rightarrow> bool" where
  "is_partial res = (\<not> is_complete res)"

datatype mechanism_id = GlobalDirectory | DirectHoldQuery | LanDiscovery | Tracker | InProcess

fun display_mechanism_id :: "mechanism_id \<Rightarrow> string" where
  "display_mechanism_id GlobalDirectory = ''global_directory''"
| "display_mechanism_id DirectHoldQuery = ''direct_hold_query''"
| "display_mechanism_id LanDiscovery = ''lan_discovery''"
| "display_mechanism_id Tracker = ''tracker''"
| "display_mechanism_id InProcess = ''in_process''"

datatype mechanism_order = AsRegistered | Explicit "mechanism_id list"

datatype parallelism = Sequential | BoundedFanout u32

datatype stop_condition = FirstHolder | AllMechanisms

datatype plan_provenance = NamedBaseline | HoldoutSelected

record execution_plan =
  plan_schema :: string
  plan_version :: u32
  plan_order :: mechanism_order
  plan_parallelism :: parallelism
  plan_stop :: stop_condition
  plan_provenance_of :: plan_provenance

definition fixed_baseline_v1 :: execution_plan where
  "fixed_baseline_v1 = \<lparr> plan_schema = ''nix-p2p/resolver-plan'', plan_version = 1, plan_order = AsRegistered,
     plan_parallelism = Sequential, plan_stop = FirstHolder, plan_provenance_of = NamedBaseline \<rparr>"

definition with_explicit_order :: "mechanism_id list \<Rightarrow> execution_plan" where
  "with_explicit_order order = fixed_baseline_v1\<lparr> plan_order := Explicit order \<rparr>"

definition with_parallelism :: "execution_plan \<Rightarrow> parallelism \<Rightarrow> execution_plan" where
  "with_parallelism plan p = plan\<lparr> plan_parallelism := p \<rparr>"

definition with_stop :: "execution_plan \<Rightarrow> stop_condition \<Rightarrow> execution_plan" where
  "with_stop plan s = plan\<lparr> plan_stop := s \<rparr>"

definition is_production :: "execution_plan \<Rightarrow> bool" where
  "is_production plan = (plan_provenance_of plan = HoldoutSelected)"

datatype plan_exec_error = UnsupportedParallelism parallelism | UnknownMechanism mechanism_id


subsection \<open>Accumulators\<close>

record key_acc =
  acc_found :: "provider_record list option"
  acc_unavailable :: "unavailable option"
  saw_miss :: bool
  saw_not_authoritative :: bool

definition key_acc_default :: key_acc where
  "key_acc_default = \<lparr> acc_found = None, acc_unavailable = None, saw_miss = False, saw_not_authoritative = False \<rparr>"

definition acc_is_found :: "key_acc \<Rightarrow> bool" where
  "acc_is_found a = (acc_found a \<noteq> None)"

definition note_unavailable :: "key_acc \<Rightarrow> unavailable \<Rightarrow> key_acc" where
  "note_unavailable a why = (if acc_unavailable a = None then a\<lparr> acc_unavailable := Some why \<rparr> else a)"

fun note_outcome :: "key_acc \<Rightarrow> key_resolution \<Rightarrow> key_acc" where
  "note_outcome a (KeyFound records) = (if acc_found a = None then a\<lparr> acc_found := Some records \<rparr> else a)"
| "note_outcome a (KeyUnavailable why) = note_unavailable a why"
| "note_outcome a KeyMiss = a\<lparr> saw_miss := True \<rparr>"
| "note_outcome a NotAttempted = a\<lparr> saw_not_authoritative := True \<rparr>"

definition saw_non_authoritative_observation :: "key_acc \<Rightarrow> bool" where
  "saw_non_authoritative_observation a \<longleftrightarrow> acc_unavailable a \<noteq> None \<or> saw_not_authoritative a"

definition acc_finalize :: "key_acc \<Rightarrow> key_resolution" where
  "acc_finalize a =
     (case acc_found a of Some records \<Rightarrow> KeyFound records
      | None \<Rightarrow> (case acc_unavailable a of Some why \<Rightarrow> KeyUnavailable why
      | None \<Rightarrow> if saw_not_authoritative a then NotAttempted
                else if saw_miss a then KeyMiss
                else NotAttempted))"

definition finalize_batch :: "key_acc list \<Rightarrow> bool \<Rightarrow> u64 \<Rightarrow> control_bytes \<Rightarrow> batch_resolution" where
  "finalize_batch acc deadline_cut latency_ns control =
     (let any_mechanism_non_authoritative = list_ex saw_non_authoritative_observation acc;
          outs = map acc_finalize acc;
          all_authoritative = list_all is_authoritative outs
      in \<lparr> outcomes = outs,
           measurement = \<lparr> observed_latency_ns = latency_ns, mm_control_bytes = control,
             resource = (if deadline_cut then DeadlineCut
                         else if any_mechanism_non_authoritative then MechanismDown
                         else if all_authoritative then Completed
                         else MechanismDown) \<rparr> \<rparr>)"


subsection \<open>The default batch of a directory\<close>

text \<open>
  A directory answers one key within a budget, or its timeout elapses. The clock has been read as \<open>elapsed i\<close> before
  key \<open>i\<close>.
\<close>

type_synonym find_one = "content_key \<Rightarrow> discovery_budget \<Rightarrow> provider_record list lookup option"

definition find_providers_bound :: "(content_key \<Rightarrow> discovery_budget \<Rightarrow> provider_record list lookup) \<Rightarrow> content_key \<Rightarrow>
    discovery_budget \<Rightarrow> provider_record list lookup" where
  "find_providers_bound ask key budget =
     (case classify_lookup key (ask key budget) of
        KeyFound bound \<Rightarrow> Found bound
      | KeyMiss \<Rightarrow> Miss
      | KeyUnavailable why \<Rightarrow> Unavailable why
      | NotAttempted \<Rightarrow> Unavailable (Backend
          ''classify_lookup produced an unexpected NotAttempted on the direct path''))"

fun batch_loop ::
  "find_one \<Rightarrow> discovery_budget \<Rightarrow> (nat \<Rightarrow> duration) \<Rightarrow> nat \<Rightarrow> bool \<Rightarrow> content_key list \<Rightarrow> key_acc list \<times> bool" where
  "batch_loop ask budget elapsed i stopped [] = ([], stopped)"
| "batch_loop ask budget elapsed i stopped (key # keys) =
     (let (outcome, stopped') =
        (if stopped then (NotAttempted, True)
         else let remaining = db_deadline budget - elapsed i
              in if remaining = 0 then (NotAttempted, True)
                 else case ask key \<lparr> db_deadline = remaining, db_max_peers = db_max_peers budget \<rparr> of
                   Some answer \<Rightarrow> (classify_lookup key answer, False)
                 | None \<Rightarrow> (KeyUnavailable DeadlineExceeded, True));
          (accs, stopped'') = batch_loop ask budget elapsed (Suc i) stopped' keys
      in (note_outcome key_acc_default outcome # accs, stopped''))"

definition resolve_batch ::
  "find_one \<Rightarrow> (nat \<Rightarrow> duration) \<Rightarrow> u64 \<Rightarrow> batch_resolve_request \<Rightarrow> discovery_budget \<Rightarrow> batch_resolution" where
  "resolve_batch ask elapsed latency_ns request budget =
     (let (acc, stopped) = batch_loop ask budget elapsed 0 False request
      in finalize_batch acc stopped latency_ns NotInstrumented)"


subsection \<open>The executor of a plan\<close>

type_synonym mechanism = "batch_resolve_request \<Rightarrow> discovery_budget \<Rightarrow> batch_resolution option"
type_synonym mechanism_registry = "(mechanism_id \<times> mechanism) list"

definition registry_register :: "mechanism_registry \<Rightarrow> mechanism_id \<Rightarrow> mechanism \<Rightarrow> mechanism_registry" where
  "registry_register reg mid m = reg @ [(mid, m)]"

fun ordered_explicit :: "mechanism_registry \<Rightarrow> mechanism_id list \<Rightarrow> mechanism list \<times> plan_exec_error list" where
  "ordered_explicit reg [] = ([], [])"
| "ordered_explicit reg (mid # mids) =
     (let (ms, ws) = ordered_explicit reg mids
      in case List.find (\<lambda>(i, _). i = mid) reg of
           Some (_, m) \<Rightarrow> (m # ms, ws)
         | None \<Rightarrow> (ms, UnknownMechanism mid # ws))"

definition ordered :: "mechanism_registry \<Rightarrow> execution_plan \<Rightarrow> mechanism list \<times> plan_exec_error list" where
  "ordered reg plan =
     (case plan_order plan of AsRegistered \<Rightarrow> (map snd reg, []) | Explicit mids \<Rightarrow> ordered_explicit reg mids)"

definition update_each :: "(key_acc \<Rightarrow> 'o \<Rightarrow> key_acc) \<Rightarrow> key_acc list \<Rightarrow> (nat \<times> 'o) list \<Rightarrow> key_acc list" where
  "update_each f acc ios = foldl (\<lambda>acc (i, x). acc[i := f (acc ! i) x]) acc ios"

definition pending_keys :: "stop_condition \<Rightarrow> key_acc list \<Rightarrow> nat list" where
  "pending_keys stop acc =
     (case stop of
        FirstHolder \<Rightarrow> filter (\<lambda>i. \<not> acc_is_found (acc ! i)) [0..<length acc]
      | AllMechanisms \<Rightarrow> [0..<length acc])"

fun mechanism_loop ::
  "stop_condition \<Rightarrow> discovery_budget \<Rightarrow> content_key list \<Rightarrow> (nat \<Rightarrow> duration) \<Rightarrow> nat \<Rightarrow> mechanism list \<Rightarrow> key_acc list \<Rightarrow>
    key_acc list \<times> bool" where
  "mechanism_loop stop budget keys elapsed index [] acc = (acc, False)"
| "mechanism_loop stop budget keys elapsed index (m # ms) acc =
     (let pending = pending_keys stop acc
      in if pending = [] then (acc, False)
         else let remaining = db_deadline budget - elapsed index
              in if remaining = 0 then (acc, True)
                 else case m (map ((!) keys) pending) \<lparr> db_deadline = remaining, db_max_peers = db_max_peers budget \<rparr> of
                   None \<Rightarrow> (acc, True)
                 | Some resolution \<Rightarrow>
                     mechanism_loop stop budget keys elapsed (Suc index) ms
                       (if length (outcomes resolution) \<noteq> length pending
                        then update_each note_unavailable acc (map (\<lambda>i. (i, Backend ''misaligned batch reply'')) pending)
                        else update_each note_outcome acc (zip pending (outcomes resolution))))"

definition unregistered :: "mechanism_id \<Rightarrow> unavailable" where
  "unregistered mid =
     Backend (''planned mechanism '' @ display_mechanism_id mid @ '' is not registered, so it could not be consulted'')"

fun note_warning :: "key_acc list \<Rightarrow> plan_exec_error \<Rightarrow> key_acc list" where
  "note_warning acc (UnknownMechanism mid) = map (\<lambda>a. note_unavailable a (unregistered mid)) acc"
| "note_warning acc (UnsupportedParallelism p) = acc"

definition registry_resolve ::
  "mechanism_registry \<Rightarrow> (nat \<Rightarrow> duration) \<Rightarrow> u64 \<Rightarrow> batch_resolve_request \<Rightarrow> discovery_budget \<Rightarrow> execution_plan \<Rightarrow>
    (plan_exec_error, batch_resolution) result" where
  "registry_resolve reg elapsed latency_ns request budget plan =
     (if plan_parallelism plan \<noteq> Sequential then Err (UnsupportedParallelism (plan_parallelism plan))
      else
        let (ms, warnings) = ordered reg plan;
            (acc, deadline_cut) = mechanism_loop (plan_stop plan) budget request elapsed 0 ms
              (replicate (length request) key_acc_default);
            acc = foldl note_warning acc warnings;
            acc = (if deadline_cut
                   then map (\<lambda>a. if \<not> acc_is_found a then note_unavailable a DeadlineExceeded else a) acc
                   else acc)
        in Ok (finalize_batch acc deadline_cut latency_ns NotInstrumented))"


section \<open>Bound resolutions\<close>

text \<open>An outcome that, when it names holders, names some, and all of the key that was asked for.\<close>

fun bound_to :: "content_key \<Rightarrow> key_resolution \<Rightarrow> bool" where
  "bound_to key (KeyFound records) \<longleftrightarrow> records \<noteq> [] \<and> (\<forall>r \<in> set records. pr_key r = key)"
| "bound_to key _ \<longleftrightarrow> True"

definition bound_resolution :: "batch_resolve_request \<Rightarrow> batch_resolution \<Rightarrow> bool" where
  "bound_resolution request res \<longleftrightarrow> list_all2 bound_to request (outcomes res)"

lemma check_bound_iff: "check_bound n kos = Ok () \<longleftrightarrow> list_all (\<lambda>(k, x). bound_to k x) kos"
  by (induction n kos rule: check_bound.induct) auto

lemma for_request_iff:
  "for_request request outs meas = Ok res \<longleftrightarrow> res = \<lparr> outcomes = outs, measurement = meas \<rparr> \<and> list_all2 bound_to request outs"
  by (auto simp: for_request_def check_bound_iff list_all2_iff list_all_iff)

lemma classify_bound [simp]: "bound_to key (classify_lookup key answer)"
  by (auto simp: classify_lookup_def Let_def split: lookup.split)

lemma finalize_note [simp]: "acc_finalize (note_outcome key_acc_default x) = x"
  by (cases x) (simp_all add: acc_finalize_def key_acc_default_def note_unavailable_def)

lemma batch_loop_bound:
  "list_all2 bound_to keys (map acc_finalize (fst (batch_loop ask budget elapsed i stopped keys)))"
  by (induction keys arbitrary: i stopped) (auto simp: Let_def case_prod_unfold split: option.split)

lemma resolve_batch_bound: "bound_resolution request (resolve_batch ask elapsed lat request budget)"
  using batch_loop_bound [of request ask budget elapsed 0 False]
  by (simp add: bound_resolution_def resolve_batch_def finalize_batch_def Let_def case_prod_unfold)


section \<open>Accumulators under a loop\<close>

lemma length_update_each [simp]: "length (update_each f acc ios) = length acc"
  unfolding update_each_def by (induction ios arbitrary: acc) auto

lemma update_each_other: "i \<notin> fst ` set ios \<Longrightarrow> update_each f acc ios ! i = acc ! i"
  unfolding update_each_def by (induction ios arbitrary: acc) auto

lemma update_each_at:
  assumes "distinct (map fst ios)" "(i, x) \<in> set ios" "i < length acc"
  shows "update_each f acc ios ! i = f (acc ! i) x"
  using assms
proof (induction ios arbitrary: acc)
  case (Cons a ios)
  obtain j y where a: "a = (j, y)" by (cases a)
  show ?case
  proof (cases "j = i")
    case True
    then have "i \<notin> fst ` set ios" "x = y" using Cons.prems a by (auto simp: image_iff)
    then show ?thesis using True a Cons.prems(3) update_each_other [of i ios f "acc[i := f (acc ! i) x]"]
      by (simp add: update_each_def)
  next
    case False
    then show ?thesis using Cons.IH [of "acc[j := f (acc ! j) y]"] Cons.prems a by (simp add: update_each_def)
  qed
qed simp

lemma pending_keys_props:
  "distinct (pending_keys stop acc)" "\<forall>i \<in> set (pending_keys stop acc). i < length acc"
  "i < length acc \<Longrightarrow> \<not> acc_is_found (acc ! i) \<Longrightarrow> i \<in> set (pending_keys stop acc)"
  by (auto simp: pending_keys_def split: stop_condition.split)

text \<open>One pass of the loop, at one key: what a reply does to it.\<close>

definition pass :: "stop_condition \<Rightarrow> key_acc list \<Rightarrow> batch_resolution \<Rightarrow> key_acc list" where
  "pass stop acc resolution =
     (let pending = pending_keys stop acc
      in if length (outcomes resolution) \<noteq> length pending
         then update_each note_unavailable acc (map (\<lambda>i. (i, Backend ''misaligned batch reply'')) pending)
         else update_each note_outcome acc (zip pending (outcomes resolution)))"

lemma length_pass [simp]: "length (pass stop acc resolution) = length acc"
  by (simp add: pass_def Let_def)

lemma pass_at:
  assumes "i < length acc"
  shows "i \<notin> set (pending_keys stop acc) \<and> pass stop acc resolution ! i = acc ! i \<or>
    length (outcomes resolution) \<noteq> length (pending_keys stop acc) \<and>
      pass stop acc resolution ! i = note_unavailable (acc ! i) (Backend ''misaligned batch reply'') \<or>
    length (outcomes resolution) = length (pending_keys stop acc) \<and>
      (\<exists>pos < length (pending_keys stop acc). pending_keys stop acc ! pos = i \<and>
        pass stop acc resolution ! i = note_outcome (acc ! i) (outcomes resolution ! pos))"
proof -
  let ?p = "pending_keys stop acc"
  have d: "distinct ?p" by (rule pending_keys_props)
  show ?thesis
  proof (cases "i \<in> set ?p")
    case False
    then have "pass stop acc resolution ! i = acc ! i"
      by (auto simp: pass_def Let_def intro!: update_each_other dest: set_zip_leftD)
    then show ?thesis using False by blast
  next
    case True
    then obtain pos where pos: "pos < length ?p" "?p ! pos = i" by (auto simp: in_set_conv_nth)
    show ?thesis
    proof (cases "length (outcomes resolution) = length ?p")
      case True
      then have "(i, outcomes resolution ! pos) \<in> set (zip ?p (outcomes resolution))"
        using pos by (auto simp: in_set_zip)
      from update_each_at [OF _ this assms, of note_outcome] show ?thesis
        using True pos d by (auto simp: pass_def Let_def)
    next
      case False
      have "(i, Backend ''misaligned batch reply'') \<in> set (map (\<lambda>i. (i, Backend ''misaligned batch reply'')) ?p)"
        using True by auto
      from update_each_at [OF _ this assms, of note_unavailable] show ?thesis
        using False d by (simp add: pass_def Let_def o_def)
    qed
  qed
qed

lemma mechanism_loop_Cons:
  "mechanism_loop stop budget keys elapsed index (m # ms) acc =
    (let pending = pending_keys stop acc; remaining = db_deadline budget - elapsed index
     in if pending = [] then (acc, False) else if remaining = 0 then (acc, True)
        else case m (map ((!) keys) pending) \<lparr> db_deadline = remaining, db_max_peers = db_max_peers budget \<rparr> of
          None \<Rightarrow> (acc, True)
        | Some resolution \<Rightarrow> mechanism_loop stop budget keys elapsed (Suc index) ms (pass stop acc resolution))"
  by (simp add: pass_def Let_def split: option.split)

declare mechanism_loop.simps(2) [simp del]

lemma length_mechanism_loop [simp]: "length (fst (mechanism_loop stop budget keys elapsed index ms acc)) = length acc"
  by (induction ms arbitrary: index acc) (auto simp: mechanism_loop_Cons Let_def split: option.split)


section \<open>What a miss means\<close>

text \<open>An accumulator that will be reported as a miss, or has seen nothing yet.\<close>

definition undisturbed :: "key_acc \<Rightarrow> bool" where
  "undisturbed a \<longleftrightarrow> acc_found a = None \<and> acc_unavailable a = None \<and> \<not> saw_not_authoritative a"

lemma undisturbed_default [simp]: "undisturbed key_acc_default"
  by (simp add: undisturbed_def key_acc_default_def)

lemma undisturbed_note: "undisturbed (note_outcome a x) \<longleftrightarrow> undisturbed a \<and> x = KeyMiss"
  by (cases x) (auto simp: undisturbed_def note_unavailable_def)

lemma undisturbed_unavailable [simp]: "\<not> undisturbed (note_unavailable a why)"
  by (simp add: undisturbed_def note_unavailable_def)

lemma finalize_KeyMiss: "acc_finalize a = KeyMiss \<longleftrightarrow> undisturbed a \<and> saw_miss a"
  by (auto simp: acc_finalize_def undisturbed_def split: option.splits)

text \<open>A mechanism that was asked about a key and answered that nobody holds it.\<close>

definition answered_miss :: "mechanism \<Rightarrow> content_key \<Rightarrow> bool" where
  "answered_miss m key \<longleftrightarrow> (\<exists>keys budget res pos. m keys budget = Some res \<and> length (outcomes res) = length keys \<and>
     pos < length keys \<and> keys ! pos = key \<and> outcomes res ! pos = KeyMiss)"

lemma pass_undisturbed:
  assumes "i < length acc" "length keys = length acc" "undisturbed (pass stop acc res ! i)"
    "m (map ((!) keys) (pending_keys stop acc)) budget = Some res"
  shows "undisturbed (acc ! i) \<and> answered_miss m (keys ! i)"
proof -
  have pending: "i \<in> set (pending_keys stop acc)" if "undisturbed (acc ! i)"
    using that assms(1) by (intro pending_keys_props(3)) (auto simp: undisturbed_def acc_is_found_def)
  from pass_at [OF assms(1), of stop res] obtain pos where
    pos: "length (outcomes res) = length (pending_keys stop acc)" "pos < length (pending_keys stop acc)"
      "pending_keys stop acc ! pos = i" "undisturbed (acc ! i)" "outcomes res ! pos = KeyMiss"
    using assms(3) pending by (auto simp: undisturbed_note)
  then have "map ((!) keys) (pending_keys stop acc) ! pos = keys ! i" by simp
  then have "answered_miss m (keys ! i)"
    unfolding answered_miss_def using pos assms(4)
    by (intro exI [of _ "map ((!) keys) (pending_keys stop acc)"] exI [of _ budget] exI [of _ res] exI [of _ pos]) simp
  then show ?thesis using pos by simp
qed

lemma loop_undisturbed:
  assumes "mechanism_loop stop budget keys elapsed index ms acc = (acc', False)" "length keys = length acc"
    "i < length acc" "undisturbed (acc' ! i)"
  shows "undisturbed (acc ! i) \<and> (\<forall>m \<in> set ms. answered_miss m (keys ! i))"
  using assms
proof (induction ms arbitrary: index acc)
  case (Cons m ms)
  let ?p = "pending_keys stop acc" and ?b = "\<lparr> db_deadline = db_deadline budget - elapsed index, db_max_peers = db_max_peers budget \<rparr>"
  show ?case
  proof (cases "?p = []")
    case True
    then have "acc' = acc" using Cons.prems(1) by (simp add: mechanism_loop_Cons)
    moreover have "i \<in> set ?p"
      using Cons.prems calculation by (intro pending_keys_props(3)) (auto simp: undisturbed_def acc_is_found_def)
    ultimately show ?thesis using True by simp
  next
    case False
    then obtain res where m: "m (map ((!) keys) ?p) ?b = Some res"
      and rest: "mechanism_loop stop budget keys elapsed (Suc index) ms (pass stop acc res) = (acc', False)"
      using Cons.prems(1) by (auto simp: mechanism_loop_Cons Let_def split: if_splits option.splits)
    from Cons.IH [OF rest] Cons.prems have "undisturbed (pass stop acc res ! i)" "\<forall>m \<in> set ms. answered_miss m (keys ! i)"
      by auto
    then show ?thesis using pass_undisturbed [where m = m and budget = ?b, OF Cons.prems(3,2) _ m] by auto
  qed
qed simp

lemma warnings_undisturbed:
  "i < length acc \<Longrightarrow> undisturbed (foldl note_warning acc ws ! i) \<Longrightarrow>
   undisturbed (acc ! i) \<and> (\<forall>w \<in> set ws. \<exists>p. w = UnsupportedParallelism p)"
proof (induction ws arbitrary: acc)
  case (Cons w ws)
  then show ?case by (cases w) (auto, (metis length_map nth_map undisturbed_unavailable)+)
qed simp

lemma find_registered:
  "List.find (\<lambda>p. fst p = mid) reg = None \<longleftrightarrow> mid \<notin> fst ` set reg"
  "List.find (\<lambda>p. fst p = mid) reg = Some im \<Longrightarrow> im \<in> set reg \<and> fst im = mid"
  by (induction reg) (auto split: if_splits)

lemma ordered_explicit_Cons:
  "ordered_explicit reg (mid # mids) =
    (case List.find (\<lambda>p. fst p = mid) reg of
       Some p \<Rightarrow> (snd p # fst (ordered_explicit reg mids), snd (ordered_explicit reg mids))
     | None \<Rightarrow> (fst (ordered_explicit reg mids), UnknownMechanism mid # snd (ordered_explicit reg mids)))"
  by (simp add: Let_def case_prod_unfold split: option.split)

declare ordered_explicit.simps(2) [simp del]

lemma ordered_explicit_mechanisms: "set (fst (ordered_explicit reg mids)) \<subseteq> snd ` set reg"
  by (induction mids) (auto simp: ordered_explicit_Cons split: option.split dest!: find_registered(2) intro: rev_image_eqI)

lemma ordered_explicit_warnings:
  "snd (ordered_explicit reg mids) = map UnknownMechanism (filter (\<lambda>mid. mid \<notin> fst ` set reg) mids)"
proof (induction mids)
  case (Cons mid mids)
  show ?case
  proof (cases "List.find (\<lambda>p. fst p = mid) reg")
    case None
    then have "mid \<notin> fst ` set reg" by (metis find_registered(1))
    then show ?thesis using None Cons by (simp add: ordered_explicit_Cons)
  next
    case (Some p)
    then have "mid \<in> fst ` set reg" by (blast dest: find_registered(2))
    then show ?thesis using Some Cons by (simp add: ordered_explicit_Cons)
  qed
qed simp

lemma ordered_mechanisms: "set (fst (ordered reg plan)) \<subseteq> snd ` set reg"
  using ordered_explicit_mechanisms by (auto simp: ordered_def split: mechanism_order.split)

lemma ordered_warnings:
  "(\<forall>w \<in> set (snd (ordered reg plan)). \<exists>p. w = UnsupportedParallelism p) \<longleftrightarrow>
    (case plan_order plan of AsRegistered \<Rightarrow> True | Explicit mids \<Rightarrow> set mids \<subseteq> fst ` set reg)"
  by (auto simp: ordered_def ordered_explicit_warnings split: mechanism_order.split)

text \<open>The result of a plan, from the end of the loop.\<close>

lemma registry_resolve_Ok:
  assumes "registry_resolve reg elapsed lat request budget plan = Ok res"
  obtains acc deadline_cut where
    "mechanism_loop (plan_stop plan) budget request elapsed 0 (fst (ordered reg plan))
       (replicate (length request) key_acc_default) = (acc, deadline_cut)"
    "length acc = length request" "plan_parallelism plan = Sequential"
    "res = finalize_batch (map (\<lambda>a. if deadline_cut \<and> \<not> acc_is_found a then note_unavailable a DeadlineExceeded else a)
       (foldl note_warning acc (snd (ordered reg plan)))) deadline_cut lat NotInstrumented"
proof -
  define loop where "loop = mechanism_loop (plan_stop plan) budget request elapsed 0 (fst (ordered reg plan))
       (replicate (length request) key_acc_default)"
  have "length (fst loop) = length request" by (simp add: loop_def)
  then show thesis
    using assms that [of "fst loop" "snd loop"]
    by (auto simp: registry_resolve_def loop_def [symmetric] case_prod_unfold Let_def split: if_splits)
qed

lemma length_warnings [simp]: "length (foldl note_warning acc ws) = length acc"
proof (induction ws arbitrary: acc)
  case (Cons w ws)
  then show ?case by (cases w) auto
qed simp

lemma warnings_saw_miss: "i < length acc \<Longrightarrow> saw_miss (foldl note_warning acc ws ! i) = saw_miss (acc ! i)"
proof (induction ws arbitrary: acc)
  case (Cons w ws)
  then show ?case by (cases w) (auto simp: note_unavailable_def)
qed simp

lemma resolve_miss_parts:
  assumes "registry_resolve reg elapsed lat request budget plan = Ok res" "i < length request" "outcomes res ! i = KeyMiss"
  shows "case plan_order plan of AsRegistered \<Rightarrow> True | Explicit mids \<Rightarrow> set mids \<subseteq> fst ` set reg"
    "\<forall>m \<in> set (fst (ordered reg plan)). answered_miss m (request ! i)"
    "resource (measurement res) \<noteq> DeadlineCut" "fst (ordered reg plan) \<noteq> []"
proof -
  from assms(1) obtain acc cut where
    loop: "mechanism_loop (plan_stop plan) budget request elapsed 0 (fst (ordered reg plan))
       (replicate (length request) key_acc_default) = (acc, cut)" and len: "length acc = length request"
    and res: "res = finalize_batch (map (\<lambda>a. if cut \<and> \<not> acc_is_found a then note_unavailable a DeadlineExceeded else a)
       (foldl note_warning acc (snd (ordered reg plan)))) cut lat NotInstrumented"
    by (rule registry_resolve_Ok)
  let ?a = "foldl note_warning acc (snd (ordered reg plan)) ! i"
  have seen: "saw_miss ?a" and "undisturbed (if cut \<and> \<not> acc_is_found ?a then note_unavailable ?a DeadlineExceeded else ?a)"
    using assms(2,3) len
    by (auto simp: res finalize_batch_def Let_def finalize_KeyMiss note_unavailable_def simp del: undisturbed_unavailable split: if_splits)
  then have cut: "\<not> cut" and a: "undisturbed ?a"
    by (auto simp: undisturbed_def acc_is_found_def note_unavailable_def split: if_splits)
  show "resource (measurement res) \<noteq> DeadlineCut" using cut by (simp add: res finalize_batch_def Let_def)
  from warnings_undisturbed [OF _ a] assms(2) len
  have *: "undisturbed (acc ! i)" "\<forall>w \<in> set (snd (ordered reg plan)). \<exists>p. w = UnsupportedParallelism p" by auto
  then show "case plan_order plan of AsRegistered \<Rightarrow> True | Explicit mids \<Rightarrow> set mids \<subseteq> fst ` set reg"
    by (simp add: ordered_warnings)
  show "\<forall>m \<in> set (fst (ordered reg plan)). answered_miss m (request ! i)"
    using loop_undisturbed [of "plan_stop plan" budget request elapsed 0 "fst (ordered reg plan)"] loop cut * assms(2) by simp
  show "fst (ordered reg plan) \<noteq> []"
    using loop seen assms(2) by (auto simp: warnings_saw_miss key_acc_default_def)
qed


section \<open>Every result is bound\<close>

definition bound_mechanism :: "mechanism \<Rightarrow> bool" where
  "bound_mechanism m \<longleftrightarrow> (\<forall>keys budget res. m keys budget = Some res \<longrightarrow> bound_resolution keys res)"

definition bound_acc :: "content_key \<Rightarrow> key_acc \<Rightarrow> bool" where
  "bound_acc key a \<longleftrightarrow> (\<forall>rs. acc_found a = Some rs \<longrightarrow> bound_to key (KeyFound rs))"

lemma bound_acc_default [simp]: "bound_acc key key_acc_default"
  by (simp add: bound_acc_def key_acc_default_def)

lemma bound_acc_unavailable [simp]: "bound_acc key (note_unavailable a why) \<longleftrightarrow> bound_acc key a"
  by (simp add: bound_acc_def note_unavailable_def)

lemma bound_acc_note: "bound_acc key a \<Longrightarrow> bound_to key x \<Longrightarrow> bound_acc key (note_outcome a x)"
  by (cases x) (simp_all add: bound_acc_unavailable, simp_all add: bound_acc_def)

lemma bound_acc_finalize: "bound_acc key a \<Longrightarrow> bound_to key (acc_finalize a)"
  by (auto simp: bound_acc_def acc_finalize_def split: option.split)

lemma pass_bound:
  assumes "list_all2 bound_acc keys acc" "bound_resolution (map ((!) keys) (pending_keys stop acc)) res"
  shows "list_all2 bound_acc keys (pass stop acc res)"
proof (rule list_all2_all_nthI)
  show len: "length keys = length (pass stop acc res)" using assms(1) by (simp add: list_all2_lengthD)
  fix i assume i: "i < length keys"
  then have acc: "bound_acc (keys ! i) (acc ! i)" using assms(1) by (simp add: list_all2_conv_all_nth)
  have "bound_to (keys ! i) (outcomes res ! pos)" if "pos < length (pending_keys stop acc)" "pending_keys stop acc ! pos = i" for pos
    using assms(2) that by (auto simp: bound_resolution_def list_all2_conv_all_nth)
  then show "bound_acc (keys ! i) (pass stop acc res ! i)"
    using pass_at [of i acc stop res] i len acc by (auto simp: bound_acc_note)
qed

lemma loop_bound:
  assumes "list_all2 bound_acc keys acc" "\<forall>m \<in> set ms. bound_mechanism m"
  shows "list_all2 bound_acc keys (fst (mechanism_loop stop budget keys elapsed index ms acc))"
  using assms
proof (induction ms arbitrary: index acc)
  case (Cons m ms)
  have "list_all2 bound_acc keys (pass stop acc res)" if "m (map ((!) keys) (pending_keys stop acc)) b = Some res" for b res
    using Cons.prems that by (auto simp: bound_mechanism_def intro!: pass_bound)
  then show ?case using Cons by (simp add: mechanism_loop_Cons Let_def split: option.split)
qed simp

lemma warnings_bound: "list_all2 bound_acc keys acc \<Longrightarrow> list_all2 bound_acc keys (foldl note_warning acc ws)"
proof (induction ws arbitrary: acc)
  case (Cons w ws)
  then show ?case by (cases w) (auto simp: list_all2_map2)
qed simp

lemma resolve_bound:
  assumes "\<forall>m \<in> snd ` set reg. bound_mechanism m" "registry_resolve reg elapsed lat request budget plan = Ok res"
  shows "bound_resolution request res"
proof -
  from assms(2) obtain acc cut where
    loop: "mechanism_loop (plan_stop plan) budget request elapsed 0 (fst (ordered reg plan))
       (replicate (length request) key_acc_default) = (acc, cut)"
    and res: "res = finalize_batch (map (\<lambda>a. if cut \<and> \<not> acc_is_found a then note_unavailable a DeadlineExceeded else a)
       (foldl note_warning acc (snd (ordered reg plan)))) cut lat NotInstrumented"
    by (rule registry_resolve_Ok)
  have "list_all2 bound_acc request (fst (mechanism_loop (plan_stop plan) budget request elapsed 0 (fst (ordered reg plan))
       (replicate (length request) key_acc_default)))"
    by (rule loop_bound) (use assms(1) ordered_mechanisms [of reg plan] in \<open>auto simp: list_all2_conv_all_nth\<close>)
  then have "list_all2 bound_acc request (foldl note_warning acc (snd (ordered reg plan)))"
    unfolding loop by (intro warnings_bound) simp
  then show ?thesis
    by (auto simp: bound_resolution_def res finalize_batch_def Let_def list_all2_map2 elim!: list_all2_mono intro: bound_acc_finalize)
qed

lemma resolve_batch_mechanism: "bound_mechanism (\<lambda>request budget. Some (resolve_batch ask elapsed lat request budget))"
  by (simp add: bound_mechanism_def resolve_batch_bound)


section \<open>Properties\<close>

text \<open>
  C10: A resolved key is reported as missing only on the word of every mechanism of the plan. When position \<open>i\<close> of a
  result is a miss, every mechanism the plan names is registered, at least one was consulted, no deadline cut the
  consultation short, and each mechanism in the plan's order was asked about that very key and answered at that key's
  position that nobody holds it. An unreachable, misaligned or skipped mechanism never yields a miss.
\<close>
theorem resolver_miss_is_unanimous:
  assumes "registry_resolve reg elapsed lat request budget plan = Ok res"
    and "i < length request" and "outcomes res ! i = KeyMiss"
  shows "(case plan_order plan of AsRegistered \<Rightarrow> True | Explicit mids \<Rightarrow> set mids \<subseteq> fst ` set reg) \<and>
    fst (ordered reg plan) \<noteq> [] \<and> resource (measurement res) \<noteq> DeadlineCut \<and>
    (\<forall>m \<in> set (fst (ordered reg plan)). \<exists>keys b reply pos. m keys b = Some reply \<and>
       length (outcomes reply) = length keys \<and> pos < length keys \<and> keys ! pos = request ! i \<and>
       outcomes reply ! pos = KeyMiss)"
  using resolve_miss_parts [OF assms] unfolding answered_miss_def by simp

definition silent_mechanism :: mechanism where
  "silent_mechanism request budget = Some (resolve_batch (\<lambda>key b. Some Miss) (\<lambda>i. 0) 0 request budget)"

definition one_second :: discovery_budget where
  "one_second = \<lparr> db_deadline = 1000000000, db_max_peers = 8 \<rparr>"

lemma silent_result:
  "registry_resolve [(InProcess, silent_mechanism)] (\<lambda>i. 0) 7 [ContentKey []] one_second fixed_baseline_v1 =
    Ok \<lparr> outcomes = [KeyMiss], measurement = \<lparr> observed_latency_ns = 7, mm_control_bytes = NotInstrumented, resource = Completed \<rparr> \<rparr>"
  by (simp add: registry_resolve_def fixed_baseline_v1_def ordered_def mechanism_loop_Cons pending_keys_def acc_is_found_def
    key_acc_default_def one_second_def silent_mechanism_def resolve_batch_def finalize_batch_def acc_finalize_def pass_def
    update_each_def classify_lookup_def saw_non_authoritative_observation_def upt_rec)

lemma resolver_miss_is_unanimous_witness:
  "\<exists>keys b reply pos. silent_mechanism keys b = Some reply \<and> length (outcomes reply) = length keys \<and> pos < length keys \<and>
     keys ! pos = ContentKey [] \<and> outcomes reply ! pos = KeyMiss"
  using resolver_miss_is_unanimous [OF silent_result, of 0] by (simp add: ordered_def fixed_baseline_v1_def)

text \<open>
  C35: Resolution keeps the type of its results. When every registered mechanism replies with resolutions bound to the
  keys it was asked about, a sequential plan always returns, and what it returns passes the validating constructor for
  the caller's request: one outcome per requested key, every reported holder list non-empty and all of it for that key.
\<close>
theorem resolution_stays_bound:
  assumes "\<forall>m \<in> snd ` set reg. \<forall>keys b reply. m keys b = Some reply \<longrightarrow>
      for_request keys (outcomes reply) (measurement reply) = Ok reply"
    and "plan_parallelism plan = Sequential"
  shows "\<exists>res. registry_resolve reg elapsed lat request budget plan = Ok res \<and>
    for_request request (outcomes res) (measurement res) = Ok res"
proof -
  have iff: "for_request keys (outcomes r) (measurement r) = Ok r \<longleftrightarrow> bound_resolution keys r" for keys r
    by (simp add: for_request_iff bound_resolution_def)
  obtain res where res: "registry_resolve reg elapsed lat request budget plan = Ok res"
    using assms(2) by (auto simp: registry_resolve_def case_prod_unfold Let_def)
  have "bound_resolution request res"
    by (rule resolve_bound [OF _ res]) (use assms(1) in \<open>simp add: bound_mechanism_def iff\<close>)
  then show ?thesis using res iff by blast
qed

lemma resolution_stays_bound_witness:
  "\<exists>res. registry_resolve [(InProcess, silent_mechanism)] (\<lambda>i. 0) 7 [ContentKey []] one_second fixed_baseline_v1 = Ok res \<and>
    for_request [ContentKey []] (outcomes res) (measurement res) = Ok res"
  by (rule resolution_stays_bound)
    (use resolve_batch_bound in \<open>auto simp: silent_mechanism_def fixed_baseline_v1_def for_request_iff bound_resolution_def\<close>)

end
