(* ===== verification/Catalog.thy ===== *)
theory Catalog
  imports Rust_Str Hash_Map
begin

text \<open>
  The correlation of a narinfo with its NAR, \<^verbatim>\<open>daemon-core/src/catalog.rs\<close> with the value types of
  \<^verbatim>\<open>daemon-core/src/source.rs\<close>: the parser of the signed fields of a narinfo, the in-memory catalog it feeds, and the
  cache-info page of \<^verbatim>\<open>daemon-core/src/cacheinfo.rs\<close>.
\<close>

section \<open>Definitions\<close>

type_synonym store_hash = string
type_synonym nar_hash = string
type_synonym nar_path_token = string

datatype nar_compression = Raw | Compressed | UnknownCompression

record narinfo_transport =
  compression :: nar_compression

record nar_meta =
  nm_nar_hash :: nar_hash
  nm_nar_size :: u64
  nm_transport :: narinfo_transport
  nm_store_path :: "string option"

type_synonym nar_catalog = "(string, nar_meta) hash_map"

definition record_nar ::
  "nar_catalog \<Rightarrow> nar_path_token \<Rightarrow> nar_hash \<Rightarrow> u64 \<Rightarrow> narinfo_transport \<Rightarrow> string option \<Rightarrow> nar_catalog" where
  "record_nar by_token token nar_hash nar_size transport store_path =
     hm_insert by_token token
       \<lparr> nm_nar_hash = nar_hash, nm_nar_size = nar_size, nm_transport = transport, nm_store_path = store_path \<rparr>"

definition catalog_meta_for_token :: "nar_catalog \<Rightarrow> string \<Rightarrow> nar_meta option" where
  "catalog_meta_for_token by_token token = hm_get by_token token"

record correlation =
  co_token :: nar_path_token
  co_nar_hash :: nar_hash
  co_nar_size :: u64
  co_transport :: narinfo_transport
  co_store_path :: "string option"

record corr_scan =
  cs_url :: "string option"
  cs_nar_hash :: "string option"
  cs_nar_size :: "string option"
  cs_compression :: "string option"
  cs_compression_dup :: bool
  cs_store_path :: "string option"
  cs_store_path_dup :: bool

definition corr_start :: corr_scan where
  "corr_start = \<lparr> cs_url = None, cs_nar_hash = None, cs_nar_size = None, cs_compression = None, cs_compression_dup = False,
     cs_store_path = None, cs_store_path_dup = False \<rparr>"

definition corr_line :: "corr_scan \<Rightarrow> string \<Rightarrow> corr_scan option" where
  "corr_line sc line =
     (case strip_prefix ''StorePath:'' line of
        Some v \<Rightarrow> Some (if cs_store_path sc \<noteq> None then sc\<lparr> cs_store_path_dup := True \<rparr>
                        else sc\<lparr> cs_store_path := Some (str_trim v) \<rparr>)
      | None \<Rightarrow> (case strip_prefix ''URL:'' line of
        Some v \<Rightarrow> if cs_url sc \<noteq> None then None else Some (sc\<lparr> cs_url := Some (str_trim v) \<rparr>)
      | None \<Rightarrow> (case strip_prefix ''NarHash:'' line of
        Some v \<Rightarrow> if cs_nar_hash sc \<noteq> None then None else Some (sc\<lparr> cs_nar_hash := Some (str_trim v) \<rparr>)
      | None \<Rightarrow> (case strip_prefix ''NarSize:'' line of
        Some v \<Rightarrow> if cs_nar_size sc \<noteq> None then None else Some (sc\<lparr> cs_nar_size := Some (str_trim v) \<rparr>)
      | None \<Rightarrow> (case strip_prefix ''Compression:'' line of
        Some v \<Rightarrow> Some (if cs_compression sc \<noteq> None then sc\<lparr> cs_compression_dup := True \<rparr>
                        else sc\<lparr> cs_compression := Some (str_trim v) \<rparr>)
      | None \<Rightarrow> Some sc)))))"

fun corr_lines :: "corr_scan \<Rightarrow> string list \<Rightarrow> corr_scan option" where
  "corr_lines sc [] = Some sc"
| "corr_lines sc (line # lines) = Option.bind (corr_line sc line) (\<lambda>sc. corr_lines sc lines)"

definition corr_compression :: "corr_scan \<Rightarrow> nar_compression" where
  "corr_compression sc =
     (if cs_compression_dup sc then UnknownCompression
      else case cs_compression sc of
        Some v \<Rightarrow> if v = ''none'' then Raw else Compressed
      | None \<Rightarrow> UnknownCompression)"

definition parse_correlation :: "string \<Rightarrow> correlation option" where
  "parse_correlation body =
     (let txt = from_utf8_lossy body in
      Option.bind (corr_lines corr_start (str_lines txt)) (\<lambda>sc.
      Option.bind (cs_url sc) (\<lambda>url.
      Option.bind (cs_nar_hash sc) (\<lambda>nar_hash.
      Option.bind (cs_nar_size sc) (\<lambda>nar_size_str.
      Option.bind (parse_u64 nar_size_str) (\<lambda>nar_size.
      let token = (case strip_prefix ''nar/'' url of Some t \<Rightarrow> t | None \<Rightarrow> url) in
      Some \<lparr> co_token = token, co_nar_hash = nar_hash, co_nar_size = nar_size,
        co_transport = \<lparr> compression = corr_compression sc \<rparr>,
        co_store_path = (if cs_store_path_dup sc then None else cs_store_path sc) \<rparr>))))))"


subsection \<open>The cache-info page\<close>

record cache_info =
  ci_store_dir :: string
  ci_priority :: u32
  ci_want_mass_query :: bool

definition DEFAULT_PRIORITY :: u32 where "DEFAULT_PRIORITY = 30"

definition cache_info_default :: cache_info where
  "cache_info_default = \<lparr> ci_store_dir = ''/nix/store'', ci_priority = DEFAULT_PRIORITY, ci_want_mass_query = True \<rparr>"

definition render_cache_info :: "cache_info \<Rightarrow> string" where
  "render_cache_info c =
     ''StoreDir: '' @ ci_store_dir c @ [NEWLINE] @
     ''WantMassQuery: '' @ decimal (if ci_want_mass_query c then 1 else 0) @ [NEWLINE] @
     ''Priority: '' @ decimal (unat (ci_priority c)) @ [NEWLINE]"


section \<open>Lossy decoding of well-formed text\<close>

lemma good_char_utf8:
  assumes "utf8 (x # xs)"
  obtains n where "good_char (x # xs) = Some n" "utf8 (drop n (x # xs))"
proof -
  consider "x < 0x80" | "0xC2 \<le> x" "x \<le> 0xDF" | "0xE0 \<le> x" "x \<le> 0xEF" | "0xF0 \<le> x" "x \<le> 0xF4"
    using assms by (auto split: if_splits)
  then show thesis
  proof cases
    case 1
    then show thesis using assms by (intro that [of 1]) (auto simp: good_char_def lead_width_def)
  next
    case 2
    then obtain b ys where "xs = b # ys" "continuation b" "utf8 ys" using assms by (auto split: list.splits)
    then show thesis using 2 by (intro that [of 2]) (auto simp: good_char_def lead_width_def second_ok_def)
  next
    case 3
    then obtain b c ys where "xs = b # c # ys" "continuation c" "utf8 ys"
      "(if x = 0xE0 then 0xA0 else 0x80) \<le> b" "b \<le> (if x = 0xED then 0x9F else 0xBF)"
      using assms by (auto split: list.splits)
    moreover have "{2..<3::nat} = {2}" by auto
    ultimately show thesis using 3 by (intro that [of 3]) (auto simp: good_char_def lead_width_def second_ok_def split: if_splits)
  next
    case 4
    then obtain b c d ys where "xs = b # c # d # ys" "continuation c" "continuation d" "utf8 ys"
      "(if x = 0xF0 then 0x90 else 0x80) \<le> b" "b \<le> (if x = 0xF4 then 0x8F else 0xBF)"
      using assms by (auto split: list.splits)
    moreover have "{2..<4::nat} = {2, 3}" by auto
    ultimately show thesis using 4 by (intro that [of 4]) (auto simp: good_char_def lead_width_def second_ok_def split: if_splits)
  qed
qed

lemma lossy_utf8: "utf8 xs \<Longrightarrow> lossy xs = xs"
proof (induction xs rule: lossy.induct)
  case (2 x xs)
  from "2.prems" obtain n where n: "good_char (x # xs) = Some n" "utf8 (drop n (x # xs))" by (rule good_char_utf8)
  then show ?case using "2.IH"(2) [OF n(1)] by simp
qed simp

lemma from_utf8_lossy_valid: "from_utf8 s = Some t \<Longrightarrow> from_utf8_lossy s = s \<and> t = s"
  by (auto simp: from_utf8_def from_utf8_lossy_def lossy_utf8 map_idI split: if_splits)


section \<open>The fields of a narinfo\<close>

text \<open>The values of the lines with a given key, in order.\<close>

definition field_values :: "string \<Rightarrow> string list \<Rightarrow> string list" where
  "field_values key lines = map str_trim (List.map_filter (strip_prefix key) lines)"

lemma field_values_simps [simp]:
  "field_values key [] = []"
  "field_values key (line # lines) =
    (case strip_prefix key line of None \<Rightarrow> field_values key lines | Some v \<Rightarrow> str_trim v # field_values key lines)"
  by (simp_all add: field_values_def map_filter_simps del: strip_prefix_Some_iff split: option.split)

text \<open>A line has at most one of the keys that are looked for.\<close>

lemma key_exclusive:
  "strip_prefix ''StorePath:'' line = Some v \<Longrightarrow> strip_prefix ''URL:'' line = None \<and> strip_prefix ''NarHash:'' line = None \<and> strip_prefix ''NarSize:'' line = None \<and> strip_prefix ''Compression:'' line = None"
  "strip_prefix ''URL:'' line = Some v \<Longrightarrow> strip_prefix ''StorePath:'' line = None \<and> strip_prefix ''NarHash:'' line = None \<and> strip_prefix ''NarSize:'' line = None \<and> strip_prefix ''Compression:'' line = None"
  "strip_prefix ''NarHash:'' line = Some v \<Longrightarrow> strip_prefix ''StorePath:'' line = None \<and> strip_prefix ''URL:'' line = None \<and> strip_prefix ''NarSize:'' line = None \<and> strip_prefix ''Compression:'' line = None"
  "strip_prefix ''NarSize:'' line = Some v \<Longrightarrow> strip_prefix ''StorePath:'' line = None \<and> strip_prefix ''URL:'' line = None \<and> strip_prefix ''NarHash:'' line = None \<and> strip_prefix ''Compression:'' line = None"
  "strip_prefix ''Compression:'' line = Some v \<Longrightarrow> strip_prefix ''StorePath:'' line = None \<and> strip_prefix ''URL:'' line = None \<and> strip_prefix ''NarHash:'' line = None \<and> strip_prefix ''NarSize:'' line = None"
  by (simp_all only: strip_prefix_Some_iff) (simp_all add: strip_prefix_def)

lemma correlation_line_cases:
  fixes line defines "keys \<equiv> \<lambda>sp url nh ns co. strip_prefix ''StorePath:'' line = sp \<and> strip_prefix ''URL:'' line = url \<and>
    strip_prefix ''NarHash:'' line = nh \<and> strip_prefix ''NarSize:'' line = ns \<and> strip_prefix ''Compression:'' line = co"
  obtains "keys None None None None None" | v where "keys (Some v) None None None None" | v where "keys None (Some v) None None None"
    | v where "keys None None (Some v) None None" | v where "keys None None None (Some v) None" | v where "keys None None None None (Some v)"
proof -
  consider (sp) v where "strip_prefix ''StorePath:'' line = Some v" | (url) v where "strip_prefix ''URL:'' line = Some v"
    | (nh) v where "strip_prefix ''NarHash:'' line = Some v" | (ns) v where "strip_prefix ''NarSize:'' line = Some v"
    | (co) v where "strip_prefix ''Compression:'' line = Some v" | (none) "keys None None None None None"
    unfolding keys_def by (meson not_None_eq)
  then show thesis
  proof cases
    case sp
    then show thesis using key_exclusive(1) by (intro that(2) [of v]) (simp only: keys_def)
  next
    case url
    then show thesis using key_exclusive(2) by (intro that(3) [of v]) (simp only: keys_def)
  next
    case nh
    then show thesis using key_exclusive(3) by (intro that(4) [of v]) (simp only: keys_def)
  next
    case ns
    then show thesis using key_exclusive(4) by (intro that(5) [of v]) (simp only: keys_def)
  next
    case co
    then show thesis using key_exclusive(5) by (intro that(6) [of v]) (simp only: keys_def)
  qed (rule that(1))
qed

definition first_of :: "'a option \<Rightarrow> 'a list \<Rightarrow> 'a option" where
  "first_of found vs = (case found of Some v \<Rightarrow> Some v | None \<Rightarrow> (case vs of [] \<Rightarrow> None | v # _ \<Rightarrow> Some v))"

definition seen :: "'a option \<Rightarrow> 'a list \<Rightarrow> nat" where
  "seen found vs = (if found = None then 0 else 1) + length vs"

lemma first_of_simps [simp]:
  "first_of found [] = found" "first_of (Some v) vs = Some v" "first_of None (v # vs) = Some v"
  by (auto simp: first_of_def split: option.split)

lemma seen_simps [simp]: "seen (Some v) vs = Suc (length vs)" "seen None vs = length vs"
  by (simp_all add: seen_def)

lemma corr_lines_eq:
  "corr_lines sc lines =
    (let vs = \<lambda>key. field_values key lines
     in if seen (cs_url sc) (vs ''URL:'') \<le> 1 \<and> seen (cs_nar_hash sc) (vs ''NarHash:'') \<le> 1 \<and>
           seen (cs_nar_size sc) (vs ''NarSize:'') \<le> 1
        then Some \<lparr> cs_url = first_of (cs_url sc) (vs ''URL:''), cs_nar_hash = first_of (cs_nar_hash sc) (vs ''NarHash:''),
          cs_nar_size = first_of (cs_nar_size sc) (vs ''NarSize:''),
          cs_compression = first_of (cs_compression sc) (vs ''Compression:''),
          cs_compression_dup = (cs_compression_dup sc \<or> 1 < seen (cs_compression sc) (vs ''Compression:'')),
          cs_store_path = first_of (cs_store_path sc) (vs ''StorePath:''),
          cs_store_path_dup = (cs_store_path_dup sc \<or> 1 < seen (cs_store_path sc) (vs ''StorePath:'')) \<rparr>
        else None)"
proof (induction lines arbitrary: sc)
  case Nil
  show ?case by (cases sc) (auto simp: seen_def Let_def)
next
  case (Cons line lines)
  let ?keys = "\<lambda>sp url nh ns co. strip_prefix ''StorePath:'' line = sp \<and> strip_prefix ''URL:'' line = url \<and>
    strip_prefix ''NarHash:'' line = nh \<and> strip_prefix ''NarSize:'' line = ns \<and> strip_prefix ''Compression:'' line = co"
  consider "?keys None None None None None" | v where "?keys (Some v) None None None None" | v where "?keys None (Some v) None None None"
    | v where "?keys None None (Some v) None None" | v where "?keys None None None (Some v) None" | v where "?keys None None None None (Some v)"
    by (rule correlation_line_cases)
  then show ?case
  proof cases
    case 1
    then show ?thesis by (simp add: corr_line_def Cons del: strip_prefix_Some_iff)
  next
    case 2
    then show ?thesis by (cases "cs_store_path sc") (simp_all add: corr_line_def Cons Let_def del: strip_prefix_Some_iff)
  next
    case 3
    then show ?thesis by (cases "cs_url sc") (simp_all add: corr_line_def Cons Let_def del: strip_prefix_Some_iff)
  next
    case 4
    then show ?thesis by (cases "cs_nar_hash sc") (simp_all add: corr_line_def Cons Let_def del: strip_prefix_Some_iff)
  next
    case 5
    then show ?thesis by (cases "cs_nar_size sc") (simp_all add: corr_line_def Cons Let_def del: strip_prefix_Some_iff)
  next
    case 6
    then show ?thesis by (cases "cs_compression sc") (simp_all add: corr_line_def Cons Let_def del: strip_prefix_Some_iff)
  qed
qed

lemma corr_start_simps [simp]:
  "cs_url corr_start = None" "cs_nar_hash corr_start = None" "cs_nar_size corr_start = None" "cs_compression corr_start = None"
  "\<not> cs_compression_dup corr_start" "cs_store_path corr_start = None" "\<not> cs_store_path_dup corr_start"
  by (simp_all add: corr_start_def)

text \<open>Well-formed text with one line for each of the signed fields has a correlation, made of their values.\<close>

lemma parse_correlation_unique_fields:
  assumes "utf8 (map of_char body)" "field_values ''URL:'' (str_lines body) = [url]"
    "field_values ''NarHash:'' (str_lines body) = [nar_hash]" "field_values ''NarSize:'' (str_lines body) = [nar_size]"
    "parse_u64 nar_size = Some n" "field_values ''StorePath:'' (str_lines body) = [store_path]"
  obtains c where "parse_correlation body = Some c" "co_nar_hash c = nar_hash" "co_nar_size c = n" "co_store_path c = Some store_path"
proof -
  have "from_utf8_lossy body = body" using from_utf8_lossy_valid [of body body] assms(1) by (simp add: from_utf8_def)
  then show thesis
    using that assms(2-) by (simp add: parse_correlation_def corr_lines_eq)
qed

end
