(* ===== verification/Nixbase32.thy ===== *)
theory Nixbase32
  imports Hexfmt
begin

text \<open>
  The base-32 text form of Nix hashes, \<^verbatim>\<open>daemon-core/src/nixbase32.rs\<close>, and the strict NarHash key of
  \<^verbatim>\<open>daemon-core/src/claim.rs\<close> that is printed in it. A digit carries five bits of the little-endian bit string of
  the bytes; the proofs follow single bits.
\<close>

unbundle bit_operations_syntax

section \<open>Definitions\<close>

definition B32_ALPHABET :: string where
  "B32_ALPHABET = ''0123456789abcdfghijklmnpqrsvwxyz''"

definition encoded_len :: "nat \<Rightarrow> nat" where
  "encoded_len byte_len = (if byte_len = 0 then 0 else (byte_len * 8 - 1) div 5 + 1)"

definition b32_digit :: "bytes \<Rightarrow> nat \<Rightarrow> u16" where
  "b32_digit bytes n =
     (let bit = n * 5; i = bit div 8; j = bit mod 8;
          here = drop_bit j (ucast (bytes ! i) :: u16);
          next = (if i + 1 < length bytes then push_bit (8 - j) (ucast (bytes ! (i + 1)) :: u16) else 0)
      in (here OR next) AND 0x1f)"

definition b32_encode :: "bytes \<Rightarrow> string" where
  "b32_encode bytes =
     map (\<lambda>n. B32_ALPHABET ! unat (b32_digit bytes n)) (rev [0..<encoded_len (length bytes)])"

datatype b32_error =
    B32WrongLength nat nat
  | BadChar nat
  | NonCanonicalTail

fun display_b32_error :: "b32_error \<Rightarrow> string" where
  "display_b32_error (B32WrongLength expected found) =
     ''expected '' @ decimal expected @ '' base-32 characters, found '' @ decimal found"
| "display_b32_error (BadChar index) = ''non-base-32 character at index '' @ decimal index"
| "display_b32_error NonCanonicalTail = ''final base-32 digit is not canonical (spills past the digest)''"

fun position :: "('a \<Rightarrow> bool) \<Rightarrow> 'a list \<Rightarrow> nat option" where
  "position p [] = None"
| "position p (x # xs) = (if p x then Some 0 else map_option Suc (position p xs))"

fun b32_decode_loop :: "nat \<Rightarrow> string \<Rightarrow> nat list \<Rightarrow> bytes \<Rightarrow> (b32_error, bytes) result" where
  "b32_decode_loop N s [] out = Ok out"
| "b32_decode_loop N s (n # ns) out =
     (let index = length s - n - 1; c = s ! index
      in case position (\<lambda>a. a = c) B32_ALPHABET of
           None \<Rightarrow> Err (BadChar index)
         | Some p \<Rightarrow>
             (let digit = (of_nat p :: u16);
                  bit = n * 5; i = bit div 8; j = bit mod 8;
                  out = out[i := out ! i OR ucast (push_bit j digit)];
                  carry = drop_bit (8 - j) digit
              in if i + 1 < N then b32_decode_loop N s ns (out[i + 1 := out ! (i + 1) OR ucast carry])
                 else if carry \<noteq> 0 then Err NonCanonicalTail
                 else b32_decode_loop N s ns out))"

definition b32_decode_fixed :: "nat \<Rightarrow> string \<Rightarrow> (b32_error, bytes) result" where
  "b32_decode_fixed N s =
     (if length s \<noteq> encoded_len N then Err (B32WrongLength (encoded_len N) (length s))
      else b32_decode_loop N s [0..<length s] (replicate N 0))"


subsection \<open>The NarHash key\<close>

definition NAR_HASH_LEN :: nat where "NAR_HASH_LEN = 32"
definition NAR_HASH_PREFIX :: string where "NAR_HASH_PREFIX = ''sha256:''"

datatype nar_hash_key = NarHashKey (nar_hash_as_bytes: bytes)

datatype nar_hash_key_parse_error = NarHashMissingPrefix | BadBase32 string

definition to_nix_base32 :: "nar_hash_key \<Rightarrow> string" where
  "to_nix_base32 k = b32_encode (nar_hash_as_bytes k)"

definition nar_hash_from_str :: "string \<Rightarrow> (nar_hash_key_parse_error, nar_hash_key) result" where
  "nar_hash_from_str s =
     and_then (ok_or NarHashMissingPrefix (strip_prefix NAR_HASH_PREFIX s)) (\<lambda>body.
     and_then (map_err (\<lambda>e. BadBase32 (display_b32_error e)) (b32_decode_fixed NAR_HASH_LEN body)) (\<lambda>bytes.
     Ok (NarHashKey bytes)))"

definition display_nar_hash :: "nar_hash_key \<Rightarrow> string" where
  "display_nar_hash k = NAR_HASH_PREFIX @ to_nix_base32 k"

fun display_nar_hash_error :: "nar_hash_key_parse_error \<Rightarrow> string" where
  "display_nar_hash_error NarHashMissingPrefix = ''missing '' @ [CHR 0x27] @ NAR_HASH_PREFIX @ [CHR 0x27] @ '' prefix on a NarHash key''"
| "display_nar_hash_error (BadBase32 why) = ''malformed NarHash base-32: '' @ why"

definition wf_nar_hash :: "nar_hash_key \<Rightarrow> bool" where
  "wf_nar_hash k \<longleftrightarrow> length (nar_hash_as_bytes k) = NAR_HASH_LEN"


section \<open>The alphabet\<close>

lemma length_alphabet [simp]: "length B32_ALPHABET = 32"
  by (simp add: B32_ALPHABET_def)

lemma distinct_alphabet: "distinct B32_ALPHABET"
  by (simp add: B32_ALPHABET_def)

lemma position_Some_iff:
  "position p xs = Some i \<longleftrightarrow> i < length xs \<and> p (xs ! i) \<and> (\<forall>j < i. \<not> p (xs ! j))"
proof (induction xs arbitrary: i)
  case (Cons x xs)
  then show ?case by (cases i) (auto simp: less_Suc_eq_0_disj nth_Cons')
qed simp

lemma alphabet_position: "position (\<lambda>a. a = c) B32_ALPHABET = Some i \<longleftrightarrow> i < 32 \<and> B32_ALPHABET ! i = c"
  using distinct_alphabet by (auto simp: position_Some_iff nth_eq_iff_index_eq)


section \<open>Bits\<close>

text \<open>Bit \<open>k\<close> of the bit string of a byte list.\<close>

definition hbit :: "bytes \<Rightarrow> nat \<Rightarrow> bool" where
  "hbit bs k \<longleftrightarrow> k div 8 < length bs \<and> bit (bs ! (k div 8)) (k mod 8)"

lemma hbit_eqI:
  assumes "length xs = length ys" "\<And>k. k < 8 * length xs \<Longrightarrow> hbit xs k = hbit ys k"
  shows "xs = ys"
proof (rule nth_equalityI)
  fix i assume i: "i < length xs"
  show "xs ! i = ys ! i"
  proof (rule bit_word_eqI)
    fix n assume "n < LENGTH(8)"
    then show "bit (xs ! i) n = bit (ys ! i) n"
      using assms(2) [of "8 * i + n"] i assms(1) by (simp add: hbit_def)
  qed
qed (rule assms(1))

lemma byte_bit_lt: "bit (x :: u8) n \<Longrightarrow> n < 8"
  using bit_imp_le_length by fastforce

lemma pos_split:
  fixes i j b :: nat
  assumes "j < 8" "b < 8"
  shows "(8 * i + j + b) div 8 = (if j + b < 8 then i else i + 1)" "(8 * i + j + b) mod 8 = (if j + b < 8 then j + b else j + b - 8)"
proof -
  have e: "8 * i + j + b = j + b + 8 * i" by simp
  have "(j + b) div 8 = (if j + b < 8 then 0 else 1)" using assms by (auto intro: div_nat_eqI)
  then show "(8 * i + j + b) div 8 = (if j + b < 8 then i else i + 1)"
    unfolding e by simp
  have "(j + b) mod 8 = (if j + b < 8 then j + b else j + b - 8)" using assms by (simp add: mod_if)
  then show "(8 * i + j + b) mod 8 = (if j + b < 8 then j + b else j + b - 8)"
    unfolding e by simp
qed

lemma encoded_len_pos: "n < encoded_len N \<Longrightarrow> n * 5 div 8 < N"
  by (auto simp: encoded_len_def split: if_splits)

lemma encoded_len_covers: "k < 8 * N \<Longrightarrow> k div 5 < encoded_len N"
  by (auto simp: encoded_len_def)

lemma mask5: "(0x1f :: u16) = mask 5"
  by (simp add: mask_numeral)

lemma bit_digit:
  assumes "n * 5 div 8 < length bs"
  shows "bit (b32_digit bs n) b \<longleftrightarrow> b < 5 \<and> hbit bs (5 * n + b)"
proof -
  define i j where "i = n * 5 div 8" and "j = n * 5 mod 8"
  have n: "5 * n = 8 * i + j" and j: "j < 8" by (simp_all add: i_def j_def mult.commute)
  show ?thesis
  proof (cases "b < 5")
    case True
    have d: "bit (b32_digit bs n) b = (bit (bs ! i) (j + b) \<or> i + 1 < length bs \<and> 8 - j \<le> b \<and> bit (bs ! (i + 1)) (b - (8 - j)))"
      using True j unfolding b32_digit_def Let_def i_def [symmetric] j_def [symmetric] mask5
      by (auto simp: bit_simps)
    have i: "i < length bs" using assms by (simp add: i_def)
    show ?thesis
    proof (cases "j + b < 8")
      case True
      then show ?thesis using \<open>b < 5\<close> j i d unfolding hbit_def n by (auto simp: pos_split)
    next
      case False
      then have "\<not> bit (bs ! i) (j + b)" "b - (8 - j) = j + b - 8" using j by (auto dest: byte_bit_lt)
      then show ?thesis using False \<open>b < 5\<close> j i d unfolding hbit_def n by (auto simp: pos_split)
    qed
  next
    case False
    then show ?thesis by (simp add: b32_digit_def Let_def mask5 bit_simps)
  qed
qed

lemma digit_lt: "unat (b32_digit bs n) < 32"
proof -
  have "b32_digit bs n = b32_digit bs n AND mask 5"
    by (simp add: b32_digit_def Let_def mask5)
  then have "b32_digit bs n < 2 ^ 5" using and_mask_less' [of 5 "b32_digit bs n"] by simp
  then show ?thesis by (simp add: word_less_nat_alt)
qed

text \<open>What one digit adds to the bytes decoded so far.\<close>

definition put_digit :: "nat \<Rightarrow> u16 \<Rightarrow> bytes \<Rightarrow> bytes" where
  "put_digit n d out =
     (let i = n * 5 div 8; j = n * 5 mod 8; out = out[i := out ! i OR ucast (push_bit j d)]
      in if i + 1 < length out then out[i + 1 := out ! (i + 1) OR ucast (drop_bit (8 - j) d)] else out)"

definition spills :: "nat \<Rightarrow> nat \<Rightarrow> u16 \<Rightarrow> bool" where
  "spills N n d \<longleftrightarrow> \<not> n * 5 div 8 + 1 < N \<and> drop_bit (8 - n * 5 mod 8) d \<noteq> 0"

lemma length_put_digit [simp]: "length (put_digit n d out) = length out"
  by (simp add: put_digit_def Let_def)

lemma decode_loop_Cons:
  "b32_decode_loop N s (n # ns) out =
    (case position (\<lambda>a. a = s ! (length s - n - 1)) B32_ALPHABET of
       None \<Rightarrow> Err (BadChar (length s - n - 1))
     | Some p \<Rightarrow> if spills N n (of_nat p) then Err NonCanonicalTail
                 else b32_decode_loop N s ns (put_digit n (of_nat p) out))"
  if "length out = N"
  using that by (auto simp: Let_def put_digit_def spills_def split: option.split)

declare b32_decode_loop.simps(2) [simp del]

lemma bit_small: "d < 32 \<Longrightarrow> bit (d :: u16) b \<Longrightarrow> b < 5"
proof (rule ccontr)
  assume d: "d < 32" "bit d b" "\<not> b < 5"
  have "unat d < 2 ^ b"
    using d(1,3) power_increasing [of 5 b "2 :: nat"] by (simp add: word_less_nat_alt)
  moreover have "bit (unat d) b" using d(2) by (simp add: bit_unsigned_iff)
  ultimately show False by (simp add: bit_iff_odd)
qed

lemma hbit_update:
  assumes "i < length out"
  shows "hbit (out[i := out ! i OR x]) k \<longleftrightarrow> hbit out k \<or> k div 8 = i \<and> bit x (k mod 8)"
  using assms by (cases "k div 8 = i") (auto simp: hbit_def bit_simps)

lemma hbit_put_digit:
  assumes "n * 5 div 8 < length out" "d < 32" "\<not> spills (length out) n d"
  shows "hbit (put_digit n d out) k \<longleftrightarrow> hbit out k \<or> 5 * n \<le> k \<and> bit d (k - 5 * n)"
proof -
  define i j where "i = n * 5 div 8" and "j = n * 5 mod 8"
  have n: "5 * n = 8 * i + j" and j: "j < 8" by (simp_all add: i_def j_def mult.commute)
  have low: "bit (ucast (push_bit j d) :: u8) m \<longleftrightarrow> m < 8 \<and> j \<le> m \<and> bit d (m - j)" for m
    using j by (auto simp: bit_simps)
  have high: "bit (ucast (drop_bit (8 - j) d) :: u8) m \<longleftrightarrow> m < 8 \<and> bit d (8 - j + m)" for m
    by (auto simp: bit_simps)
  have at: "5 * n \<le> k \<and> bit d (k - 5 * n) \<longleftrightarrow>
      k div 8 = i \<and> j \<le> k mod 8 \<and> bit d (k mod 8 - j) \<or> k div 8 = i + 1 \<and> bit d (8 - j + k mod 8)"
  proof
    assume k: "5 * n \<le> k \<and> bit d (k - 5 * n)"
    define b where "b = k - 5 * n"
    have b: "b < 5" "k = 8 * i + j + b" using k bit_small [OF assms(2)] n by (auto simp: b_def)
    have "bit d b" using k by (simp add: b_def)
    then show "k div 8 = i \<and> j \<le> k mod 8 \<and> bit d (k mod 8 - j) \<or> k div 8 = i + 1 \<and> bit d (8 - j + k mod 8)"
      using b(1) j unfolding b(2) by (auto simp: pos_split)
  next
    assume "k div 8 = i \<and> j \<le> k mod 8 \<and> bit d (k mod 8 - j) \<or> k div 8 = i + 1 \<and> bit d (8 - j + k mod 8)"
    then show "5 * n \<le> k \<and> bit d (k - 5 * n)"
    proof (elim disjE conjE)
      assume a: "k div 8 = i" "j \<le> k mod 8" "bit d (k mod 8 - j)"
      have k: "k = 8 * i + k mod 8" unfolding a(1) [symmetric] by simp
      then have "5 * n \<le> k" "k - 5 * n = k mod 8 - j" using a(2) n by linarith+
      then show ?thesis using a(3) by simp
    next
      assume a: "k div 8 = i + 1" "bit d (8 - j + k mod 8)"
      have k: "k = 8 * (i + 1) + k mod 8" unfolding a(1) [symmetric] by simp
      then have "k = 5 * n + (8 - j + k mod 8)" using n j by simp
      then have "5 * n \<le> k" "k - 5 * n = 8 - j + k mod 8" by (metis le_add1, metis add_diff_cancel_left')
      then show ?thesis using a(2) by simp
    qed
  qed
  show ?thesis
  proof (cases "i + 1 < length out")
    case True
    define out' where "out' = out[i := out ! i OR ucast (push_bit j d)]"
    have "put_digit n d out = out'[i + 1 := out' ! (i + 1) OR ucast (drop_bit (8 - j) d)]"
      using True by (simp add: put_digit_def Let_def i_def [symmetric] j_def [symmetric] out'_def)
    then have "hbit (put_digit n d out) k \<longleftrightarrow> hbit out' k \<or> k div 8 = i + 1 \<and> bit (ucast (drop_bit (8 - j) d) :: u8) (k mod 8)"
      using hbit_update [of "i + 1" out'] True by (simp add: out'_def)
    moreover have "hbit out' k \<longleftrightarrow> hbit out k \<or> k div 8 = i \<and> bit (ucast (push_bit j d) :: u8) (k mod 8)"
      using True unfolding out'_def by (intro hbit_update) simp
    ultimately show ?thesis unfolding at low high by auto
  next
    case False
    then have "drop_bit (8 - j) d = 0" using assms(3) by (simp add: spills_def i_def j_def)
    then have "\<not> bit (drop_bit (8 - j) d) (k mod 8)" by simp
    then have "\<not> bit d (8 - j + k mod 8)" by (simp add: bit_drop_bit_eq)
    then show ?thesis unfolding at
      using assms(1) False by (auto simp: put_digit_def Let_def i_def [symmetric] j_def [symmetric] hbit_update low)
  qed
qed


section \<open>Decoding is the inverse of encoding\<close>

text \<open>The value of a character, and of the digit with number \<open>n\<close> of a string.\<close>

definition digit_of :: "string \<Rightarrow> nat \<Rightarrow> u16 option" where
  "digit_of s n = map_option of_nat (position (\<lambda>a. a = s ! (length s - n - 1)) B32_ALPHABET)"

lemma digit_of_lt: "digit_of s n = Some d \<Longrightarrow> d < 32"
  by (auto simp: digit_of_def alphabet_position word_less_nat_alt unat_of_nat)

lemma digit_of_iff:
  assumes "unat d < 32"
  shows "digit_of s n = Some d \<longleftrightarrow> s ! (length s - n - 1) = B32_ALPHABET ! unat d"
proof
  assume "digit_of s n = Some d"
  then obtain i where i: "i < 32" "B32_ALPHABET ! i = s ! (length s - n - 1)" "d = of_nat i"
    unfolding digit_of_def map_option_eq_Some alphabet_position by blast
  then have "unat d = i" by (simp add: unat_of_nat)
  then show "s ! (length s - n - 1) = B32_ALPHABET ! unat d" using i(2) by simp
next
  assume "s ! (length s - n - 1) = B32_ALPHABET ! unat d"
  then have "position (\<lambda>a. a = s ! (length s - n - 1)) B32_ALPHABET = Some (unat d)"
    using assms by (simp only: alphabet_position)
  then show "digit_of s n = Some d" by (simp add: digit_of_def)
qed

lemma decode_loop_step:
  "length out = N \<Longrightarrow> b32_decode_loop N s (n # ns) out = Ok bs \<longleftrightarrow>
    (\<exists>d. digit_of s n = Some d \<and> \<not> spills N n d \<and> b32_decode_loop N s ns (put_digit n d out) = Ok bs)"
  by (auto simp: decode_loop_Cons digit_of_def split: option.splits if_splits)

lemma decode_loop_Ok:
  assumes "length out = N" "\<forall>n \<in> set ns. n * 5 div 8 < N"
  shows "b32_decode_loop N s ns out = Ok bs \<longleftrightarrow>
    (\<forall>n \<in> set ns. \<exists>d. digit_of s n = Some d \<and> \<not> spills N n d) \<and> length bs = N \<and>
    (\<forall>k. hbit bs k \<longleftrightarrow> hbit out k \<or> (\<exists>n \<in> set ns. 5 * n \<le> k \<and> bit (the (digit_of s n)) (k - 5 * n)))"
  using assms
proof (induction ns arbitrary: out)
  case Nil
  then show ?case by (auto intro: hbit_eqI)
next
  case (Cons n ns)
  show ?case
  proof (cases "\<exists>d. digit_of s n = Some d \<and> \<not> spills N n d")
    case True
    then obtain d where d: "digit_of s n = Some d" "\<not> spills N n d" by blast
    have put: "hbit (put_digit n d out) k \<longleftrightarrow> hbit out k \<or> 5 * n \<le> k \<and> bit d (k - 5 * n)" for k
      using hbit_put_digit [of n out d k] Cons.prems d digit_of_lt by auto
    show ?thesis
      using Cons.prems d by (simp add: decode_loop_step Cons.IH put disj_assoc)
  next
    case False
    then have "\<not> (\<forall>n \<in> set (n # ns). \<exists>d. digit_of s n = Some d \<and> \<not> spills N n d)" by simp
    then show ?thesis using Cons.prems(1) False unfolding decode_loop_step [OF Cons.prems(1)] by blast
  qed
qed

lemma spills_bits: "spills N n d \<longleftrightarrow> \<not> n * 5 div 8 + 1 < N \<and> (\<exists>b. 8 * (n * 5 div 8 + 1) \<le> 5 * n + b \<and> bit d b)"
proof -
  define i j where "i = n * 5 div 8" and "j = n * 5 mod 8"
  have n: "5 * n = 8 * i + j" and j: "j < 8" by (simp_all add: i_def j_def mult.commute)
  have "drop_bit (8 - j) d \<noteq> 0 \<longleftrightarrow> (\<exists>m. bit (drop_bit (8 - j) d) m)" using bit_eq_iff [of "drop_bit (8 - j) d" 0] by auto
  also have "\<dots> \<longleftrightarrow> (\<exists>m. bit d (8 - j + m))" by (simp add: bit_simps)
  also have "\<dots> \<longleftrightarrow> (\<exists>b. 8 * (i + 1) \<le> 5 * n + b \<and> bit d b)"
  proof
    assume "\<exists>m. bit d (8 - j + m)"
    then obtain m where "bit d (8 - j + m)" ..
    then show "\<exists>b. 8 * (i + 1) \<le> 5 * n + b \<and> bit d b" using n j by (intro exI [of _ "8 - j + m"]) simp
  next
    assume "\<exists>b. 8 * (i + 1) \<le> 5 * n + b \<and> bit d b"
    then obtain b where b: "8 * (i + 1) \<le> 5 * n + b" "bit d b" by blast
    then have "b = 8 - j + (b - (8 - j))" using n j by simp
    then show "\<exists>m. bit d (8 - j + m)" using b(2) by metis
  qed
  finally show ?thesis by (simp add: spills_def i_def [symmetric] j_def [symmetric])
qed

lemma decode_fixed_Ok:
  "b32_decode_fixed N s = Ok bs \<longleftrightarrow> length s = encoded_len N \<and> length bs = N \<and>
    (\<forall>n < encoded_len N. digit_of s n = Some (b32_digit bs n))"
  (is "?l \<longleftrightarrow> ?r")
proof
  assume ?l
  then have len: "length s = encoded_len N" and loop: "b32_decode_loop N s [0..<length s] (replicate N 0) = Ok bs"
    by (auto simp: b32_decode_fixed_def split: if_splits)
  have pos: "\<forall>n \<in> set [0..<length s]. n * 5 div 8 < N" using len encoded_len_pos by simp
  have zero: "\<not> hbit (replicate N 0) k" for k by (auto simp: hbit_def)
  from loop decode_loop_Ok [where out = "replicate N 0" and bs = bs and s = s, OF _ pos] zero
  have dig: "\<forall>n < length s. \<exists>d. digit_of s n = Some d \<and> \<not> spills N n d" and bs: "length bs = N"
    and bits: "hbit bs k \<longleftrightarrow> (\<exists>n < length s. 5 * n \<le> k \<and> bit (the (digit_of s n)) (k - 5 * n))" for k
    by auto
  have "digit_of s n = Some (b32_digit bs n)" if n: "n < encoded_len N" for n
  proof -
    obtain d where d: "digit_of s n = Some d" using dig n len by auto
    have "bit (b32_digit bs n) b \<longleftrightarrow> bit d b" for b
    proof -
      have "bit (b32_digit bs n) b \<longleftrightarrow> b < 5 \<and> hbit bs (5 * n + b)"
        using bit_digit n encoded_len_pos bs by simp
      also have "\<dots> \<longleftrightarrow> b < 5 \<and> bit d b"
      proof -
        have "m = n" if "m < length s" "5 * m \<le> 5 * n + b" "bit (the (digit_of s m)) (5 * n + b - 5 * m)" "b < 5" for m
        proof -
          have "5 * n + b - 5 * m < 5" using dig that(1,3) bit_small digit_of_lt by fastforce
          then show ?thesis using that by linarith
        qed
        then show ?thesis unfolding bits using d n len by (metis add_diff_cancel_left' le_add1 option.sel)
      qed
      also have "\<dots> \<longleftrightarrow> bit d b" using bit_small digit_of_lt [OF d] by blast
      finally show ?thesis .
    qed
    then show ?thesis using d by (simp add: bit_eq_iff)
  qed
  then show ?r using len bs by simp
next
  assume r: ?r
  have pos: "\<forall>n \<in> set [0..<length s]. n * 5 div 8 < N" using r encoded_len_pos by simp
  have zero: "\<not> hbit (replicate N 0) k" for k by (auto simp: hbit_def)
  have bd: "bit (b32_digit bs n) b \<longleftrightarrow> b < 5 \<and> hbit bs (5 * n + b)" if "n < encoded_len N" for n b
    using bit_digit that encoded_len_pos r by simp
  have "\<not> spills N n (b32_digit bs n)" if n: "n < encoded_len N" for n
  proof
    assume "spills N n (b32_digit bs n)"
    then obtain b where "\<not> n * 5 div 8 + 1 < N" "8 * (n * 5 div 8 + 1) \<le> 5 * n + b" "hbit bs (5 * n + b)"
      using bd [OF n] unfolding spills_bits by blast
    then show False using r by (auto simp: hbit_def)
  qed
  moreover have "hbit bs k \<longleftrightarrow> (\<exists>n < length s. 5 * n \<le> k \<and> bit (b32_digit bs n) (k - 5 * n))" for k
  proof
    assume k: "hbit bs k"
    then have "k div 8 < N" using r by (auto simp: hbit_def)
    then have "k div 5 < length s" using r encoded_len_covers [of k N] by simp
    moreover have "5 * (k div 5) \<le> k" "k - 5 * (k div 5) < 5" "5 * (k div 5) + (k - 5 * (k div 5)) = k" by simp_all
    ultimately show "\<exists>n < length s. 5 * n \<le> k \<and> bit (b32_digit bs n) (k - 5 * n)" using k r bd by metis
  next
    assume "\<exists>n < length s. 5 * n \<le> k \<and> bit (b32_digit bs n) (k - 5 * n)"
    then show "hbit bs k" using r bd by fastforce
  qed
  ultimately show ?l
    using r decode_loop_Ok [where out = "replicate N 0" and bs = bs and s = s, OF _ pos] zero by (simp add: b32_decode_fixed_def Bex_def)
qed

lemma length_b32_encode [simp]: "length (b32_encode bs) = encoded_len (length bs)"
  by (simp add: b32_encode_def)

lemma digit_of_encode:
  assumes "length s = encoded_len (length bs)"
  shows "(\<forall>n < length s. digit_of s n = Some (b32_digit bs n)) \<longleftrightarrow> s = b32_encode bs"
proof -
  let ?L = "length s"
  have char: "digit_of s n = Some (b32_digit bs n) \<longleftrightarrow> s ! (?L - n - 1) = B32_ALPHABET ! unat (b32_digit bs n)" for n
    by (rule digit_of_iff) (rule digit_lt)
  have enc: "b32_encode bs ! (?L - n - 1) = B32_ALPHABET ! unat (b32_digit bs n)" if "n < ?L" for n
    using that assms by (simp add: b32_encode_def rev_nth)
  show ?thesis
  proof
    assume l: "\<forall>n < ?L. digit_of s n = Some (b32_digit bs n)"
    show "s = b32_encode bs"
    proof (rule nth_equalityI)
      fix m assume m: "m < ?L"
      then show "s ! m = b32_encode bs ! m"
        using l char [of "?L - m - 1"] enc [of "?L - m - 1"] by (simp add: Suc_diff_Suc)
    qed (simp add: assms)
  next
    assume "s = b32_encode bs"
    then show "\<forall>n < ?L. digit_of s n = Some (b32_digit bs n)" using char enc by metis
  qed
qed

lemma decode_fixed_iff: "b32_decode_fixed N s = Ok bs \<longleftrightarrow> length bs = N \<and> s = b32_encode bs"
  using digit_of_encode [of s bs] by (auto simp: decode_fixed_Ok)

interpretation nix32: text_codec b32_encode "b32_decode_fixed n" "\<lambda>bs. length bs = n"
  by unfold_locales (auto simp: decode_fixed_iff)

interpretation nar_hash_text: text_codec display_nar_hash nar_hash_from_str wf_nar_hash
  by unfold_locales
    (auto simp: display_nar_hash_def to_nix_base32_def nar_hash_from_str_def wf_nar_hash_def nix32.dec_iff)

end
