(* ===== verification/Public_Allowlist.thy ===== *)
theory Public_Allowlist
  imports Catalog Nixbase32 Ids "HOL-Library.Char_ord" "HOL-Library.List_Lexorder"
begin

text \<open>
  The allowlist of public NARs, \<^verbatim>\<open>daemon-core/src/public_allowlist.rs\<close>: the proof that a narinfo is signed by a
  trusted key, the authenticated append-only file of learned NAR hashes, and the gate that approves a
  publication. Base-64, ed25519 and the keyed BLAKE3 hash are parameters; the answers of the operating system to
  one operation are a record. The text of a persistence error is kept as its site and its data.
\<close>

section \<open>Definitions\<close>

subsection \<open>Trusted keys\<close>

record codec64 =
  b64_decode :: "string \<Rightarrow> (string, bytes) result"
  vk_error :: "bytes \<Rightarrow> string"

type_synonym trusted_nar_keys = "(string, bytes) hash_map"

datatype trusted_key_error = Malformed string | BadKey string

definition insert_line ::
  "codec64 \<Rightarrow> ed25519 \<Rightarrow> trusted_nar_keys \<Rightarrow> string \<Rightarrow> (trusted_key_error, trusted_nar_keys) result" where
  "insert_line B E keys line =
     and_then (ok_or (Malformed line) (split_once CHR '':'' line)) (\<lambda>(name, b64).
     if name = [] then Err (Malformed line)
     else and_then (map_err (\<lambda>e. BadKey (name @ '': base64: '' @ e)) (b64_decode B (str_trim b64))) (\<lambda>raw.
     if length raw \<noteq> 32 then Err (BadKey (name @ '': expected 32 bytes, got '' @ decimal (length raw)))
     else if \<not> vk_from_bytes E raw then Err (BadKey (name @ '': '' @ vk_error B raw))
     else Ok (hm_insert keys name raw)))"

fun from_lines ::
  "codec64 \<Rightarrow> ed25519 \<Rightarrow> trusted_nar_keys \<Rightarrow> string list \<Rightarrow> (trusted_key_error, trusted_nar_keys) result" where
  "from_lines B E keys [] = Ok keys"
| "from_lines B E keys (line # lines) = and_then (insert_line B E keys line) (\<lambda>keys. from_lines B E keys lines)"


subsection \<open>The proof that a NAR is public\<close>

record verified_public_nar =
  vp_nar_hash :: nar_hash_key
  vp_nar_size :: u64
  vp_store_hash :: string

datatype public_proof_reject =
    MissingField string
  | DuplicateField string
  | MissingFinalNewline
  | ZeroNarSize
  | MalformedNarHash string
  | MalformedNarSize string
  | MalformedSig string
  | UntrustedKey string
  | BadSignature

definition store_hash_of :: "string \<Rightarrow> string" where
  "store_hash_of store_path =
     (let basename = last (split_on CHR ''/'' store_path)
      in case split_once CHR ''-'' basename of Some (hash, _) \<Rightarrow> hash | None \<Rightarrow> basename)"

fun field_loop :: "string \<Rightarrow> string option \<Rightarrow> string list \<Rightarrow> (unit, string option) result" where
  "field_loop key found [] = Ok found"
| "field_loop key found (line # lines) =
     (case strip_prefix key line of
        Some v \<Rightarrow> if found \<noteq> None then Err () else field_loop key (Some (str_trim v)) lines
      | None \<Rightarrow> field_loop key found lines)"

definition field :: "string \<Rightarrow> string \<Rightarrow> (unit, string option) result" where
  "field txt key = field_loop key None (str_lines txt)"

definition required_field :: "string \<Rightarrow> string \<Rightarrow> (public_proof_reject, string) result" where
  "required_field txt name =
     and_then (map_err (\<lambda>_. DuplicateField name) (field txt (name @ '':''))) (ok_or (MissingField name))"

definition fingerprint :: "string \<Rightarrow> string \<Rightarrow> u64 \<Rightarrow> string \<Rightarrow> string" where
  "fingerprint store_path nar_hash nar_size references =
     (let store_dir = (case rsplit_once CHR ''/'' store_path of Some (dir, _) \<Rightarrow> dir | None \<Rightarrow> []);
          refs = map (\<lambda>r. store_dir @ ''/'' @ r) (filter (\<lambda>r. r \<noteq> []) (split_whitespace references));
          refs = sort refs
      in ''1;'' @ store_path @ '';'' @ nar_hash @ '';'' @ decimal (unat nar_size) @ '';'' @ words_of CHR '','' refs)"

definition str_bytes :: "string \<Rightarrow> bytes" where
  "str_bytes s = map byte_of s"

fun sig_loop ::
  "codec64 \<Rightarrow> ed25519 \<Rightarrow> trusted_nar_keys \<Rightarrow> string \<Rightarrow> verified_public_nar \<Rightarrow> bool \<Rightarrow> string \<Rightarrow> string list \<Rightarrow>
    (public_proof_reject, verified_public_nar) result" where
  "sig_loop B E trusted fp proven saw_trusted_named last_untrusted_name [] =
     (if saw_trusted_named then Err BadSignature else Err (UntrustedKey last_untrusted_name))"
| "sig_loop B E trusted fp proven saw_trusted_named last_untrusted_name (line # lines) =
     (case map_option str_trim (strip_prefix ''Sig:'' line) of
        None \<Rightarrow> sig_loop B E trusted fp proven saw_trusted_named last_untrusted_name lines
      | Some sig_value \<Rightarrow>
          (case split_once CHR '':'' sig_value of
             None \<Rightarrow> Err (MalformedSig sig_value)
           | Some (name, b64) \<Rightarrow>
               (case hm_get trusted name of
                  None \<Rightarrow> sig_loop B E trusted fp proven saw_trusted_named name lines
                | Some verifying_key \<Rightarrow>
                    and_then (map_err (\<lambda>e. MalformedSig (name @ '': base64: '' @ e)) (b64_decode B b64)) (\<lambda>raw.
                    if length raw \<noteq> 64 then Err (MalformedSig (name @ '': expected 64 sig bytes, got '' @ decimal (length raw)))
                    else if vk_verify_strict E verifying_key (str_bytes fp) raw then Ok proven
                    else sig_loop B E trusted fp proven True last_untrusted_name lines))))"

definition prove_public ::
  "codec64 \<Rightarrow> ed25519 \<Rightarrow> string \<Rightarrow> trusted_nar_keys \<Rightarrow> (public_proof_reject, verified_public_nar) result" where
  "prove_public B E narinfo trusted =
     and_then (ok_or (MissingField ''StorePath'') (from_utf8 narinfo)) (\<lambda>txt.
     if strip_suffix [NEWLINE] narinfo = None then Err MissingFinalNewline
     else
     and_then (required_field txt ''StorePath'') (\<lambda>store_path.
     if store_path = [] then Err (MissingField ''StorePath'')
     else
     and_then (required_field txt ''URL'') (\<lambda>url.
     if url = [] then Err (MissingField ''URL'')
     else
     and_then (required_field txt ''NarHash'') (\<lambda>nar_hash_str.
     and_then (required_field txt ''NarSize'') (\<lambda>nar_size_str.
     and_then (required_field txt ''References'') (\<lambda>references.
     and_then (map_err (\<lambda>_. MalformedNarHash nar_hash_str) (nar_hash_from_str nar_hash_str)) (\<lambda>nar_hash.
     and_then (ok_or (MalformedNarSize nar_size_str) (parse_u64 nar_size_str)) (\<lambda>nar_size.
     if nar_size = 0 then Err ZeroNarSize
     else sig_loop B E trusted (fingerprint store_path (display_nar_hash nar_hash) nar_size references)
       \<lparr> vp_nar_hash = nar_hash, vp_nar_size = nar_size, vp_store_hash = store_hash_of store_path \<rparr>
       False [] (str_lines txt)))))))))"


subsection \<open>The authenticated file\<close>

definition MAX_ALLOWLIST_FILE_BYTES :: nat where "MAX_ALLOWLIST_FILE_BYTES = 64 * 1024 * 1024"
definition MAX_ALLOWLIST_RECORDS :: nat where "MAX_ALLOWLIST_RECORDS = 1000000"
definition ALLOWLIST_MAC_CONTEXT :: string where "ALLOWLIST_MAC_CONTEXT = ''nix-p2p public-allowlist record MAC v1''"

definition derive_allowlist_mac_key :: "'h blake3 \<Rightarrow> bytes \<Rightarrow> bytes" where
  "derive_allowlist_mac_key H identity_seed = b3_derive_key H ALLOWLIST_MAC_CONTEXT identity_seed"

type_synonym keyed_hash = "bytes \<Rightarrow> bytes \<Rightarrow> bytes"

definition record_canonical :: "nar_hash_key \<Rightarrow> u64 \<Rightarrow> string" where
  "record_canonical nar_hash nar_size = display_nar_hash nar_hash @ '' '' @ decimal (unat nar_size)"

definition record_mac :: "keyed_hash \<Rightarrow> bytes \<Rightarrow> nar_hash_key \<Rightarrow> u64 \<Rightarrow> string" where
  "record_mac K mac_key nar_hash nar_size = encode (K mac_key (str_bytes (record_canonical nar_hash nar_size)))"

datatype allowlist_persist_error =
    Opening string | Inspecting string | NotRegular | HardLinks u64 | ForeignOwner u32 | Accessible u32
  | OpeningParent string | InspectingParent string | ParentNotDirectory | ParentForeignOwner u32 | ParentWritable u32
  | CreatingDir string | Locking string | Unlocking string | Sizing string | OverBound nat | Reading string
  | Truncating string | Seeking string | Appending string | Fsyncing string | OpeningDir string | FsyncingDir string
  | NotUtf8 | TooManyRecords | MissingSize string | MissingMac string | BadNarHash string | BadNarSize string | BadMac string

datatype open_mode = ReadMode | ReadWriteMode

datatype file_kind = RegularFile | DirectoryFile | OtherFile

record file_stat =
  st_kind :: file_kind
  st_nlink :: u64
  st_uid :: u32
  st_mode :: u32

datatype open_answer = Opened | NoEnt | OpenFailed string

record os_answers =
  os_euid :: u32
  os_create_dir :: "(string, unit) result"
  os_open_parent :: "(string, unit) result"
  os_parent_stat :: "(string, file_stat) result"
  os_open :: open_answer
  os_stat :: "(string, file_stat) result"
  os_lock :: "(string, unit) result"
  os_unlock :: "(string, unit) result"
  os_sizing :: "(string, unit) result"
  os_read :: "(string, unit) result"
  os_truncate :: "(string, unit) result"
  os_seek :: "(string, unit) result"
  os_write :: "(nat \<times> string, unit) result"   \<comment> \<open>a failed write has written some bytes\<close>
  os_sync :: "(string, unit) result"
  os_open_dir :: "(string, unit) result"
  os_sync_dir :: "(string, unit) result"

definition open_strict :: "os_answers \<Rightarrow> open_mode \<Rightarrow> (allowlist_persist_error, bool) result" where
  "open_strict os mode =
     (case os_open os of
        NoEnt \<Rightarrow> if mode = ReadMode then Ok False else Err (Opening ''No such file or directory'')
      | OpenFailed e \<Rightarrow> Err (Opening e)
      | Opened \<Rightarrow>
          and_then (map_err Inspecting (os_stat os)) (\<lambda>stat.
          if st_kind stat \<noteq> RegularFile then Err NotRegular
          else if st_nlink stat \<noteq> 1 then Err (HardLinks (st_nlink stat))
          else if st_uid stat \<noteq> os_euid os then Err (ForeignOwner (st_uid stat))
          else if st_mode stat AND 0x3F \<noteq> 0 then Err (Accessible (st_mode stat AND 0x1FF))
          else Ok True))"

definition check_parent :: "os_answers \<Rightarrow> (allowlist_persist_error, unit) result" where
  "check_parent os =
     and_then (map_err OpeningParent (os_open_parent os)) (\<lambda>_.
     and_then (map_err InspectingParent (os_parent_stat os)) (\<lambda>stat.
     if st_kind stat \<noteq> DirectoryFile then Err ParentNotDirectory
     else if st_uid stat \<noteq> os_euid os then Err (ParentForeignOwner (st_uid stat))
     else if st_mode stat AND 0x12 \<noteq> 0 then Err (ParentWritable (st_mode stat AND 0x1FF))
     else Ok ()))"

definition lock_finish :: "os_answers \<Rightarrow> (allowlist_persist_error, 'a) result \<Rightarrow> (allowlist_persist_error, 'a) result" where
  "lock_finish os operation =
     (case (operation, map_err Unlocking (os_unlock os)) of
        (Ok v, Ok _) \<Rightarrow> Ok v
      | (Ok _, Err unlock_error) \<Rightarrow> Err unlock_error
      | (Err operation_error, _) \<Rightarrow> Err operation_error)"

definition constant_time_eq :: "bytes \<Rightarrow> bytes \<Rightarrow> bool" where
  "constant_time_eq a b =
     (if length a \<noteq> length b then False
      else foldl (\<lambda>diff (x, y). diff OR (x XOR y)) 0 (zip a b) = 0)"

definition trim_end_matches :: "'a \<Rightarrow> 'a list \<Rightarrow> 'a list" where
  "trim_end_matches c s = rev (dropWhile (\<lambda>x. x = c) (rev s))"

definition splitn3 :: "'a \<Rightarrow> 'a list \<Rightarrow> 'a list \<times> ('a list \<times> 'a list option) option" where
  "splitn3 c s =
     (case split_once c s of
        None \<Rightarrow> (s, None)
      | Some (a, rest) \<Rightarrow> (case split_once c rest of None \<Rightarrow> (a, Some (rest, None)) | Some (b, d) \<Rightarrow> (a, Some (b, Some d))))"

definition parse_record :: "keyed_hash \<Rightarrow> bytes \<Rightarrow> string \<Rightarrow> (allowlist_persist_error, nar_hash_key \<times> u64) result" where
  "parse_record K mac_key line =
     (let parts = splitn3 CHR '' '' line; hash_str = fst parts in
      and_then (ok_or (MissingSize line) (snd parts)) (\<lambda>(size_str, rest).
      and_then (ok_or (MissingMac line) rest) (\<lambda>mac_str.
      and_then (map_err (\<lambda>_. BadNarHash hash_str) (nar_hash_from_str hash_str)) (\<lambda>nar_hash.
      and_then (ok_or (BadNarSize size_str) (parse_u64 size_str)) (\<lambda>nar_size.
      if \<not> constant_time_eq (str_bytes mac_str) (str_bytes (record_mac K mac_key nar_hash nar_size)) then Err (BadMac line)
      else Ok (nar_hash, nar_size))))))"

fun committed_loop :: "keyed_hash \<Rightarrow> bytes \<Rightarrow> (nar_hash_key \<times> u64) list \<Rightarrow> string list \<Rightarrow>
    (allowlist_persist_error, (nar_hash_key \<times> u64) list) result" where
  "committed_loop K mac_key out [] = Ok out"
| "committed_loop K mac_key out (segment # segments) =
     (case strip_suffix [NEWLINE] segment of
        None \<Rightarrow> Ok out
      | Some line \<Rightarrow>
          (let line = trim_end_matches CARRIAGE_RETURN line
           in if line = [] then committed_loop K mac_key out segments
              else if MAX_ALLOWLIST_RECORDS \<le> length out then Err TooManyRecords
              else and_then (parse_record K mac_key line) (\<lambda>entry. committed_loop K mac_key (out @ [entry]) segments)))"

definition parse_committed ::
  "keyed_hash \<Rightarrow> bytes \<Rightarrow> string \<Rightarrow> (allowlist_persist_error, (nar_hash_key \<times> u64) list) result" where
  "parse_committed K mac_key bytes =
     and_then (ok_or NotUtf8 (from_utf8 bytes)) (\<lambda>txt. committed_loop K mac_key [] (split_inclusive NEWLINE txt))"

definition load_file ::
  "keyed_hash \<Rightarrow> bytes \<Rightarrow> os_answers \<Rightarrow> string \<Rightarrow> (allowlist_persist_error, (nar_hash_key \<times> u64) list) result" where
  "load_file K mac_key os content =
     and_then (open_strict os ReadMode) (\<lambda>present.
     if \<not> present then Ok []
     else and_then (map_err Locking (os_lock os)) (\<lambda>_.
     lock_finish os
       (and_then (map_err Sizing (os_sizing os)) (\<lambda>_.
        if MAX_ALLOWLIST_FILE_BYTES < length content then Err (OverBound (length content))
        else and_then (map_err Reading (os_read os)) (\<lambda>_.
        parse_committed K mac_key (take MAX_ALLOWLIST_FILE_BYTES content))))))"

definition rposition :: "'a \<Rightarrow> 'a list \<Rightarrow> nat option" where
  "rposition c s = map_option (\<lambda>i. length s - 1 - i) (position (\<lambda>x. x = c) (rev s))"

definition write_at :: "nat \<Rightarrow> 'a list \<Rightarrow> 'a list \<Rightarrow> 'a list" where
  "write_at pos data content = take pos content @ data @ drop (pos + length data) content"

definition record_line :: "keyed_hash \<Rightarrow> bytes \<Rightarrow> nar_hash_key \<Rightarrow> u64 \<Rightarrow> string" where
  "record_line K mac_key nar_hash nar_size =
     record_canonical nar_hash nar_size @ '' '' @ record_mac K mac_key nar_hash nar_size @ [NEWLINE]"

definition committed_len :: "string \<Rightarrow> nat" where
  "committed_len existing = (case rposition NEWLINE existing of Some i \<Rightarrow> i + 1 | None \<Rightarrow> 0)"

definition append_locked ::
  "keyed_hash \<Rightarrow> bytes \<Rightarrow> os_answers \<Rightarrow> bool \<Rightarrow> string \<Rightarrow> nar_hash_key \<Rightarrow> u64 \<Rightarrow>
    string \<times> (allowlist_persist_error, unit) result" where
  "append_locked K mac_key os existed content nar_hash nar_size =
     (case os_read os of Err e \<Rightarrow> (content, Err (Reading e)) | Ok _ \<Rightarrow>
      let existing = take MAX_ALLOWLIST_FILE_BYTES content; at = committed_len existing in
      case (if at \<noteq> length existing then map_err Truncating (os_truncate os) else Ok ()) of
        Err e \<Rightarrow> (content, Err e)
      | Ok _ \<Rightarrow>
          let content = (if at \<noteq> length existing then take at content else content) in
          case os_seek os of Err e \<Rightarrow> (content, Err (Seeking e)) | Ok _ \<Rightarrow>
          let line = record_line K mac_key nar_hash nar_size in
          case os_write os of Err (k, e) \<Rightarrow> (write_at at (take k line) content, Err (Appending e)) | Ok _ \<Rightarrow>
          let content = write_at at line content in
          case os_sync os of Err e \<Rightarrow> (content, Err (Fsyncing e)) | Ok _ \<Rightarrow>
          if existed then (content, Ok ())
          else case os_open_dir os of Err e \<Rightarrow> (content, Err (OpeningDir e)) | Ok _ \<Rightarrow>
            (case os_sync_dir os of Err e \<Rightarrow> (content, Err (FsyncingDir e)) | Ok _ \<Rightarrow> (content, Ok ())))"

text \<open>The file is absent or has a content; opening it for writing creates it.\<close>

definition append_file ::
  "keyed_hash \<Rightarrow> bytes \<Rightarrow> os_answers \<Rightarrow> string option \<Rightarrow> nar_hash_key \<Rightarrow> u64 \<Rightarrow>
    string option \<times> (allowlist_persist_error, unit) result" where
  "append_file K mac_key os file nar_hash nar_size =
     (let existed = (file \<noteq> None) in
      case (if existed then Ok () else map_err CreatingDir (os_create_dir os)) of Err e \<Rightarrow> (file, Err e) | Ok _ \<Rightarrow>
      case check_parent os of Err e \<Rightarrow> (file, Err e) | Ok _ \<Rightarrow>
      case open_strict os ReadWriteMode of
        Err e \<Rightarrow> (if os_open os = Opened then Some (case file of Some c \<Rightarrow> c | None \<Rightarrow> []) else file, Err e)
      | Ok _ \<Rightarrow>
          let content = (case file of Some c \<Rightarrow> c | None \<Rightarrow> []) in
          case os_lock os of Err e \<Rightarrow> (Some content, Err (Locking e)) | Ok _ \<Rightarrow>
          let (content, outcome) = append_locked K mac_key os existed content nar_hash nar_size
          in (Some content, lock_finish os outcome))"


subsection \<open>The allowlist\<close>

datatype learn_outcome =
    Appended nar_hash_key u64
  | AlreadyPresent nar_hash_key
  | Rejected public_proof_reject
  | RequestMismatch string string
  | PersistFailed allowlist_persist_error

record public_nar_claim =
  pc_nar_hash :: nar_hash_key
  pc_nar_size :: u64

datatype publication_rejected = NotAllowlisted nar_hash_key | SizeMismatch nar_hash_key u64 u64

text \<open>The store is the null store or the file with its MAC key.\<close>

datatype allowlist_store = NullAllowlistStore | FileAllowlistStore "string option" bytes

record public_nar_allowlist =
  pa_trusted :: trusted_nar_keys
  pa_entries :: "(nar_hash_key, u64) hash_map"
  pa_store :: allowlist_store

fun store_load ::
  "keyed_hash \<Rightarrow> os_answers \<Rightarrow> allowlist_store \<Rightarrow> (allowlist_persist_error, (nar_hash_key \<times> u64) list) result" where
  "store_load K os NullAllowlistStore = Ok []"
| "store_load K os (FileAllowlistStore file mac_key) = load_file K mac_key os (case file of Some c \<Rightarrow> c | None \<Rightarrow> [])"

fun store_append ::
  "keyed_hash \<Rightarrow> os_answers \<Rightarrow> allowlist_store \<Rightarrow> nar_hash_key \<Rightarrow> u64 \<Rightarrow>
    allowlist_store \<times> (allowlist_persist_error, unit) result" where
  "store_append K os NullAllowlistStore nar_hash nar_size = (NullAllowlistStore, Ok ())"
| "store_append K os (FileAllowlistStore file mac_key) nar_hash nar_size =
     (let (file, outcome) = append_file K mac_key os file nar_hash nar_size in (FileAllowlistStore file mac_key, outcome))"

definition collect_entries :: "(nar_hash_key \<times> u64) list \<Rightarrow> (nar_hash_key, u64) hash_map" where
  "collect_entries loaded = foldl (\<lambda>m (k, v). hm_insert m k v) [] loaded"

definition allowlist_open ::
  "keyed_hash \<Rightarrow> os_answers \<Rightarrow> trusted_nar_keys \<Rightarrow> allowlist_store \<Rightarrow> (allowlist_persist_error, public_nar_allowlist) result" where
  "allowlist_open K os trusted store =
     and_then (store_load K os store) (\<lambda>loaded.
     Ok \<lparr> pa_trusted = trusted, pa_entries = collect_entries loaded, pa_store = store \<rparr>)"

definition allowlist_disabled :: public_nar_allowlist where
  "allowlist_disabled = \<lparr> pa_trusted = [], pa_entries = [], pa_store = NullAllowlistStore \<rparr>"

definition learn ::
  "codec64 \<Rightarrow> ed25519 \<Rightarrow> keyed_hash \<Rightarrow> os_answers \<Rightarrow> public_nar_allowlist \<Rightarrow> store_hash \<Rightarrow> string \<Rightarrow>
    public_nar_allowlist \<times> learn_outcome" where
  "learn B E K os self requested narinfo =
     (case prove_public B E narinfo (pa_trusted self) of
        Err reject \<Rightarrow> (self, Rejected reject)
      | Ok verified \<Rightarrow>
          if vp_store_hash verified \<noteq> requested then (self, RequestMismatch requested (vp_store_hash verified))
          else if hm_get (pa_entries self) (vp_nar_hash verified) \<noteq> None then (self, AlreadyPresent (vp_nar_hash verified))
          else case store_append K os (pa_store self) (vp_nar_hash verified) (vp_nar_size verified) of
            (store, Err e) \<Rightarrow> (self\<lparr> pa_store := store \<rparr>, PersistFailed e)
          | (store, Ok _) \<Rightarrow>
              (self\<lparr> pa_store := store, pa_entries := hm_insert (pa_entries self) (vp_nar_hash verified) (vp_nar_size verified) \<rparr>,
               Appended (vp_nar_hash verified) (vp_nar_size verified)))"

definition allowlist_contains :: "public_nar_allowlist \<Rightarrow> nar_hash_key \<Rightarrow> bool" where
  "allowlist_contains self nar_hash = hm_contains (pa_entries self) nar_hash"

definition contains_content_key :: "'h blake3 \<Rightarrow> public_nar_allowlist \<Rightarrow> content_key \<Rightarrow> bool" where
  "contains_content_key H self key =
     list_ex (\<lambda>nar_hash. derive_from_signed_nar_hash H (nar_hash_as_bytes nar_hash) = key) (map fst (pa_entries self))"

definition approved_size :: "public_nar_allowlist \<Rightarrow> nar_hash_key \<Rightarrow> u64 option" where
  "approved_size self nar_hash = hm_get (pa_entries self) nar_hash"

definition approve ::
  "public_nar_allowlist \<Rightarrow> nar_hash_key \<Rightarrow> u64 option \<Rightarrow> (publication_rejected, public_nar_claim) result" where
  "approve self nar_hash expected_size =
     and_then (ok_or (NotAllowlisted nar_hash) (approved_size self nar_hash)) (\<lambda>approved.
     case expected_size of
       Some requested \<Rightarrow>
         if requested \<noteq> approved then Err (SizeMismatch nar_hash approved requested)
         else Ok \<lparr> pc_nar_hash = nar_hash, pc_nar_size = approved \<rparr>
     | None \<Rightarrow> Ok \<lparr> pc_nar_hash = nar_hash, pc_nar_size = approved \<rparr>)"

record allowlist_status =
  as_count :: nat
  as_total_nar_size_bytes :: u64

definition status :: "public_nar_allowlist \<Rightarrow> allowlist_status" where
  "status self = \<lparr> as_count = length (pa_entries self), as_total_nar_size_bytes = sum_list (hm_values (pa_entries self)) \<rparr>"



section \<open>What a proof establishes\<close>

lemma field_loop_Ok:
  "field_loop key found lines = Ok r \<longleftrightarrow>
    (case found of
       None \<Rightarrow> (case r of None \<Rightarrow> field_values key lines = [] | Some v \<Rightarrow> field_values key lines = [v])
     | Some v \<Rightarrow> r = Some v \<and> field_values key lines = [])"
proof (induction lines arbitrary: found r)
  case Nil
  then show ?case by (auto split: option.split)
next
  case (Cons line lines)
  show ?case
    by (cases "strip_prefix key line"; cases found; cases r) (auto simp: Cons simp del: strip_prefix_Some_iff)
qed

lemma required_field_Ok: "required_field txt name = Ok v \<longleftrightarrow> field_values (name @ '':'') (str_lines txt) = [v]"
  by (auto simp: required_field_def field_def field_loop_Ok)

lemma sig_loop_Ok:
  assumes "sig_loop B E trusted fp proven saw last_name lines = Ok v"
  obtains name b64 verifying_key raw where "v = proven" "name @ '':'' @ b64 \<in> set (field_values ''Sig:'' lines)"
    "CHR '':'' \<notin> set name" "hm_get trusted name = Some verifying_key" "b64_decode B b64 = Ok raw" "length raw = 64"
    "vk_verify_strict E verifying_key (str_bytes fp) raw"
proof -
  have "\<exists>name b64 verifying_key raw. v = proven \<and> name @ '':'' @ b64 \<in> set (field_values ''Sig:'' lines) \<and>
    CHR '':'' \<notin> set name \<and> hm_get trusted name = Some verifying_key \<and> b64_decode B b64 = Ok raw \<and> length raw = 64 \<and>
    vk_verify_strict E verifying_key (str_bytes fp) raw"
    using assms
  proof (induction lines arbitrary: saw last_name)
    case (Cons line lines)
    show ?case
    proof (cases "strip_prefix ''Sig:'' line")
      case None
      then show ?thesis using Cons by (auto simp del: strip_prefix_Some_iff)
    next
      case (Some v0)
      then obtain name b64 where nb: "split_once CHR '':'' (str_trim v0) = Some (name, b64)"
        using Cons.prems by (auto simp del: strip_prefix_Some_iff split: option.splits)
      then have tv: "str_trim v0 = name @ '':'' @ b64" "CHR '':'' \<notin> set name" by (auto simp: split_once_Some_iff)
      show ?thesis
      proof (cases "hm_get trusted name")
        case None
        then have "sig_loop B E trusted fp proven saw name lines = Ok v"
          using Cons.prems Some nb by (simp del: strip_prefix_Some_iff)
        from Cons.IH [OF this] show ?thesis using Some by (auto simp del: strip_prefix_Some_iff)
      next
        case (Some key)
        then obtain raw where raw: "b64_decode B b64 = Ok raw" "length raw = 64"
          "vk_verify_strict E key (str_bytes fp) raw \<and> v = proven \<or> sig_loop B E trusted fp proven True last_name lines = Ok v"
          using Cons.prems \<open>strip_prefix ''Sig:'' line = Some v0\<close> nb
          by (auto simp del: strip_prefix_Some_iff split: if_splits)
        then show ?thesis
        proof (elim disjE conjE)
          assume "vk_verify_strict E key (str_bytes fp) raw" "v = proven"
          then show ?thesis using raw(1,2) Some tv \<open>strip_prefix ''Sig:'' line = Some v0\<close>
            by (intro exI [of _ name] exI [of _ b64] exI [of _ key] exI [of _ raw]) (simp del: strip_prefix_Some_iff)
        next
          assume "sig_loop B E trusted fp proven True last_name lines = Ok v"
          from Cons.IH [OF this] show ?thesis using \<open>strip_prefix ''Sig:'' line = Some v0\<close>
            by (auto simp del: strip_prefix_Some_iff)
        qed
      qed
    qed
  qed (simp split: if_splits)
  then show thesis using that by blast
qed

lemma prove_public_Ok:
  assumes "prove_public B E narinfo trusted = Ok v"
  obtains store_path url nar_size_str references where "utf8 (map of_char narinfo)"
    "field_values ''StorePath:'' (str_lines narinfo) = [store_path]" "field_values ''URL:'' (str_lines narinfo) = [url]"
    "field_values ''NarHash:'' (str_lines narinfo) = [display_nar_hash (vp_nar_hash v)]" "wf_nar_hash (vp_nar_hash v)"
    "field_values ''NarSize:'' (str_lines narinfo) = [nar_size_str]" "parse_u64 nar_size_str = Some (vp_nar_size v)"
    "vp_nar_size v \<noteq> 0" "field_values ''References:'' (str_lines narinfo) = [references]"
    "vp_store_hash v = store_hash_of store_path"
    "sig_loop B E trusted (fingerprint store_path (display_nar_hash (vp_nar_hash v)) (vp_nar_size v) references) v False []
       (str_lines narinfo) = Ok v"
proof -
  from assms obtain store_path url nar_hash_str nar_size_str references nar_hash nar_size w where
    u: "utf8 (map of_char narinfo)" and
    f: "required_field narinfo ''StorePath'' = Ok store_path" "required_field narinfo ''URL'' = Ok url"
      "required_field narinfo ''NarHash'' = Ok nar_hash_str" "required_field narinfo ''NarSize'' = Ok nar_size_str"
      "required_field narinfo ''References'' = Ok references" and
    p: "nar_hash_from_str nar_hash_str = Ok nar_hash" "parse_u64 nar_size_str = Some nar_size" "nar_size \<noteq> 0" and
    w: "w = \<lparr> vp_nar_hash = nar_hash, vp_nar_size = nar_size, vp_store_hash = store_hash_of store_path \<rparr>" and
    s: "sig_loop B E trusted (fingerprint store_path (display_nar_hash nar_hash) nar_size references) w False [] (str_lines narinfo) = Ok v"
    by (auto simp: prove_public_def from_utf8_def split: if_splits)
  from s have v: "v = w" by (rule sig_loop_Ok)
  show thesis
    using that [of store_path url nar_size_str references] u f p s
    by (simp add: v w required_field_Ok nar_hash_text.dec_iff)
qed


section \<open>The file\<close>

subsection \<open>Characters of a record\<close>

lemma byte_of_eq_iff [simp]: "byte_of a = byte_of b \<longleftrightarrow> a = b"
  by (metis of_char_eq_iff unat_byte_of)

lemma str_bytes_eq_iff [simp]: "str_bytes a = str_bytes b \<longleftrightarrow> a = b"
  by (simp add: str_bytes_def inj_def inj_map_eq_map)

lemma constant_time_eq_iff [simp]: "constant_time_eq a b \<longleftrightarrow> a = b"
proof -
  have xor: "x XOR y = 0 \<longleftrightarrow> x = y" for x y :: u8
    by (metis xor.assoc xor.left_neutral xor.right_neutral xor_self_eq)
  have fold: "foldl (\<lambda>diff (x, y). diff OR (x XOR y)) d ps = 0 \<longleftrightarrow> d = 0 \<and> (\<forall>(x, y) \<in> set ps. x = y)"
    for d :: u8 and ps
    by (induction ps arbitrary: d) (auto simp: or_eq_0_iff xor)
  have "(\<forall>(x, y) \<in> set (zip a b). x = y) \<longleftrightarrow> a = b" if "length a = length b"
    using that by (induction a b rule: list_induct2) auto
  then show ?thesis by (auto simp: constant_time_eq_def fold)
qed

lemma alphabet_chars: "list_all graphic B32_ALPHABET"
  by (simp add: B32_ALPHABET_def graphic_def)

lemma b32_encode_chars: "list_all graphic (b32_encode bs)"
  using alphabet_chars digit_lt by (auto simp: b32_encode_def list_all_iff)

lemma display_nar_hash_chars: "list_all graphic (display_nar_hash h)"
  by (simp add: display_nar_hash_def NAR_HASH_PREFIX_def to_nix_base32_def b32_encode_chars) (simp add: graphic_def)

lemma encode_chars: "list_all graphic (encode bs)"
proof -
  have "graphic (from_digit16 d)" if "d < 16" for d
    using that by (simp add: from_digit16_def graphic_def word_less_nat_alt)
  then show ?thesis by (induction bs) auto
qed

definition record_body :: "keyed_hash \<Rightarrow> bytes \<Rightarrow> nar_hash_key \<Rightarrow> u64 \<Rightarrow> string" where
  "record_body K mac_key h n = display_nar_hash h @ CHR '' '' # decimal (unat n) @ CHR '' '' # record_mac K mac_key h n"

lemma record_line_body: "record_line K mac_key h n = record_body K mac_key h n @ [NEWLINE]"
  by (simp add: record_line_def record_body_def record_canonical_def)

lemma record_mac_chars: "list_all graphic (record_mac K mac_key h n)"
  by (simp add: record_mac_def encode_chars)

lemma record_body_free: "NEWLINE \<notin> set (record_body K mac_key h n)" "CARRIAGE_RETURN \<notin> set (record_body K mac_key h n)"
  using graphic_free [OF display_nar_hash_chars] graphic_free [OF decimal_graphic] graphic_free [OF record_mac_chars]
  by (auto simp: record_body_def NEWLINE_def CARRIAGE_RETURN_def)

lemma parse_record_body: "wf_nar_hash h \<Longrightarrow> parse_record K mac_key (record_body K mac_key h n) = Ok (h, n)"
proof -
  assume h: "wf_nar_hash h"
  have "splitn3 CHR '' '' (record_body K mac_key h n) = (display_nar_hash h, Some (decimal (unat n), Some (record_mac K mac_key h n)))"
    using graphic_free [OF display_nar_hash_chars] graphic_free [OF decimal_graphic]
    by (simp add: splitn3_def record_body_def split_once_append)
  then show ?thesis using h by (simp add: parse_record_def nar_hash_text.dec_enc)
qed


subsection \<open>Files of records\<close>

definition record_lines :: "keyed_hash \<Rightarrow> bytes \<Rightarrow> (nar_hash_key \<times> u64) list \<Rightarrow> string" where
  "record_lines K mac_key rs = concat (map (\<lambda>(h, n). record_line K mac_key h n) rs)"

lemma record_lines_simps [simp]:
  "record_lines K mac_key [] = []"
  "record_lines K mac_key ((h, n) # rs) = record_body K mac_key h n @ NEWLINE # record_lines K mac_key rs"
  "record_lines K mac_key (rs @ rs') = record_lines K mac_key rs @ record_lines K mac_key rs'"
  by (simp_all add: record_lines_def record_line_body)

text \<open>A file of complete records, and at its end perhaps a part of one more.\<close>

definition holds_records :: "keyed_hash \<Rightarrow> bytes \<Rightarrow> (nar_hash_key \<times> u64) list \<Rightarrow> string \<Rightarrow> bool" where
  "holds_records K mac_key rs content \<longleftrightarrow>
     (\<exists>tail. content = record_lines K mac_key rs @ tail \<and> NEWLINE \<notin> set tail \<and> (\<forall>c \<in> set tail. of_char c < (0x80 :: nat)))"

lemma split_records:
  "NEWLINE \<notin> set tail \<Longrightarrow> split_inclusive NEWLINE (record_lines K mac_key rs @ tail) =
    map (\<lambda>(h, n). record_body K mac_key h n @ [NEWLINE]) rs @ (if tail = [] then [] else [tail])"
proof (induction rs)
  case (Cons r rs)
  then show ?case by (cases r) (simp add: split_inclusive_append record_body_free)
qed (simp add: split_inclusive_free)

lemma trim_end_free: "c \<notin> set s \<Longrightarrow> trim_end_matches c s = s"
  by (cases s rule: rev_cases) (auto simp: trim_end_matches_def)

lemma record_body_not_Nil [simp]: "record_body K mac_key h n \<noteq> []"
  by (simp add: record_body_def)

lemma committed_loop_records:
  assumes "NEWLINE \<notin> set tail" "length out + length rs \<le> MAX_ALLOWLIST_RECORDS" "\<forall>(h, n) \<in> set rs. wf_nar_hash h"
  shows "committed_loop K mac_key out (map (\<lambda>(h, n). record_body K mac_key h n @ [NEWLINE]) rs @ (if tail = [] then [] else [tail])) =
    Ok (out @ rs)"
  using assms(2,3)
proof (induction rs arbitrary: out)
  case Nil
  have "strip_suffix [NEWLINE] tail = None" using assms(1) by (auto simp: strip_suffix_None_iff)
  then show ?case by simp
next
  case (Cons r rs)
  then show ?case
    by (cases r) (simp add: trim_end_free record_body_free parse_record_body Let_def)
qed

lemma record_lines_ascii: "c \<in> set (record_lines K mac_key rs) \<Longrightarrow> of_char c < (0x80 :: nat)"
proof (induction rs)
  case (Cons r rs)
  obtain h n where r: "r = (h, n)" by (cases r)
  have "of_char c < (0x80 :: nat)" if "c \<in> set (record_body K mac_key h n)"
    using that display_nar_hash_chars [of h] decimal_graphic [of "unat n"] record_mac_chars [of K mac_key h n]
    by (auto simp: record_body_def list_all_iff graphic_def)
  then show ?case using Cons r by (auto simp: NEWLINE_def)
qed simp

lemma parse_committed_records:
  assumes "holds_records K mac_key rs content" "length rs \<le> MAX_ALLOWLIST_RECORDS" "\<forall>(h, n) \<in> set rs. wf_nar_hash h"
  shows "parse_committed K mac_key content = Ok rs"
proof -
  obtain tail where tail: "content = record_lines K mac_key rs @ tail" "NEWLINE \<notin> set tail" "\<forall>c \<in> set tail. of_char c < (0x80 :: nat)"
    using assms(1) by (auto simp: holds_records_def)
  have "utf8 (map of_char content)" by (rule utf8_ascii) (use tail record_lines_ascii in auto)
  then show ?thesis
    using committed_loop_records [OF tail(2), of "[]" rs K mac_key] assms(2,3)
    by (simp add: parse_committed_def from_utf8_def split_records [OF tail(2)] tail(1))
qed

subsection \<open>Appending\<close>

lemma position_None_iff: "position p xs = None \<longleftrightarrow> (\<forall>x \<in> set xs. \<not> p x)"
  by (induction xs) auto

lemma position_append: "p c \<Longrightarrow> \<forall>x \<in> set xs. \<not> p x \<Longrightarrow> position p (xs @ c # ys) = Some (length xs)"
  by (induction xs) auto

lemma committed_len_free: "NEWLINE \<notin> set tail \<Longrightarrow> committed_len tail = 0"
  using position_None_iff [of "\<lambda>x. x = NEWLINE" "rev tail"] by (auto simp: committed_len_def rposition_def)

lemma committed_len_append: "NEWLINE \<notin> set tail \<Longrightarrow> committed_len (xs @ NEWLINE # tail) = Suc (length xs)"
proof -
  assume "NEWLINE \<notin> set tail"
  then have "position (\<lambda>x. x = NEWLINE) (rev tail @ NEWLINE # rev xs) = Some (length (rev tail))"
    by (intro position_append) auto
  then show ?thesis by (simp add: committed_len_def rposition_def)
qed

lemma committed_len_records: "NEWLINE \<notin> set tail \<Longrightarrow> committed_len (record_lines K mac_key rs @ tail) = length (record_lines K mac_key rs)"
proof (cases rs rule: rev_cases)
  case (snoc rs' r)
  assume "NEWLINE \<notin> set tail"
  moreover obtain h n where "r = (h, n)" by (cases r)
  ultimately show ?thesis
    using snoc committed_len_append [of tail "record_lines K mac_key rs' @ record_body K mac_key h n"] by simp
qed (simp add: committed_len_free)

lemma holds_records_lines: "holds_records K mac_key rs (record_lines K mac_key rs)"
  by (auto simp: holds_records_def)

lemma holds_records_torn:
  assumes "length xs < length (record_line K mac_key h n)" "prefix xs (record_line K mac_key h n)"
  shows "holds_records K mac_key rs (record_lines K mac_key rs @ xs)"
proof -
  have "prefix xs (record_body K mac_key h n)"
    using assms by (auto simp: record_line_body prefix_snoc)
  then have "set xs \<subseteq> set (record_body K mac_key h n)" by (rule set_mono_prefix)
  then have "NEWLINE \<notin> set xs" "\<forall>c \<in> set xs. of_char c < (0x80 :: nat)"
    using record_body_free record_lines_ascii [of _ K mac_key "[(h, n)]"] by auto
  then show ?thesis unfolding holds_records_def by (intro exI [of _ xs]) simp
qed

lemma write_at_end: "write_at (length xs) ys xs = xs @ ys"
  by (simp add: write_at_def)

lemma append_locked_cases:
  fixes content K mac_key h n
  defines "at \<equiv> committed_len content" and "line \<equiv> record_line K mac_key h n"
  defines "base \<equiv> (if at \<noteq> length content then take at content else content)"
  assumes "append_locked K mac_key os existed content h n = (content', r)" "length content \<le> MAX_ALLOWLIST_FILE_BYTES"
  obtains "content' = content" "r \<noteq> Ok ()" | "content' = base" "r \<noteq> Ok ()"
    | k where "content' = write_at at (take k line) base" "r \<noteq> Ok ()" | "content' = write_at at line base"
proof (cases "os_read os")
  case (Inl e)
  then show thesis using assms(4) by (intro that(1)) (auto simp: append_locked_def)
next
  case read: (Inr u)
  have whole: "take MAX_ALLOWLIST_FILE_BYTES content = content" using assms(5) by simp
  have res: "(case (if at \<noteq> length content then map_err Truncating (os_truncate os) else Ok ()) of
        Err e \<Rightarrow> (content, Err e)
      | Ok _ \<Rightarrow>
          case os_seek os of Err e \<Rightarrow> (base, Err (Seeking e)) | Ok _ \<Rightarrow>
          case os_write os of Err (k, e) \<Rightarrow> (write_at at (take k line) base, Err (Appending e)) | Ok _ \<Rightarrow>
          let content = write_at at line base in
          case os_sync os of Err e \<Rightarrow> (content, Err (Fsyncing e)) | Ok _ \<Rightarrow>
          if existed then (content, Ok ())
          else case os_open_dir os of Err e \<Rightarrow> (content, Err (OpeningDir e)) | Ok _ \<Rightarrow>
            (case os_sync_dir os of Err e \<Rightarrow> (content, Err (FsyncingDir e)) | Ok _ \<Rightarrow> (content, Ok ()))) = (content', r)"
    using assms(4) unfolding append_locked_def read whole sum.case Let_def at_def line_def base_def .
  show thesis
  proof (cases "if at \<noteq> length content then map_err Truncating (os_truncate os) else Ok ()")
    case (Inl e)
    then show thesis using res by (intro that(1)) auto
  next
    case trunc: (Inr u)
    show thesis
    proof (cases "os_seek os")
      case (Inl e)
      then show thesis using res trunc by (intro that(2)) auto
    next
      case seek: (Inr u)
      show thesis
      proof (cases "os_write os")
        case (Inl ke)
        then show thesis using res trunc seek by (intro that(3) [of "fst ke"]) (auto simp: case_prod_unfold)
      next
        case (Inr u)
        then have "content' = write_at at line base"
          using res trunc seek by (auto simp: Let_def split: sum.splits if_splits)
        then show thesis by (rule that(4))
      qed
    qed
  qed
qed

text \<open>Whatever fails, an append leaves the file with the records it had, or with these and the new one.\<close>

lemma append_locked_records:
  assumes "holds_records K mac_key rs content" "length content \<le> MAX_ALLOWLIST_FILE_BYTES"
    and result: "append_locked K mac_key os existed content h n = (content', r)"
  shows "(holds_records K mac_key rs content' \<and> r \<noteq> Ok () \<or> holds_records K mac_key (rs @ [(h, n)]) content') \<and>
    length content' \<le> length content + length (record_line K mac_key h n)"
proof -
  obtain tail where tail: "content = record_lines K mac_key rs @ tail" "NEWLINE \<notin> set tail"
    using assms(1) by (auto simp: holds_records_def)
  let ?L = "record_lines K mac_key rs" and ?line = "record_line K mac_key h n"
  have at: "committed_len content = length ?L"
    using committed_len_records [OF tail(2)] by (simp add: tail(1))
  have base: "(if length ?L \<noteq> length content then take (length ?L) content else content) = ?L" by (simp add: tail(1))
  have full: "holds_records K mac_key (rs @ [(h, n)]) (?L @ ?line)"
    using holds_records_lines [of K mac_key "rs @ [(h, n)]"] by (simp add: record_line_body)
  have part: "holds_records K mac_key rs (?L @ take k ?line) \<or> holds_records K mac_key (rs @ [(h, n)]) (?L @ take k ?line)" for k
  proof (cases "k < length ?line")
    case True
    then show ?thesis by (intro disjI1 holds_records_torn [of _ K mac_key h n]) (auto simp: take_is_prefix)
  next
    case False
    then show ?thesis using full by simp
  qed
  show ?thesis
    by (rule append_locked_cases [OF result assms(2), unfolded at base write_at_end])
      (use assms(1) part full holds_records_lines [of K mac_key rs] tail(1) in auto)
qed

lemma append_file_records:
  assumes "holds_records K mac_key rs (case file of Some c \<Rightarrow> c | None \<Rightarrow> [])"
    "length (case file of Some c \<Rightarrow> c | None \<Rightarrow> []) \<le> MAX_ALLOWLIST_FILE_BYTES"
    and result: "append_file K mac_key os file h n = (file', r)"
  defines "content' \<equiv> (case file' of Some c \<Rightarrow> c | None \<Rightarrow> [])"
  shows "(holds_records K mac_key rs content' \<and> r \<noteq> Ok () \<or> holds_records K mac_key (rs @ [(h, n)]) content') \<and>
    length content' \<le> length (case file of Some c \<Rightarrow> c | None \<Rightarrow> []) + length (record_line K mac_key h n)"
proof (cases "(file' = file \<or> content' = (case file of Some c \<Rightarrow> c | None \<Rightarrow> [])) \<and> r \<noteq> Ok ()")
  case True
  then show ?thesis using assms(1) by (auto simp: content'_def)
next
  case False
  define content where "content = (case file of Some c \<Rightarrow> c | None \<Rightarrow> [])"
  obtain outcome where locked: "append_locked K mac_key os (file \<noteq> None) content h n = (content', outcome)"
    "r = lock_finish os outcome"
    using False result unfolding append_file_def content'_def content_def Let_def case_prod_unfold
    by (simp split: sum.splits if_splits option.splits) (metis prod.collapse)+
  from append_locked_records [OF _ _ locked(1)] assms(1,2) have
    "(holds_records K mac_key rs content' \<and> outcome \<noteq> Ok () \<or> holds_records K mac_key (rs @ [(h, n)]) content') \<and>
      length content' \<le> length content + length (record_line K mac_key h n)"
    by (simp add: content_def)
  moreover have "outcome \<noteq> Ok () \<Longrightarrow> r \<noteq> Ok ()" using locked(2) by (auto simp: lock_finish_def split: sum.splits)
  ultimately show ?thesis by (auto simp: content_def)
qed



subsection \<open>Sequences of appends\<close>

lemma length_decimal: "n < 10 ^ Suc k \<Longrightarrow> length (decimal n) \<le> Suc k"
proof (induction k arbitrary: n)
  case 0
  then show ?case by (subst decimal.simps) simp
next
  case (Suc k)
  show ?case
  proof (cases "n < 10")
    case False
    have "n div 10 < 10 ^ Suc k" using Suc.prems by (simp add: div_less_iff_less_mult)
    then show ?thesis using Suc.IH [of "n div 10"] False by (subst decimal.simps) simp
  qed (subst decimal.simps, simp)
qed

lemma length_decimal_u64: "length (decimal (unat (n :: u64))) \<le> 20"
  using length_decimal [of "unat n" 19] unat_bound [of n] by simp

lemma length_record_line:
  assumes "wf_nar_hash h" "length (K mac_key (str_bytes (record_canonical h n))) = 32"
  shows "length (record_line K mac_key h n) \<le> 146"
  using assms length_decimal_u64 [of n]
  by (simp add: record_line_def record_canonical_def record_mac_def display_nar_hash_def to_nix_base32_def wf_nar_hash_def
    NAR_HASH_PREFIX_def NAR_HASH_LEN_def encoded_len_def)

type_synonym append_op = "os_answers \<times> nar_hash_key \<times> u64"

fun run_appends :: "keyed_hash \<Rightarrow> bytes \<Rightarrow> string option \<Rightarrow> append_op list \<Rightarrow> string option \<times> (nar_hash_key \<times> u64) list" where
  "run_appends K mac_key file [] = (file, [])"
| "run_appends K mac_key file ((os, h, n) # ops) =
     (let (file, r) = append_file K mac_key os file h n;
          (file, acknowledged) = run_appends K mac_key file ops
      in (file, (if r = Ok () then [(h, n)] else []) @ acknowledged))"

lemma run_appends_records:
  assumes "holds_records K mac_key rs (case f of Some c \<Rightarrow> c | None \<Rightarrow> [])"
    "length (case f of Some c \<Rightarrow> c | None \<Rightarrow> []) + 146 * length ops \<le> MAX_ALLOWLIST_FILE_BYTES"
    "\<forall>(os, h, n) \<in> set ops. wf_nar_hash h" "\<forall>k m. length (K k m) = 32"
  shows "\<exists>new. holds_records K mac_key (rs @ new) (case fst (run_appends K mac_key f ops) of Some c \<Rightarrow> c | None \<Rightarrow> []) \<and>
    subseq (snd (run_appends K mac_key f ops)) new \<and> subseq new (map snd ops) \<and>
    length (case fst (run_appends K mac_key f ops) of Some c \<Rightarrow> c | None \<Rightarrow> []) \<le> MAX_ALLOWLIST_FILE_BYTES"
  using assms(1-3)
proof (induction ops arbitrary: f rs)
  case Nil
  then show ?case by (intro exI [of _ "[]"]) simp
next
  case (Cons op ops)
  obtain os h n where op: "op = (os, h, n)" by (cases op)
  obtain f' r where ap: "append_file K mac_key os f h n = (f', r)" by force
  let ?c = "\<lambda>x. case x of Some c \<Rightarrow> c | None \<Rightarrow> []"
  have line: "length (record_line K mac_key h n) \<le> 146" using Cons.prems(3) op assms(4) by (intro length_record_line) auto
  have small: "length (?c f) \<le> MAX_ALLOWLIST_FILE_BYTES" using Cons.prems(2) by simp
  note step = append_file_records [OF Cons.prems(1) small ap]
  have room: "length (?c f') + 146 * length ops \<le> MAX_ALLOWLIST_FILE_BYTES"
    using step line Cons.prems(2) by simp
  from step consider (old) "holds_records K mac_key rs (?c f')" "r \<noteq> Ok ()" | (new) "holds_records K mac_key (rs @ [(h, n)]) (?c f')"
    by blast
  then show ?case
  proof cases
    case old
    from Cons.IH [OF old(1) room] Cons.prems(3) obtain new where
      "holds_records K mac_key (rs @ new) (?c (fst (run_appends K mac_key f' ops)))"
      "subseq (snd (run_appends K mac_key f' ops)) new" "subseq new (map snd ops)"
      "length (?c (fst (run_appends K mac_key f' ops))) \<le> MAX_ALLOWLIST_FILE_BYTES" by auto
    then show ?thesis using old(2) by (intro exI [of _ new]) (simp add: op ap case_prod_unfold list_emb_Cons)
  next
    case new
    from Cons.IH [OF new room] Cons.prems(3) obtain new where
      "holds_records K mac_key (rs @ (h, n) # new) (?c (fst (run_appends K mac_key f' ops)))"
      "subseq (snd (run_appends K mac_key f' ops)) new" "subseq new (map snd ops)"
      "length (?c (fst (run_appends K mac_key f' ops))) \<le> MAX_ALLOWLIST_FILE_BYTES" by auto
    then show ?thesis by (intro exI [of _ "(h, n) # new"]) (simp add: op ap case_prod_unfold Let_def list_emb_Cons)
  qed
qed

text \<open>An operating system that grants everything.\<close>

definition healthy_os :: os_answers where
  "healthy_os = \<lparr> os_euid = 1000, os_create_dir = Ok (), os_open_parent = Ok (),
     os_parent_stat = Ok \<lparr> st_kind = DirectoryFile, st_nlink = 2, st_uid = 1000, st_mode = 0x1C0 \<rparr>,
     os_open = Opened, os_stat = Ok \<lparr> st_kind = RegularFile, st_nlink = 1, st_uid = 1000, st_mode = 0x180 \<rparr>,
     os_lock = Ok (), os_unlock = Ok (), os_sizing = Ok (), os_read = Ok (), os_truncate = Ok (), os_seek = Ok (),
     os_write = Ok (), os_sync = Ok (), os_open_dir = Ok (), os_sync_dir = Ok () \<rparr>"

lemma load_healthy:
  "load_file K mac_key healthy_os content =
    (if MAX_ALLOWLIST_FILE_BYTES < length content then Err (OverBound (length content))
     else parse_committed K mac_key content)"
  by (simp add: load_file_def open_strict_def healthy_os_def lock_finish_def split: sum.split)

lemma append_healthy:
  "append_file K mac_key healthy_os (Some content) h n =
    (let at = committed_len (take MAX_ALLOWLIST_FILE_BYTES content) in
     (Some (write_at at (record_line K mac_key h n)
       (if at \<noteq> length (take MAX_ALLOWLIST_FILE_BYTES content) then take at content else content)), Ok ()))"
  by (simp add: append_file_def append_locked_def open_strict_def check_parent_def healthy_os_def lock_finish_def Let_def del: length_take)


section \<open>Properties\<close>

text \<open>
  C36: Acknowledged records of the public allowlist survive failures. Start without a file and append any records, while
  each call of the operating system may fail and each write may stop after any number of bytes. The file then loads,
  and the loaded records contain every acknowledged one, in order, and only records that were appended. The bound on the
  number of appends keeps the file below its size limit; a keyed hash has 32 bytes.
\<close>
theorem allowlist_survives_failures:
  assumes "\<forall>k m. length (K k m) = 32" "\<forall>(os, h, n) \<in> set ops. wf_nar_hash h" "length ops \<le> 450000"
    "run_appends K mac_key None ops = (Some content, acknowledged)"
  shows "\<exists>rs. load_file K mac_key healthy_os content = Ok rs \<and> subseq acknowledged rs \<and> subseq rs (map snd ops)"
proof -
  have "holds_records K mac_key [] (case None of Some c \<Rightarrow> c | None \<Rightarrow> [])" by (simp add: holds_records_def)
  from run_appends_records [OF this _ assms(2,1)] assms(3,4) obtain rs where
    rs: "holds_records K mac_key rs content" "subseq acknowledged rs" "subseq rs (map snd ops)"
      "length content \<le> MAX_ALLOWLIST_FILE_BYTES"
    by (auto simp: MAX_ALLOWLIST_FILE_BYTES_def)
  have "set rs \<subseteq> snd ` set ops" using list_emb_set [OF rs(3)] by auto
  then have "\<forall>(h, n) \<in> set rs. wf_nar_hash h" using assms(2) by fastforce
  moreover have "length rs \<le> MAX_ALLOWLIST_RECORDS"
    using list_emb_length [OF rs(3)] assms(3) by (simp add: MAX_ALLOWLIST_RECORDS_def)
  ultimately have "parse_committed K mac_key content = Ok rs" by (intro parse_committed_records rs(1))
  then show ?thesis using rs by (auto simp: load_healthy)
qed


definition zero_hash :: nar_hash_key where "zero_hash = NarHashKey (replicate 32 0)"
definition zero_mac :: keyed_hash where "zero_mac k m = replicate 32 0"

lemma first_append:
  "run_appends K mac_key None [(healthy_os, h, n)] = (Some (record_line K mac_key h n), [(h, n)])"
  by (simp add: append_file_def append_locked_def open_strict_def check_parent_def healthy_os_def lock_finish_def Let_def
    committed_len_free write_at_def)

lemma allowlist_survives_failures_witness:
  "\<exists>rs. load_file zero_mac [] healthy_os (record_line zero_mac [] zero_hash 7) = Ok rs \<and> subseq [(zero_hash, 7)] rs \<and>
    subseq rs [(zero_hash, 7)]"
  using allowlist_survives_failures [OF _ _ _ first_append, of zero_mac zero_hash 7 "[]"]
  by (simp add: zero_mac_def zero_hash_def wf_nar_hash_def NAR_HASH_LEN_def)

fun run_learns ::
  "codec64 \<Rightarrow> ed25519 \<Rightarrow> keyed_hash \<Rightarrow> public_nar_allowlist \<Rightarrow> (os_answers \<times> store_hash \<times> string) list \<Rightarrow> public_nar_allowlist" where
  "run_learns B E K self [] = self"
| "run_learns B E K self ((os, requested, narinfo) # events) =
     run_learns B E K (fst (learn B E K os self requested narinfo)) events"

lemma learn_trusted [simp]: "pa_trusted (fst (learn B E K os self requested narinfo)) = pa_trusted self"
  by (auto simp: learn_def split: sum.split prod.split)

lemma learn_entries:
  assumes "hm_get (pa_entries (fst (learn B E K os self requested narinfo))) h = Some n"
  shows "hm_get (pa_entries self) h = Some n \<or>
    (\<exists>v. prove_public B E narinfo (pa_trusted self) = Ok v \<and> vp_store_hash v = requested \<and> vp_nar_hash v = h \<and> vp_nar_size v = n)"
  using assms by (auto simp: learn_def split: sum.splits prod.splits if_splits)

lemma run_learns_entries:
  assumes "hm_get (pa_entries (run_learns B E K self events)) h = Some n"
  shows "hm_get (pa_entries self) h = Some n \<or>
    (\<exists>(os, requested, narinfo) \<in> set events. \<exists>v. prove_public B E narinfo (pa_trusted self) = Ok v \<and>
      vp_store_hash v = requested \<and> vp_nar_hash v = h \<and> vp_nar_size v = n)"
  using assms
proof (induction events arbitrary: self)
  case (Cons event events)
  obtain os requested narinfo where e: "event = (os, requested, narinfo)" by (cases event)
  show ?case
    using Cons.IH [of "fst (learn B E K os self requested narinfo)"] Cons.prems learn_entries [of B E K os self requested narinfo h n]
    by (auto simp: e)
qed simp

text \<open>A narinfo that proves a NAR public, for some cryptography.\<close>

definition sample_lines :: "string list" where
  "sample_lines = [''StorePath:/nix/store/abc-x'', ''URL:nar/x'', ''NarHash:'' @ display_nar_hash zero_hash,
     ''NarSize:'' @ decimal (unat (7 :: u64)), ''References:'', ''Sig:k:s'']"

definition sample_narinfo :: string where "sample_narinfo = unlines sample_lines"

definition sample_b64 :: codec64 where "sample_b64 = \<lparr> b64_decode = (\<lambda>s. Ok (replicate 64 0)), vk_error = (\<lambda>k. []) \<rparr>"

definition sample_ed25519 :: ed25519 where
  "sample_ed25519 = \<lparr> vk_from_bytes = (\<lambda>k. True), vk_is_weak = (\<lambda>k. False), vk_verify_strict = (\<lambda>k m s. True),
     sk_verifying_key = id, sk_sign = (\<lambda>k m. m) \<rparr>"

definition sample_proof :: verified_public_nar where
  "sample_proof = \<lparr> vp_nar_hash = zero_hash, vp_nar_size = 7, vp_store_hash = ''abc'' \<rparr>"

lemma graphic_trim: "list_all graphic s \<Longrightarrow> str_trim s = s"
  by (rule str_trim_graphic) (metis hd_in_set last_in_set list_all_iff)

lemma sample_str_lines: "str_lines sample_narinfo = sample_lines"
  unfolding sample_narinfo_def
proof (rule str_lines_unlines)
  show "list_all plain_line sample_lines"
    using graphic_free [OF display_nar_hash_chars [of zero_hash]] graphic_free [OF decimal_graphic [of "unat (7 :: u64)"]]
    by (simp add: sample_lines_def plain_line_def NEWLINE_def CARRIAGE_RETURN_def)
qed

lemma sample_fields:
  "field_values ''StorePath:'' sample_lines = [''/nix/store/abc-x'']" "field_values ''URL:'' sample_lines = [''nar/x'']"
  "field_values ''NarHash:'' sample_lines = [display_nar_hash zero_hash]"
  "field_values ''NarSize:'' sample_lines = [decimal (unat (7 :: u64))]"
  "field_values ''References:'' sample_lines = [[]]" "field_values ''Sig:'' sample_lines = [''k:s'']"
  by (simp_all add: sample_lines_def strip_prefix_def graphic_trim display_nar_hash_chars decimal_graphic graphic_def)

lemma sample_utf8: "utf8 (map of_char sample_narinfo)"
proof (rule utf8_ascii)
  have "of_char c < (0x80 :: nat)" if "c \<in> set sample_narinfo" for c
    using that display_nar_hash_chars [of zero_hash] decimal_graphic [of "unat (7 :: u64)"]
    by (auto simp: sample_narinfo_def sample_lines_def NEWLINE_def list_all_iff graphic_def)
  then show "\<forall>x \<in> set (map of_char sample_narinfo). x < (0x80 :: nat)" by simp
qed

lemma sample_sig:
  "sig_loop sample_b64 sample_ed25519 [(''k'', [])] fp proven False [] sample_lines = Ok proven"
  by (simp add: sample_lines_def strip_prefix_def graphic_trim graphic_def split_once_def sample_b64_def sample_ed25519_def
    hm_get_def)

lemma sample_proves: "prove_public sample_b64 sample_ed25519 sample_narinfo [(''k'', [])] = Ok sample_proof"
proof -
  have nl: "strip_suffix [NEWLINE] sample_narinfo \<noteq> None"
    by (auto simp: sample_narinfo_def sample_lines_def strip_suffix_None_iff intro: exI [of _ "concat _"])
  have req: "required_field sample_narinfo ''StorePath'' = Ok ''/nix/store/abc-x''" "required_field sample_narinfo ''URL'' = Ok ''nar/x''"
    "required_field sample_narinfo ''NarHash'' = Ok (display_nar_hash zero_hash)"
    "required_field sample_narinfo ''NarSize'' = Ok (decimal (unat (7 :: u64)))" "required_field sample_narinfo ''References'' = Ok []"
    unfolding required_field_Ok sample_str_lines using sample_fields by simp_all
  have "nar_hash_from_str (display_nar_hash zero_hash) = Ok zero_hash"
    by (rule nar_hash_text.dec_enc) (simp add: zero_hash_def wf_nar_hash_def NAR_HASH_LEN_def)
  moreover have "parse_u64 (decimal 7) = Some 7" using parse_u64_decimal [of 7] by simp
  moreover have "store_hash_of ''/nix/store/abc-x'' = ''abc''" by (simp add: store_hash_of_def split_once_def)
  ultimately show ?thesis
    using nl by (simp add: prove_public_def from_utf8_def sample_utf8 req sample_str_lines sample_sig sample_proof_def)
qed

definition sample_allowlist :: public_nar_allowlist where
  "sample_allowlist = \<lparr> pa_trusted = [(''k'', [])], pa_entries = [], pa_store = NullAllowlistStore \<rparr>"

lemma sample_approval:
  "approve (run_learns sample_b64 sample_ed25519 zero_mac sample_allowlist [(healthy_os, ''abc'', sample_narinfo)]) zero_hash (Some 7) =
    Ok \<lparr> pc_nar_hash = zero_hash, pc_nar_size = 7 \<rparr>"
  by (simp add: learn_def sample_allowlist_def sample_proves sample_proof_def approve_def approved_size_def)

lemma approve_Ok:
  "approve self h expected = Ok c \<Longrightarrow>
    pc_nar_hash c = h \<and> (expected = None \<or> expected = Some (pc_nar_size c)) \<and> hm_get (pa_entries self) h = Some (pc_nar_size c)"
  by (cases "approved_size self h"; cases expected) (auto simp: approve_def approved_size_def split: if_splits)

text \<open>
  A narinfo vouches for a hash and a size under a requested store hash: it has exactly one store path, NAR hash, NAR size
  and references line, with these values, and one of its signature lines names a trusted key whose signature over the
  fingerprint of the values verifies.
\<close>

definition vouches :: "codec64 \<Rightarrow> ed25519 \<Rightarrow> trusted_nar_keys \<Rightarrow> store_hash \<Rightarrow> string \<Rightarrow> nar_hash_key \<Rightarrow> u64 \<Rightarrow> bool" where
  "vouches B E trusted requested narinfo h n \<longleftrightarrow>
     (\<exists>store_path references name b64 key signature.
        field_values ''StorePath:'' (str_lines narinfo) = [store_path] \<and> store_hash_of store_path = requested \<and>
        field_values ''NarHash:'' (str_lines narinfo) = [display_nar_hash h] \<and>
        map parse_u64 (field_values ''NarSize:'' (str_lines narinfo)) = [Some n] \<and> n \<noteq> 0 \<and>
        field_values ''References:'' (str_lines narinfo) = [references] \<and>
        name @ '':'' @ b64 \<in> set (field_values ''Sig:'' (str_lines narinfo)) \<and>
        hm_get trusted name = Some key \<and> b64_decode B b64 = Ok signature \<and> length signature = 64 \<and>
        vk_verify_strict E key (str_bytes (fingerprint store_path (display_nar_hash h) n references)) signature)"

lemma prove_public_vouches:
  assumes "prove_public B E narinfo trusted = Ok v"
  shows "vouches B E trusted (vp_store_hash v) narinfo (vp_nar_hash v) (vp_nar_size v)"
proof -
  from assms obtain store_path url size_str references where f:
    "field_values ''StorePath:'' (str_lines narinfo) = [store_path]"
    "field_values ''NarHash:'' (str_lines narinfo) = [display_nar_hash (vp_nar_hash v)]"
    "field_values ''NarSize:'' (str_lines narinfo) = [size_str]" "parse_u64 size_str = Some (vp_nar_size v)"
    "vp_nar_size v \<noteq> 0" "field_values ''References:'' (str_lines narinfo) = [references]"
    "vp_store_hash v = store_hash_of store_path"
    and s: "sig_loop B E trusted (fingerprint store_path (display_nar_hash (vp_nar_hash v)) (vp_nar_size v) references) v False []
      (str_lines narinfo) = Ok v"
    by (rule prove_public_Ok)
  from s obtain name b64 key signature where
    "name @ '':'' @ b64 \<in> set (field_values ''Sig:'' (str_lines narinfo))" "hm_get trusted name = Some key"
    "b64_decode B b64 = Ok signature" "length signature = 64"
    "vk_verify_strict E key (str_bytes (fingerprint store_path (display_nar_hash (vp_nar_hash v)) (vp_nar_size v) references)) signature"
    by (rule sig_loop_Ok)
  with f show ?thesis
    unfolding vouches_def
    by (intro exI [of _ store_path] exI [of _ references] exI [of _ name] exI [of _ b64] exI [of _ key] exI [of _ signature]) simp
qed

text \<open>
  C9: A publication is approved only for a NAR that a trusted key vouched for. After any sequence of narinfo responses,
  an approved claim has the requested hash and size, and it was on the list at the start, or one of the responses, to
  the request for its own store hash, vouches for exactly this hash and size with a verifying signature of a trusted key.
\<close>
theorem approval_is_proven:
  assumes "approve (run_learns B E K self events) h expected = Ok c"
  shows "pc_nar_hash c = h \<and> (expected = None \<or> expected = Some (pc_nar_size c)) \<and>
    (hm_get (pa_entries self) h = Some (pc_nar_size c) \<or>
     (\<exists>(os, requested, narinfo) \<in> set events. vouches B E (pa_trusted self) requested narinfo h (pc_nar_size c)))"
  using approve_Ok [OF assms] run_learns_entries [of B E K self events h "pc_nar_size c"] prove_public_vouches by fastforce

lemma approval_is_proven_witness:
  "vouches sample_b64 sample_ed25519 [(''k'', [])] ''abc'' sample_narinfo zero_hash 7"
  using approval_is_proven [OF sample_approval] by (auto simp: sample_allowlist_def)

text \<open>
  The correlation of a narinfo never disagrees with the proof that it is public. A narinfo that proves a NAR public
  has a correlation, with the canonical text of the proven hash, the proven size, and a store path whose hash is the
  proven store hash.
\<close>
theorem correlation_agrees_with_proof:
  assumes "prove_public B E narinfo trusted = Ok v"
  shows "\<exists>c store_path. parse_correlation narinfo = Some c \<and> co_nar_hash c = display_nar_hash (vp_nar_hash v) \<and>
    co_nar_size c = vp_nar_size v \<and> co_store_path c = Some store_path \<and> store_hash_of store_path = vp_store_hash v"
proof -
  from assms obtain store_path url size_str where f: "utf8 (map of_char narinfo)"
    "field_values ''StorePath:'' (str_lines narinfo) = [store_path]" "field_values ''URL:'' (str_lines narinfo) = [url]"
    "field_values ''NarHash:'' (str_lines narinfo) = [display_nar_hash (vp_nar_hash v)]"
    "field_values ''NarSize:'' (str_lines narinfo) = [size_str]" "parse_u64 size_str = Some (vp_nar_size v)"
    "vp_store_hash v = store_hash_of store_path"
    by (rule prove_public_Ok)
  from parse_correlation_unique_fields [OF f(1,3,4,5,6,2)] f(7) show ?thesis by metis
qed

lemma correlation_agrees_with_proof_witness:
  "\<exists>c. parse_correlation sample_narinfo = Some c \<and> co_nar_hash c = display_nar_hash zero_hash \<and> co_nar_size c = 7"
  using correlation_agrees_with_proof [OF sample_proves] by (auto simp: sample_proof_def)

text \<open>
  Every loaded record is authenticated: the file has a line with its hash, its size and the keyed hash of both.
\<close>

lemma parse_record_Ok:
  assumes "parse_record K mac_key line = Ok (h, n)"
  shows "wf_nar_hash h \<and> (\<exists>size_str. line = display_nar_hash h @ '' '' @ size_str @ '' '' @ record_mac K mac_key h n \<and> parse_u64 size_str = Some n)"
proof -
  from assms obtain size_str mac_str where parts: "splitn3 CHR '' '' line = (display_nar_hash h, Some (size_str, Some mac_str))"
    and h: "wf_nar_hash h" and n: "parse_u64 size_str = Some n" "mac_str = record_mac K mac_key h n"
    by (auto simp: parse_record_def Let_def nar_hash_text.dec_iff split: if_splits) (metis prod.collapse)
  from parts have "line = display_nar_hash h @ '' '' @ size_str @ '' '' @ mac_str"
    by (auto simp: splitn3_def split_once_Some_iff split: option.splits prod.splits)
  then show ?thesis using h n by blast
qed

lemma committed_loop_authentic:
  assumes "committed_loop K mac_key out segments = Ok rs" "(h, n) \<in> set rs"
  shows "(h, n) \<in> set out \<or> (\<exists>segment \<in> set segments. \<exists>line. strip_suffix [NEWLINE] segment = Some line \<and>
    parse_record K mac_key (trim_end_matches CARRIAGE_RETURN line) = Ok (h, n))"
  using assms
proof (induction segments arbitrary: out)
  case (Cons segment segments)
  show ?case
  proof (cases "strip_suffix [NEWLINE] segment")
    case None
    then show ?thesis using Cons.prems by simp
  next
    case (Some line)
    let ?line = "trim_end_matches CARRIAGE_RETURN line"
    show ?thesis
    proof (cases "?line = []")
      case True
      then show ?thesis using Cons Some by (auto simp: Let_def simp del: strip_suffix_Some_iff)
    next
      case False
      then obtain entry where e: "parse_record K mac_key ?line = Ok entry" "committed_loop K mac_key (out @ [entry]) segments = Ok rs"
        using Cons.prems(1) Some by (auto simp: Let_def simp del: strip_suffix_Some_iff split: if_splits)
      from Cons.IH [OF e(2) Cons.prems(2)] show ?thesis using e(1) Some by (auto simp del: strip_suffix_Some_iff)
    qed
  qed
qed simp

text \<open>
  Every record the allowlist file yields is authenticated. If the file loads, each record in the result comes from a
  complete line of the file, which carries the canonical hash, a decimal size and the keyed hash of the canonical record
  under the node's key.
\<close>
theorem loaded_records_are_authentic:
  assumes "load_file K mac_key os content = Ok rs" "(h, n) \<in> set rs"
  shows "wf_nar_hash h \<and> (\<exists>segment \<in> set (split_inclusive NEWLINE content). \<exists>line size_str. segment = line @ [NEWLINE] \<and>
    trim_end_matches CARRIAGE_RETURN line = display_nar_hash h @ '' '' @ size_str @ '' '' @ record_mac K mac_key h n \<and>
    parse_u64 size_str = Some n)"
proof -
  have "rs \<noteq> []" using assms(2) by auto
  then have "parse_committed K mac_key content = Ok rs"
    using assms(1) by (auto simp: load_file_def lock_finish_def split: if_splits sum.splits)
  then have "committed_loop K mac_key [] (split_inclusive NEWLINE content) = Ok rs"
    by (auto simp: parse_committed_def from_utf8_def split: if_splits)
  from committed_loop_authentic [OF this assms(2)] obtain segment line where
    s: "segment \<in> set (split_inclusive NEWLINE content)" "segment = line @ [NEWLINE]"
      "parse_record K mac_key (trim_end_matches CARRIAGE_RETURN line) = Ok (h, n)" by auto
  then show ?thesis using parse_record_Ok [OF s(3)] by blast
qed

lemma loaded_records_are_authentic_witness:
  "wf_nar_hash zero_hash \<and> (\<exists>segment \<in> set (split_inclusive NEWLINE (record_line zero_mac [] zero_hash 7)). \<exists>line size_str.
    segment = line @ [NEWLINE] \<and>
    trim_end_matches CARRIAGE_RETURN line = display_nar_hash zero_hash @ '' '' @ size_str @ '' '' @ record_mac zero_mac [] zero_hash 7 \<and>
    parse_u64 size_str = Some 7)"
proof (rule loaded_records_are_authentic)
  have wf: "wf_nar_hash zero_hash" by (simp add: zero_hash_def wf_nar_hash_def NAR_HASH_LEN_def)
  then have "length (record_line zero_mac [] zero_hash 7) \<le> 146" by (rule length_record_line) (simp add: zero_mac_def)
  then show "load_file zero_mac [] healthy_os (record_line zero_mac [] zero_hash 7) = Ok [(zero_hash, 7)]"
    using parse_committed_records [OF holds_records_lines, of "[(zero_hash, 7)]" zero_mac "[]"] wf
    by (simp add: load_healthy MAX_ALLOWLIST_FILE_BYTES_def MAX_ALLOWLIST_RECORDS_def record_line_body)
qed simp

text \<open>
  The appender does not enforce the bound of the loader. Near the bound, a successful append makes the file too large to
  be loaded, and the next successful append drops the record that crossed the bound.
\<close>

theorem append_past_bound_loses_record:
  assumes "length (record_lines K mac_key rs) < MAX_ALLOWLIST_FILE_BYTES"
    "MAX_ALLOWLIST_FILE_BYTES < length (record_lines K mac_key rs) + length (record_line K mac_key h n)"
  shows "append_file K mac_key healthy_os (Some (record_lines K mac_key rs)) h n = (Some (record_lines K mac_key (rs @ [(h, n)])), Ok ()) \<and>
    load_file K mac_key healthy_os (record_lines K mac_key (rs @ [(h, n)])) =
      Err (OverBound (length (record_lines K mac_key (rs @ [(h, n)])))) \<and>
    append_file K mac_key healthy_os (Some (record_lines K mac_key (rs @ [(h, n)]))) h' n' =
      (Some (record_lines K mac_key (rs @ [(h', n')])), Ok ())"
proof -
  let ?L = "record_lines K mac_key rs" and ?M = MAX_ALLOWLIST_FILE_BYTES
  have len: "length (record_lines K mac_key (rs @ [(h, n)])) = length ?L + length (record_line K mac_key h n)"
    by (simp add: record_line_body)
  have "committed_len ?L = length ?L" using committed_len_records [of "[]" K mac_key rs] by simp
  then have first: "append_file K mac_key healthy_os (Some ?L) h n = (Some (record_lines K mac_key (rs @ [(h, n)])), Ok ())"
    using assms(1) by (simp add: append_healthy write_at_end record_line_body)
  define part where "part = take (?M - length ?L) (record_line K mac_key h n)"
  have part: "take ?M (record_lines K mac_key (rs @ [(h, n)])) = ?L @ part"
    using assms(1) by (simp add: part_def record_line_body)
  have "part = take (?M - length ?L) (record_body K mac_key h n)"
    using assms by (simp add: part_def record_line_body)
  then have "NEWLINE \<notin> set part" using record_body_free(1) [of K mac_key h n] by (metis in_set_takeD)
  then have "committed_len (?L @ part) = length ?L" by (rule committed_len_records)
  moreover have "part \<noteq> []" using assms by (simp add: part_def record_line_body)
  ultimately have "append_file K mac_key healthy_os (Some (record_lines K mac_key (rs @ [(h, n)]))) h' n' =
      (Some (record_lines K mac_key (rs @ [(h', n')])), Ok ())"
    unfolding append_healthy part Let_def using assms(1)
    by (simp add: record_line_body) (simp add: write_at_def)
  then show ?thesis using first assms(2) len by (simp add: load_healthy)
qed

end
