(* ===== verification/Narinfo_Cache.thy ===== *)
theory Narinfo_Cache
  imports Catalog "HOL-Library.Char_ord" "HOL-Library.List_Lexorder" "HOL-Library.Product_Lexorder"
begin

text \<open>
  The narinfo disk cache, \<^verbatim>\<open>daemon-core/src/narinfo_cache.rs\<close>, with the response checks of \<^verbatim>\<open>daemon-core/src/source.rs\<close>
  that decide what may be cached. The cache directory is a map from store hashes to entry files and the index
  file; a file is replaced by a rename, which succeeds or leaves everything as it was. The clock, the upstream and the
  outcome of each file operation are arguments.
\<close>

section \<open>Definitions\<close>

subsection \<open>Responses\<close>

datatype source_error = Unreachable string | TooLarge u64 u64 | Upstream string

type_synonym header_map = "(string \<times> string) list"

record upstream_response =
  rs_status :: u16
  rs_headers :: header_map
  rs_body :: "(string, string) result"   \<comment> \<open>the collected body, or the error of reading it\<close>

definition MAX_NARINFO_BYTES :: nat where "MAX_NARINFO_BYTES = 2 * 1024 * 1024"

definition get_all :: "header_map \<Rightarrow> string \<Rightarrow> string list" where
  "get_all headers name = map snd (filter (\<lambda>(n, _). n = name) headers)"

definition to_ascii_lowercase :: "char \<Rightarrow> char" where
  "to_ascii_lowercase c = (let n = of_char c :: nat in if 65 \<le> n \<and> n \<le> 90 then char_of (n + 32) else c)"

definition ascii_lower_trim :: "string \<Rightarrow> string" where
  "ascii_lower_trim bytes = map to_ascii_lowercase (trim is_ascii_whitespace bytes)"

definition has_unsupported_transfer_coding :: "header_map \<Rightarrow> bool" where
  "has_unsupported_transfer_coding headers =
     (let tokens = filter (\<lambda>t. t \<noteq> [])
            (map ascii_lower_trim (concat (map (split_on CHR '','') (get_all headers ''transfer-encoding''))))
      in case tokens of [] \<Rightarrow> False | [one] \<Rightarrow> one \<noteq> ''chunked'' \<and> one \<noteq> ''identity'' | _ \<Rightarrow> True)"

definition has_ambiguous_framing :: "header_map \<Rightarrow> bool" where
  "has_ambiguous_framing headers \<longleftrightarrow>
     get_all headers ''transfer-encoding'' \<noteq> [] \<and> get_all headers ''content-length'' \<noteq> []"

definition is_ascii_alphanumeric :: "char \<Rightarrow> bool" where
  "is_ascii_alphanumeric c \<longleftrightarrow>
     (let n = of_char c :: nat in 48 \<le> n \<and> n \<le> 57 \<or> 65 \<le> n \<and> n \<le> 90 \<or> 97 \<le> n \<and> n \<le> 122)"

definition is_http_token_char :: "char \<Rightarrow> bool" where
  "is_http_token_char c \<longleftrightarrow> is_ascii_alphanumeric c \<or> c \<in> set (''!#$%&'' @ [CHR 0x27] @ ''*+-.^_'' @ [CHR 0x60] @ ''|~'')"

definition connection_header_is_malformed :: "header_map \<Rightarrow> bool" where
  "connection_header_is_malformed headers \<longleftrightarrow>
     list_ex (list_ex (\<lambda>b. \<not> (b = CHR '','' \<or> is_ascii_whitespace b \<or> is_http_token_char b))) (get_all headers ''connection'')"


subsection \<open>Where the cache lives\<close>

datatype narinfo_cache_choice = Disabled | Explicit string | DefaultDir string | NoDefault

definition path_join :: "string \<Rightarrow> string \<Rightarrow> string" where
  "path_join a b = (if a \<noteq> [] \<and> last a = CHR ''/'' then a @ b else a @ ''/'' @ b)"

definition resolve_narinfo_cache_dir ::
  "string option \<Rightarrow> bool \<Rightarrow> (string \<Rightarrow> string option) \<Rightarrow> narinfo_cache_choice" where
  "resolve_narinfo_cache_dir explicit disabled getenv =
     (if disabled then Disabled
      else case explicit of Some dir \<Rightarrow> Explicit dir
      | None \<Rightarrow>
          (let absolute = (\<lambda>name. case getenv name of
                 Some s \<Rightarrow> if s \<noteq> [] \<and> hd s = CHR ''/'' then Some s else None | None \<Rightarrow> None);
               base = (case absolute ''XDG_STATE_HOME'' of Some s \<Rightarrow> Some s
                 | None \<Rightarrow> map_option (\<lambda>home. path_join (path_join home ''.local'') ''state'') (absolute ''HOME''))
           in case base of
                Some base \<Rightarrow> DefaultDir (path_join (path_join base ''nix-p2p'') ''narinfo'')
              | None \<Rightarrow> NoDefault))"

datatype pass_through_reason = ByFlag | NoDefaultDir | DefaultOpenFailed string string

datatype narinfo_layer = Cached string | PassThrough pass_through_reason | ExplicitOpenFailed string string

definition build_narinfo_layer :: "narinfo_cache_choice \<Rightarrow> (string \<Rightarrow> (string, unit) result) \<Rightarrow> narinfo_layer" where
  "build_narinfo_layer choice new_cache =
     (case choice of
        Disabled \<Rightarrow> PassThrough ByFlag
      | NoDefault \<Rightarrow> PassThrough NoDefaultDir
      | Explicit dir \<Rightarrow> (case new_cache dir of Ok _ \<Rightarrow> Cached dir | Err err \<Rightarrow> ExplicitOpenFailed dir err)
      | DefaultDir dir \<Rightarrow> (case new_cache dir of Ok _ \<Rightarrow> Cached dir | Err err \<Rightarrow> PassThrough (DefaultOpenFailed dir err)))"


subsection \<open>Entries\<close>

definition POSITIVE_TTL :: nat where "POSITIVE_TTL = 30 * 24 * 3600"
definition NEGATIVE_TTL :: nat where "NEGATIVE_TTL = 3600"
definition STORE_HASH_LEN :: nat where "STORE_HASH_LEN = 32"
definition NIX_BASE32 :: string where "NIX_BASE32 = ''0123456789abcdfghijklmnpqrsvwxyz''"
definition TAB :: char where "TAB = CHR 0x09"
definition ENTRY_MAGIC :: string where "ENTRY_MAGIC = ''NIXP2P-NARINFO-CACHE'' @ [TAB] @ ''1''"
definition INDEX_MAGIC :: string where "INDEX_MAGIC = ''NIXP2P-NARINFO-INDEX'' @ [TAB] @ ''1''"

datatype entry_kind = Positive | Negative

record entry =
  e_kind :: entry_kind
  e_fetched_at :: u64
  e_body :: string

fun narinfo_flags ::
  "bool \<times> bool \<times> bool \<times> bool \<times> bool \<times> bool \<Rightarrow> string \<Rightarrow> bool \<times> bool \<times> bool \<times> bool \<times> bool \<times> bool" where
  "narinfo_flags (store_path, url, nar_hash, nar_size, references, sig) line =
     (case strip_prefix ''StorePath:'' line of Some v \<Rightarrow> (store_path \<or> str_trim v \<noteq> [], url, nar_hash, nar_size, references, sig)
      | None \<Rightarrow> (case strip_prefix ''URL:'' line of Some v \<Rightarrow> (store_path, url \<or> str_trim v \<noteq> [], nar_hash, nar_size, references, sig)
      | None \<Rightarrow> (case strip_prefix ''NarHash:'' line of
          Some v \<Rightarrow> (store_path, url,
            nar_hash \<or> strip_prefix ''sha256:'' (str_trim v) \<noteq> None \<and> length ''sha256:'' < length (str_trim v), nar_size, references, sig)
      | None \<Rightarrow> (case strip_prefix ''NarSize:'' line of
          Some v \<Rightarrow> (store_path, url, nar_hash, nar_size \<or> parse_u64 (str_trim v) \<noteq> None, references, sig)
      | None \<Rightarrow> (case strip_prefix ''References:'' line of Some v \<Rightarrow> (store_path, url, nar_hash, nar_size, True, sig)
      | None \<Rightarrow> (case strip_prefix ''Sig:'' line of
          Some v \<Rightarrow> (store_path, url, nar_hash, nar_size, references, sig \<or> str_trim v \<noteq> [])
      | None \<Rightarrow> (store_path, url, nar_hash, nar_size, references, sig)))))))"

definition is_well_formed_narinfo :: "string \<Rightarrow> bool" where
  "is_well_formed_narinfo body =
     (case from_utf8 body of None \<Rightarrow> False
      | Some txt \<Rightarrow>
          (let (store_path, url, nar_hash, nar_size, references, sig) =
             foldl narinfo_flags (False, False, False, False, False, False) (str_lines txt)
           in store_path \<and> url \<and> nar_hash \<and> nar_size \<and> references \<and> sig))"

definition encode_entry :: "entry \<Rightarrow> string" where
  "encode_entry e =
     ENTRY_MAGIC @ [NEWLINE] @ ''fetched_at'' @ [TAB] @ decimal (unat (e_fetched_at e)) @ [NEWLINE] @
     ''status'' @ [TAB] @ decimal (case e_kind e of Positive \<Rightarrow> 200 | Negative \<Rightarrow> 404) @ [NEWLINE] @
     ''body_len'' @ [TAB] @ decimal (length (e_body e)) @ [NEWLINE, NEWLINE] @ e_body e"

fun find_subslice :: "'a list \<Rightarrow> 'a list \<Rightarrow> nat option" where
  "find_subslice needle [] = None"
| "find_subslice needle (x # xs) =
     (if length needle \<le> length (x # xs) \<and> take (length needle) (x # xs) = needle then Some 0
      else map_option Suc (find_subslice needle xs))"

definition parse_u16 :: "string \<Rightarrow> u16 option" where
  "parse_u16 s = Option.bind (parse_u64 s) (\<lambda>n. if unat n < 2 ^ 16 then Some (ucast n) else None)"

definition parse_usize :: "string \<Rightarrow> nat option" where
  "parse_usize s = map_option unat (parse_u64 s)"

fun entry_fields ::
  "u64 option \<times> u16 option \<times> nat option \<Rightarrow> string list \<Rightarrow> (u64 option \<times> u16 option \<times> nat option) option" where
  "entry_fields (fetched_at, status, body_len) [] = Some (fetched_at, status, body_len)"
| "entry_fields (fetched_at, status, body_len) (line # lines) =
     Option.bind (split_once TAB line) (\<lambda>(key, v).
     entry_fields
       (if key = ''fetched_at'' then (parse_u64 v, status, body_len)
        else if key = ''status'' then (fetched_at, parse_u16 v, body_len)
        else if key = ''body_len'' then (fetched_at, status, parse_usize v)
        else (fetched_at, status, body_len)) lines)"

definition decode_entry :: "string \<Rightarrow> entry option" where
  "decode_entry raw =
     Option.bind (find_subslice [NEWLINE, NEWLINE] raw) (\<lambda>sep.
     Option.bind (from_utf8 (take sep raw)) (\<lambda>header.
     let body = drop (sep + 2) raw in
     case str_lines header of [] \<Rightarrow> None
     | magic # lines \<Rightarrow>
         if magic \<noteq> ENTRY_MAGIC then None
         else Option.bind (entry_fields (None, None, None) lines) (\<lambda>(fetched_at, status, body_len).
         Option.bind fetched_at (\<lambda>fetched_at.
         Option.bind status (\<lambda>status.
         Option.bind body_len (\<lambda>body_len.
         if length body \<noteq> body_len then None
         else Option.bind (if status = 200 then Some Positive else if status = 404 then Some Negative else None) (\<lambda>kind.
         if kind = Positive \<and> \<not> is_well_formed_narinfo body then None
         else Some \<lparr> e_kind = kind, e_fetched_at = fetched_at, e_body = body \<rparr>)))))))"


subsection \<open>Bookkeeping\<close>

record cache_record =
  cr_fetched_at :: u64
  cr_token :: "string option"

record bookkeeping =
  bk_records :: "(string, cache_record) hash_map"
  bk_lru :: "(u64 \<times> string) list"   \<comment> \<open>an ordered set\<close>
  bk_token_index :: "(string, string) hash_map"

definition book_default :: bookkeeping where
  "book_default = \<lparr> bk_records = [], bk_lru = [], bk_token_index = [] \<rparr>"

definition book_remove :: "bookkeeping \<Rightarrow> string \<Rightarrow> bookkeeping" where
  "book_remove book store_hash =
     (case hm_get (bk_records book) store_hash of
        None \<Rightarrow> book
      | Some rec \<Rightarrow>
          book\<lparr> bk_records := hm_remove (bk_records book) store_hash,
                bk_lru := filter (\<lambda>x. x \<noteq> (cr_fetched_at rec, store_hash)) (bk_lru book),
                bk_token_index :=
                  (case cr_token rec of
                     Some token \<Rightarrow> if hm_get (bk_token_index book) token = Some store_hash
                       then hm_remove (bk_token_index book) token else bk_token_index book
                   | None \<Rightarrow> bk_token_index book) \<rparr>)"

definition book_insert :: "bookkeeping \<Rightarrow> string \<Rightarrow> u64 \<Rightarrow> string option \<Rightarrow> bookkeeping" where
  "book_insert book store_hash fetched_at token =
     book\<lparr> bk_lru := insort_insert (fetched_at, store_hash) (bk_lru book),
           bk_token_index := (case token of Some token \<Rightarrow> hm_insert (bk_token_index book) token store_hash
             | None \<Rightarrow> bk_token_index book),
           bk_records := hm_insert (bk_records book) store_hash \<lparr> cr_fetched_at = fetched_at, cr_token = token \<rparr> \<rparr>"

partial_function (option) evict_over_cap ::
  "nat \<Rightarrow> string option \<Rightarrow> bookkeeping \<Rightarrow> string list \<Rightarrow> (bookkeeping \<times> string list) option" where
  "evict_over_cap cap spare book victims =
     (if length (bk_records book) \<le> cap then Some (book, victims)
      else case List.find (\<lambda>(_, h). spare \<noteq> Some h) (bk_lru book) of
        None \<Rightarrow> Some (book, victims)
      | Some victim \<Rightarrow> evict_over_cap cap spare (book_remove book (snd victim)) (victims @ [snd victim]))"

definition safe_key :: "string \<Rightarrow> string option" where
  "safe_key store_hash =
     (if length store_hash \<noteq> STORE_HASH_LEN then None
      else if list_all (\<lambda>b. b \<in> set NIX_BASE32) store_hash then Some store_hash else None)"

definition serialize_sidecar :: "bookkeeping \<Rightarrow> string" where
  "serialize_sidecar book =
     INDEX_MAGIC @ [NEWLINE] @
     concat (map (\<lambda>(fetched_at, store_hash).
       store_hash @ [TAB] @ decimal (unat fetched_at) @ [TAB] @
       (case hm_get (bk_records book) store_hash of
          Some rec \<Rightarrow> (case cr_token rec of Some token \<Rightarrow> token | None \<Rightarrow> []) | None \<Rightarrow> []) @ [NEWLINE])
       (bk_lru book))"

fun sidecar_loop ::
  "(string \<times> u64 \<times> string option) list \<Rightarrow> string list \<Rightarrow> (string \<times> u64 \<times> string option) list option" where
  "sidecar_loop out [] = Some out"
| "sidecar_loop out (line # lines) =
     (if line = [] then sidecar_loop out lines
      else case split_on TAB line of
        store_hash # fetched_at # token # _ \<Rightarrow>
          Option.bind (parse_u64 fetched_at) (\<lambda>fetched_at.
          if safe_key store_hash = None then None
          else if store_hash \<in> fst ` set out then None
          else sidecar_loop (out @ [(store_hash, fetched_at, if token = [] then None else Some token)]) lines)
      | _ \<Rightarrow> None)"

definition read_sidecar :: "string option \<Rightarrow> (string \<times> u64 \<times> string option) list option" where
  "read_sidecar index =
     Option.bind index (\<lambda>raw.
     Option.bind (from_utf8 raw) (\<lambda>txt.
     case str_lines txt of [] \<Rightarrow> None
     | magic # lines \<Rightarrow> if magic \<noteq> INDEX_MAGIC then None else sidecar_loop [] lines))"


subsection \<open>The cache\<close>

record narinfo_cache =
  nc_max_entries :: nat
  nc_entries :: "(string, string) hash_map"   \<comment> \<open>the entry files, by store hash\<close>
  nc_index :: "string option"                \<comment> \<open>the index file\<close>
  nc_book :: bookkeeping

text \<open>
  What the file system does during one operation: an entry file can be read or not, the entry and the index are replaced or
  not, a file is deleted or not.
\<close>

record disk_answers =
  da_read :: "string \<Rightarrow> bool"
  da_entry :: bool
  da_index :: bool
  da_delete :: "string \<Rightarrow> bool"

definition write_sidecar_bytes :: "disk_answers \<Rightarrow> narinfo_cache \<Rightarrow> string \<Rightarrow> narinfo_cache" where
  "write_sidecar_bytes da c bytes = (if da_index da then c\<lparr> nc_index := Some bytes \<rparr> else c)"

definition delete_entry_files :: "disk_answers \<Rightarrow> narinfo_cache \<Rightarrow> string list \<Rightarrow> narinfo_cache" where
  "delete_entry_files da c victims =
     c\<lparr> nc_entries := foldl (\<lambda>m victim. if safe_key victim \<noteq> None \<and> da_delete da victim then hm_remove m victim else m)
          (nc_entries c) victims \<rparr>"

definition entry_token :: "entry \<Rightarrow> string option" where
  "entry_token e = (if e_kind e = Positive then map_option co_token (parse_correlation (e_body e)) else None)"

definition record_and_evict ::
  "disk_answers \<Rightarrow> narinfo_cache \<Rightarrow> string \<Rightarrow> u64 \<Rightarrow> string option \<Rightarrow> narinfo_cache option" where
  "record_and_evict da c store_hash fetched_at token =
     (let book = book_insert (book_remove (nc_book c) store_hash) store_hash fetched_at token
      in map_option (\<lambda>(book, victims).
           delete_entry_files da (write_sidecar_bytes da (c\<lparr> nc_book := book \<rparr>) (serialize_sidecar book)) victims)
         (evict_over_cap (nc_max_entries c) (Some store_hash) book []))"

definition install_entry :: "disk_answers \<Rightarrow> narinfo_cache \<Rightarrow> string \<Rightarrow> entry \<Rightarrow> narinfo_cache option" where
  "install_entry da c store_hash e =
     (case safe_key store_hash of
        None \<Rightarrow> Some c
      | Some key \<Rightarrow>
          if \<not> da_entry da then Some c
          else record_and_evict da (c\<lparr> nc_entries := hm_insert (nc_entries c) key (encode_entry e) \<rparr>)
            store_hash (e_fetched_at e) (entry_token e))"

definition read_entry_file :: "disk_answers \<Rightarrow> narinfo_cache \<Rightarrow> string \<Rightarrow> string option" where
  "read_entry_file da c store_hash =
     Option.bind (safe_key store_hash) (\<lambda>key. if da_read da key then hm_get (nc_entries c) key else None)"

definition read_fresh :: "disk_answers \<Rightarrow> u64 \<Rightarrow> narinfo_cache \<Rightarrow> string \<Rightarrow> narinfo_cache \<times> entry option" where
  "read_fresh da now c store_hash =
     (case read_entry_file da c store_hash of
        None \<Rightarrow> (c, None)
      | Some raw \<Rightarrow>
          (case decode_entry raw of
             None \<Rightarrow> (if da_delete da store_hash then c\<lparr> nc_entries := hm_remove (nc_entries c) store_hash \<rparr> else c, None)
           | Some e \<Rightarrow>
               (let ttl = (case e_kind e of Positive \<Rightarrow> POSITIVE_TTL | Negative \<Rightarrow> NEGATIVE_TTL)
                in if ttl \<le> unat (saturating_sub now (e_fetched_at e)) then (c, None) else (c, Some e))))"

definition positive_response :: "string \<Rightarrow> upstream_response" where
  "positive_response body =
     \<lparr> rs_status = 200, rs_headers = [(''content-type'', ''text/x-nix-narinfo''), (''content-length'', decimal (length body))],
       rs_body = Ok body \<rparr>"

definition negative_response :: upstream_response where
  "negative_response = \<lparr> rs_status = 404, rs_headers = [(''content-type'', ''text/plain'')], rs_body = Ok [] \<rparr>"

definition cacheable :: "header_map \<Rightarrow> string \<Rightarrow> bool" where
  "cacheable headers bytes \<longleftrightarrow>
     is_well_formed_narinfo bytes \<and> \<not> has_unsupported_transfer_coding headers \<and>
     \<not> connection_header_is_malformed headers \<and> \<not> has_ambiguous_framing headers"

definition fetch_within ::
  "disk_answers \<Rightarrow> u64 \<Rightarrow> u64 \<Rightarrow> (store_hash \<Rightarrow> (source_error, upstream_response) result) \<Rightarrow> narinfo_cache \<Rightarrow> store_hash \<Rightarrow>
    (narinfo_cache \<times> (source_error, upstream_response) result) option" where
  "fetch_within da now stamp inner c store_hash =
     (case read_fresh da now c store_hash of
        (c, Some e) \<Rightarrow>
          Some (c, Ok (case e_kind e of Positive \<Rightarrow> positive_response (e_body e) | Negative \<Rightarrow> negative_response))
      | (c, None) \<Rightarrow>
          (case inner store_hash of
             Err e \<Rightarrow> Some (c, Err e)
           | Ok resp \<Rightarrow>
               if rs_status resp = 404 then
                 map_option (\<lambda>c. (c, Ok negative_response))
                   (install_entry da c store_hash \<lparr> e_kind = Negative, e_fetched_at = stamp, e_body = [] \<rparr>)
               else if rs_status resp \<noteq> 200 then Some (c, Ok resp)
               else case rs_body resp of
                 Err e \<Rightarrow> Some (c, Err (Upstream (''reading narinfo body (or exceeds '' @ decimal MAX_NARINFO_BYTES @ '' B): '' @ e)))
               | Ok bytes \<Rightarrow>
                   if MAX_NARINFO_BYTES < length bytes
                   then Some (c, Err (Upstream (''reading narinfo body (or exceeds '' @ decimal MAX_NARINFO_BYTES @ '' B): '' @
                     ''length limit exceeded'')))
                   else map_option (\<lambda>c. (c, Ok \<lparr> rs_status = 200, rs_headers = rs_headers resp, rs_body = Ok bytes \<rparr>))
                     (if cacheable (rs_headers resp) bytes
                      then install_entry da c store_hash \<lparr> e_kind = Positive, e_fetched_at = stamp, e_body = bytes \<rparr>
                      else Some c)))"

definition cache_meta_for_token :: "disk_answers \<Rightarrow> narinfo_cache \<Rightarrow> string \<Rightarrow> nar_meta option" where
  "cache_meta_for_token da c token =
     Option.bind (hm_get (bk_token_index (nc_book c)) token) (\<lambda>store_hash.
     Option.bind (read_entry_file da c store_hash) (\<lambda>raw.
     Option.bind (decode_entry raw) (\<lambda>e.
     if e_kind e \<noteq> Positive then None
     else Option.bind (parse_correlation (e_body e)) (\<lambda>co.
     if co_token co \<noteq> token then None
     else Some \<lparr> nm_nar_hash = co_nar_hash co, nm_nar_size = co_nar_size co, nm_transport = co_transport co,
       nm_store_path = co_store_path co \<rparr>))))"

definition trim_to_cap :: "disk_answers \<Rightarrow> narinfo_cache \<Rightarrow> (narinfo_cache \<times> bool) option" where
  "trim_to_cap da c =
     map_option (\<lambda>(book, victims). (delete_entry_files da (c\<lparr> nc_book := book \<rparr>) victims, victims \<noteq> []))
       (evict_over_cap (nc_max_entries c) None (nc_book c) [])"

definition rebuild_from_scan :: "disk_answers \<Rightarrow> bookkeeping \<Rightarrow> (string \<times> string) list \<Rightarrow> bookkeeping" where
  "rebuild_from_scan da book dir =
     foldl (\<lambda>book (store_hash, raw).
       if safe_key store_hash = None \<or> \<not> da_read da store_hash then book
       else case decode_entry raw of None \<Rightarrow> book
         | Some e \<Rightarrow> book_insert (book_remove book store_hash) store_hash (e_fetched_at e) (entry_token e)) book dir"

definition load_index :: "disk_answers \<Rightarrow> narinfo_cache \<Rightarrow> narinfo_cache option" where
  "load_index da c =
     (let (book, rescanned) =
        (case read_sidecar (nc_index c) of
           Some records \<Rightarrow>
             (foldl (\<lambda>book (store_hash, fetched_at, token). book_insert book store_hash fetched_at token) (nc_book c) records, False)
         | None \<Rightarrow> (rebuild_from_scan da (nc_book c) (nc_entries c), True))
      in Option.bind (trim_to_cap da (c\<lparr> nc_book := book \<rparr>)) (\<lambda>(c, trimmed).
         Some (if rescanned \<or> trimmed then write_sidecar_bytes da c (serialize_sidecar (nc_book c)) else c)))"

text \<open>Opening a cache directory: the files are those on disk, the bookkeeping starts empty.\<close>

definition open_cache ::
  "disk_answers \<Rightarrow> nat \<Rightarrow> (string, string) hash_map \<Rightarrow> string option \<Rightarrow> narinfo_cache option" where
  "open_cache da max_entries entries index =
     load_index da \<lparr> nc_max_entries = max_entries, nc_entries = entries, nc_index = index, nc_book = book_default \<rparr>"



section \<open>Bookkeeping\<close>

text \<open>The ordered set has exactly the records; the token index points to records with that token.\<close>

definition book_ok :: "bookkeeping \<Rightarrow> bool" where
  "book_ok book \<longleftrightarrow> hm_ok (bk_records book) \<and> sorted (bk_lru book) \<and> distinct (bk_lru book) \<and>
     (\<forall>t h. (t, h) \<in> set (bk_lru book) \<longleftrightarrow> map_option cr_fetched_at (hm_get (bk_records book) h) = Some t) \<and>
     (\<forall>token h. hm_get (bk_token_index book) token = Some h \<longrightarrow>
        (\<exists>r. hm_get (bk_records book) h = Some r \<and> cr_token r = Some token))"

lemma book_ok_default [simp]: "book_ok book_default"
  by (simp add: book_ok_def book_default_def)

lemma bk_records_remove [simp]: "hm_get (bk_records (book_remove book h)) j = (if j = h then None else hm_get (bk_records book) j)"
  by (auto simp: book_remove_def split: option.split)

lemma bk_records_insert [simp]:
  "hm_get (bk_records (book_insert book h t tok)) j =
    (if j = h then Some \<lparr> cr_fetched_at = t, cr_token = tok \<rparr> else hm_get (bk_records book) j)"
  by (simp add: book_insert_def)

lemma book_ok_token:
  "book_ok book \<Longrightarrow> hm_get (bk_token_index book) token = Some h \<Longrightarrow> \<exists>r. hm_get (bk_records book) h = Some r \<and> cr_token r = Some token"
  by (simp add: book_ok_def)

lemma book_ok_lru: "book_ok book \<Longrightarrow> x \<in> set (bk_lru book) \<longleftrightarrow> map_option cr_fetched_at (hm_get (bk_records book) (snd x)) = Some (fst x)"
  by (cases x) (simp add: book_ok_def)

lemma book_ok_remove: "book_ok book \<Longrightarrow> book_ok (book_remove book h)"
proof (cases "hm_get (bk_records book) h")
  case None
  then show "book_ok book \<Longrightarrow> book_ok (book_remove book h)" by (simp add: book_remove_def)
next
  case (Some r)
  assume ok: "book_ok book"
  have lru: "bk_lru (book_remove book h) = filter (\<lambda>x. x \<noteq> (cr_fetched_at r, h)) (bk_lru book)"
    using Some by (simp add: book_remove_def)
  have "hm_ok (bk_records (book_remove book h))" using ok Some by (simp add: book_ok_def book_remove_def)
  moreover have "(t, j) \<in> set (bk_lru (book_remove book h)) \<longleftrightarrow> map_option cr_fetched_at (hm_get (bk_records (book_remove book h)) j) = Some t" for t j
    using ok Some unfolding lru by (auto simp: book_ok_def)
  moreover have "\<exists>r'. hm_get (bk_records (book_remove book h)) j = Some r' \<and> cr_token r' = Some token"
    if "hm_get (bk_token_index (book_remove book h)) token = Some j" for token j
  proof -
    have old: "hm_get (bk_token_index book) token = Some j"
      using that Some by (auto simp: book_remove_def split: option.splits if_splits)
    from book_ok_token [OF ok old] obtain r' where r': "hm_get (bk_records book) j = Some r'" "cr_token r' = Some token" by blast
    moreover have "j \<noteq> h" using that Some r' old by (auto simp: book_remove_def split: option.splits if_splits)
    ultimately show ?thesis by simp
  qed
  moreover have "sorted (bk_lru (book_remove book h))" "distinct (bk_lru (book_remove book h))"
    using ok unfolding lru by (simp_all add: book_ok_def sorted_wrt_filter)
  ultimately show "book_ok (book_remove book h)" unfolding book_ok_def by blast
qed

lemma book_ok_insert:
  assumes "book_ok book" "hm_get (bk_records book) h = None"
  shows "book_ok (book_insert book h t tok)"
proof -
  have "hm_ok (bk_records (book_insert book h t tok))" using assms by (simp add: book_ok_def book_insert_def)
  moreover have "sorted (bk_lru (book_insert book h t tok))" "distinct (bk_lru (book_insert book h t tok))"
    using assms by (simp_all add: book_ok_def book_insert_def sorted_insort_insert distinct_insort_insert)
  moreover have "(u, j) \<in> set (bk_lru (book_insert book h t tok)) \<longleftrightarrow> map_option cr_fetched_at (hm_get (bk_records (book_insert book h t tok)) j) = Some u" for u j
    using assms by (auto simp: book_ok_def book_insert_def set_insort_insert)
  moreover have "\<exists>r'. hm_get (bk_records (book_insert book h t tok)) j = Some r' \<and> cr_token r' = Some token"
    if "hm_get (bk_token_index (book_insert book h t tok)) token = Some j" for token j
  proof (cases "tok = Some token")
    case True
    then show ?thesis using that by (simp add: book_insert_def)
  next
    case False
    then have "hm_get (bk_token_index book) token = Some j" using that by (auto simp: book_insert_def split: option.splits if_splits)
    from book_ok_token [OF assms(1) this] show ?thesis using assms(2) by auto
  qed
  ultimately show ?thesis by (simp add: book_ok_def)
qed

lemma book_ok_replace: "book_ok book \<Longrightarrow> book_ok (book_insert (book_remove book h) h t tok)"
  by (intro book_ok_insert book_ok_remove) simp_all

lemma length_records_remove:
  assumes "book_ok book" "hm_get (bk_records book) h = Some r"
  shows "length (bk_records (book_remove book h)) < length (bk_records book)"
proof -
  have ok: "hm_ok (bk_records book)" "hm_ok (bk_records (book_remove book h))"
    using assms book_ok_remove [OF assms(1), of h] by (simp_all add: book_ok_def)
  have "dom (hm_get (bk_records (book_remove book h))) \<subset> dom (hm_get (bk_records book))"
    using assms(2) by (auto simp: dom_def split: if_splits)
  then show ?thesis unfolding hm_keys_card [OF ok(1)] hm_keys_card [OF ok(2)] by (intro psubset_card_mono) auto
qed

text \<open>
  Eviction returns. It removes the oldest records first, never the spared one, and stops at the cap or when only the
  spared record is left.
\<close>

definition older :: "bookkeeping \<Rightarrow> string option \<Rightarrow> u64 \<times> string \<Rightarrow> bool" where
  "older book spare victim \<longleftrightarrow>
     (\<forall>h r. hm_get (bk_records book) h = Some r \<longrightarrow> spare \<noteq> Some h \<longrightarrow> victim \<le> (cr_fetched_at r, h))"

definition evicted :: "bookkeeping \<Rightarrow> string option \<Rightarrow> string list \<Rightarrow> bookkeeping \<Rightarrow> bool" where
  "evicted book spare vs book' \<longleftrightarrow> book_ok book' \<and>
     (\<forall>h. hm_get (bk_records book') h = (if h \<in> set vs then None else hm_get (bk_records book) h)) \<and>
     (\<forall>v \<in> set vs. spare \<noteq> Some v \<and> (\<exists>r. hm_get (bk_records book) v = Some r \<and> older book' spare (cr_fetched_at r, v)))"

lemma find_first_sorted:
  assumes "sorted xs" "List.find p xs = Some x" "y \<in> set xs" "p y"
  shows "x \<le> y"
proof -
  obtain i where i: "i < length xs" "x = xs ! i" "\<forall>j < i. \<not> p (xs ! j)" using assms(2) by (auto simp: find_Some_iff)
  obtain k where k: "k < length xs" "y = xs ! k" using assms(3) by (auto simp: in_set_conv_nth)
  have "i \<le> k" using i(3) assms(4) k(2) not_le by blast
  then show ?thesis using sorted_nth_mono [OF assms(1), of i k] i k by simp
qed

lemma evict_victim:
  assumes "book_ok book" "List.find (\<lambda>(_, h). spare \<noteq> Some h) (bk_lru book) = Some victim"
  shows "\<exists>r. hm_get (bk_records book) (snd victim) = Some r \<and> fst victim = cr_fetched_at r \<and> spare \<noteq> Some (snd victim) \<and>
    older book spare victim"
proof -
  have v: "victim \<in> set (bk_lru book)" "spare \<noteq> Some (snd victim)"
    using assms(2) by (auto simp: find_Some_iff case_prod_unfold)
  have lru: "\<forall>t h. (t, h) \<in> set (bk_lru book) \<longleftrightarrow> map_option cr_fetched_at (hm_get (bk_records book) h) = Some t" "sorted (bk_lru book)"
    using assms(1) by (simp_all add: book_ok_def)
  have "older book spare victim"
    unfolding older_def
  proof (intro allI impI)
    fix h r assume "hm_get (bk_records book) h = Some r" "spare \<noteq> Some h"
    then show "victim \<le> (cr_fetched_at r, h)"
      using find_first_sorted [OF lru(2) assms(2), of "(cr_fetched_at r, h)"] lru(1) by auto
  qed
  moreover obtain r where "hm_get (bk_records book) (snd victim) = Some r" "fst victim = cr_fetched_at r"
    using v(1) book_ok_lru [OF assms(1), of victim] by auto
  ultimately show ?thesis using v(2) by auto
qed

lemma evict_over_cap_returns:
  assumes "book_ok book"
  shows "\<exists>book' vs. evict_over_cap cap spare book victims = Some (book', victims @ vs) \<and> evicted book spare vs book' \<and>
    (length (bk_records book') \<le> cap \<or> (\<forall>h. hm_get (bk_records book') h \<noteq> None \<longrightarrow> spare = Some h))"
  using assms
proof (induction "length (bk_records book)" arbitrary: book victims rule: less_induct)
  case less
  show ?case
  proof (cases "length (bk_records book) \<le> cap")
    case True
    then show ?thesis using less.prems
      by (intro exI [of _ book] exI [of _ "[]"]) (simp add: evict_over_cap.simps evicted_def)
  next
    case over: False
    show ?thesis
    proof (cases "List.find (\<lambda>(_, h). spare \<noteq> Some h) (bk_lru book)")
      case None
      have "spare = Some h" if "hm_get (bk_records book) h = Some r" for h r
        using None that less.prems by (auto simp: find_None_iff book_ok_def)
      then show ?thesis using None over less.prems
        by (intro exI [of _ book] exI [of _ "[]"]) (auto simp: evict_over_cap.simps evicted_def)
    next
      case (Some victim)
      from evict_victim [OF less.prems Some] obtain r where r: "hm_get (bk_records book) (snd victim) = Some r"
        "fst victim = cr_fetched_at r" "spare \<noteq> Some (snd victim)" "older book spare victim" by blast
      let ?book = "book_remove book (snd victim)"
      obtain book' vs where ih: "evict_over_cap cap spare ?book (victims @ [snd victim]) = Some (book', (victims @ [snd victim]) @ vs)"
        "evicted ?book spare vs book'"
        "length (bk_records book') \<le> cap \<or> (\<forall>h. hm_get (bk_records book') h \<noteq> None \<longrightarrow> spare = Some h)"
        using less.hyps [OF length_records_remove [OF less.prems r(1)] book_ok_remove [OF less.prems], of "victims @ [snd victim]"]
        by metis
      have sub: "hm_get (bk_records book) h = Some r'" if "hm_get (bk_records book') h = Some r'" for h r'
        using that ih(2) by (auto simp: evicted_def split: if_splits)
      have "victim = (cr_fetched_at r, snd victim)" using r(2) by (simp add: prod_eq_iff)
      then have "older book' spare (cr_fetched_at r, snd victim)"
        using r(4) sub unfolding older_def by metis
      then have "evicted book spare (snd victim # vs) book'"
        using ih(2) r unfolding evicted_def by (auto split: if_splits)
      then show ?thesis using ih over Some
        by (intro exI [of _ book'] exI [of _ "snd victim # vs"]) (simp add: evict_over_cap.simps [of cap spare book])
    qed
  qed
qed



section \<open>Entries\<close>

definition entry_ok :: "entry \<Rightarrow> bool" where
  "entry_ok e \<longleftrightarrow> length (e_body e) < 2 ^ 64 \<and> (e_kind e = Positive \<longrightarrow> is_well_formed_narinfo (e_body e))"

lemma find_subslice_blank:
  assumes "NEWLINE \<notin> set l" "l \<noteq> []"
  shows "find_subslice [NEWLINE, NEWLINE] (l @ NEWLINE # xs) =
    (if xs \<noteq> [] \<and> hd xs = NEWLINE then Some (length l)
     else map_option (\<lambda>n. n + Suc (length l)) (find_subslice [NEWLINE, NEWLINE] xs))"
  using assms
proof (induction l)
  case (Cons c l)
  have c: "c \<noteq> NEWLINE" using Cons.prems by auto
  show ?case
  proof (cases l)
    case Nil
    then show ?thesis using c by (cases xs) (auto simp: option.map_comp o_def)
  next
    case (Cons d l')
    then show ?thesis using Cons.IH Cons.prems c by (auto simp: option.map_comp o_def)
  qed
qed simp

lemma parse_usize_decimal: "n < 2 ^ 64 \<Longrightarrow> parse_usize (decimal n) = Some n"
  using parse_u64_decimal [of "of_nat n :: u64"] by (simp add: parse_usize_def unat_of_nat)

lemma parse_status [simp]: "parse_u16 (decimal 200) = Some 200" "parse_u16 (decimal 404) = Some 404"
  using parse_u64_decimal [of 200] parse_u64_decimal [of 404] by (simp_all add: parse_u16_def)

lemma decode_encode_entry:
  assumes "entry_ok e"
  shows "decode_entry (encode_entry e) = Some e"
proof -
  define l2 l3 l4 where "l2 = ''fetched_at'' @ TAB # decimal (unat (e_fetched_at e))"
    and "l3 = ''status'' @ TAB # decimal (case e_kind e of Positive \<Rightarrow> 200 | Negative \<Rightarrow> 404)"
    and "l4 = ''body_len'' @ TAB # decimal (length (e_body e))"
  have enc: "encode_entry e = ENTRY_MAGIC @ NEWLINE # l2 @ NEWLINE # l3 @ NEWLINE # l4 @ NEWLINE # NEWLINE # e_body e"
    by (simp add: encode_entry_def l2_def l3_def l4_def)
  have d: "NEWLINE \<notin> set (decimal n)" "CARRIAGE_RETURN \<notin> set (decimal n)" for n
    using graphic_free [OF decimal_graphic [of n]] by simp_all
  have nl: "NEWLINE \<notin> set ENTRY_MAGIC" "NEWLINE \<notin> set l2" "NEWLINE \<notin> set l3" "NEWLINE \<notin> set l4"
    and cr: "CARRIAGE_RETURN \<notin> set ENTRY_MAGIC" "CARRIAGE_RETURN \<notin> set l2" "CARRIAGE_RETURN \<notin> set l3"
    and ne: "ENTRY_MAGIC \<noteq> []" "l2 \<noteq> []" "l3 \<noteq> []" "l4 \<noteq> []"
    using d by (simp_all add: ENTRY_MAGIC_def l2_def l3_def l4_def NEWLINE_def CARRIAGE_RETURN_def TAB_def)
  have hd: "hd l2 \<noteq> NEWLINE" "hd l3 \<noteq> NEWLINE" "hd l4 \<noteq> NEWLINE" using nl ne by (metis hd_in_set)+
  define header where "header = ENTRY_MAGIC @ NEWLINE # l2 @ NEWLINE # l3 @ NEWLINE # l4"
  have sep: "find_subslice [NEWLINE, NEWLINE] (encode_entry e) = Some (length header)"
    unfolding enc header_def by (simp add: find_subslice_blank nl ne hd)
  have enc': "encode_entry e = header @ NEWLINE # NEWLINE # e_body e" by (simp add: enc header_def)
  have "header = unlines [ENTRY_MAGIC, l2, l3] @ l4" by (simp add: header_def)
  then have lines: "str_lines header = [ENTRY_MAGIC, l2, l3, l4]"
    using str_lines_open_end [of "[ENTRY_MAGIC, l2, l3]" l4] nl cr ne by (simp add: plain_line_def)
  have ascii: "of_char c < (0x80 :: nat)" if "c \<in> set (decimal n)" for c n
    using that decimal_graphic [of n] by (auto simp: list_all_iff graphic_def)
  have utf: "utf8 (map of_char header)"
    by (rule utf8_ascii) (auto simp: header_def ENTRY_MAGIC_def l2_def l3_def l4_def NEWLINE_def TAB_def dest: ascii)
  have tab: "split_once TAB l2 = Some (''fetched_at'', decimal (unat (e_fetched_at e)))"
    "split_once TAB l3 = Some (''status'', decimal (case e_kind e of Positive \<Rightarrow> 200 | Negative \<Rightarrow> 404))"
    "split_once TAB l4 = Some (''body_len'', decimal (length (e_body e)))"
    unfolding l2_def l3_def l4_def by (rule split_once_append, simp add: TAB_def)+
  have fields: "entry_fields (None, None, None) [l2, l3, l4] =
      Some (Some (e_fetched_at e), Some (case e_kind e of Positive \<Rightarrow> 200 | Negative \<Rightarrow> 404), Some (length (e_body e)))"
    using assms by (cases "e_kind e") (simp_all add: tab parse_usize_decimal entry_ok_def)
  show ?thesis
    unfolding decode_entry_def sep unfolding enc' using assms
    by (cases "e_kind e") (simp_all add: from_utf8_def utf lines fields entry_ok_def del: entry_fields.simps)
qed



section \<open>The cache\<close>

text \<open>
  The invariant of a cache on a directory that was empty when it was opened: the bookkeeping is consistent and within the
  cap, its keys are safe, and every entry file is the encoding of an entry that some past event put there.
\<close>

type_synonym fetch_event = "disk_answers \<times> u64 \<times> u64 \<times> (store_hash \<Rightarrow> (source_error, upstream_response) result) \<times> store_hash"

definition caused_by :: "fetch_event list \<Rightarrow> string \<Rightarrow> entry \<Rightarrow> bool" where
  "caused_by past h e \<longleftrightarrow>
     (\<exists>(_, _, t, inner, h') \<in> set past. h' = h \<and> e_fetched_at e = t \<and>
       (\<exists>up. inner h = Ok up \<and>
         (e_kind e = Negative \<and> rs_status up = 404 \<or>
          e_kind e = Positive \<and> rs_status up = 200 \<and> rs_body up = Ok (e_body e))))"

definition cache_ok :: "fetch_event list \<Rightarrow> narinfo_cache \<Rightarrow> bool" where
  "cache_ok past c \<longleftrightarrow> book_ok (nc_book c) \<and> 0 < nc_max_entries c \<and> length (bk_records (nc_book c)) \<le> nc_max_entries c \<and>
     (\<forall>h. hm_get (bk_records (nc_book c)) h \<noteq> None \<longrightarrow> safe_key h = Some h) \<and> hm_ok (nc_entries c) \<and>
     (\<forall>h raw. hm_get (nc_entries c) h = Some raw \<longrightarrow> (\<exists>e. raw = encode_entry e \<and> entry_ok e \<and> caused_by past h e))"

lemma caused_by_mono: "caused_by past h e \<Longrightarrow> set past \<subseteq> set past' \<Longrightarrow> caused_by past' h e"
  unfolding caused_by_def by blast

lemma safe_key_Some: "safe_key h = Some k \<Longrightarrow> k = h"
  by (auto simp: safe_key_def split: if_splits)

lemma delete_entry_files_get:
  "hm_get (foldl (\<lambda>m victim. if safe_key victim \<noteq> None \<and> da_delete da victim then hm_remove m victim else m) m victims) h =
    (if h \<in> set victims \<and> safe_key h \<noteq> None \<and> da_delete da h then None else hm_get m h)"
  by (induction victims arbitrary: m) (auto split: if_splits)

lemma delete_entry_files_ok:
  "hm_ok m \<Longrightarrow> hm_ok (foldl (\<lambda>m victim. if safe_key victim \<noteq> None \<and> da_delete da victim then hm_remove m victim else m) m victims)"
  by (induction victims arbitrary: m) auto

lemma nc_entries_delete:
  "hm_get (nc_entries (delete_entry_files da c vs)) h =
    (if h \<in> set vs \<and> safe_key h \<noteq> None \<and> da_delete da h then None else hm_get (nc_entries c) h)"
  "hm_ok (nc_entries c) \<Longrightarrow> hm_ok (nc_entries (delete_entry_files da c vs))"
proof -
  have "nc_entries (delete_entry_files da c vs) =
      foldl (\<lambda>m victim. if safe_key victim \<noteq> None \<and> da_delete da victim then hm_remove m victim else m) (nc_entries c) vs"
    by (simp add: delete_entry_files_def)
  then show "hm_get (nc_entries (delete_entry_files da c vs)) h =
      (if h \<in> set vs \<and> safe_key h \<noteq> None \<and> da_delete da h then None else hm_get (nc_entries c) h)"
    "hm_ok (nc_entries c) \<Longrightarrow> hm_ok (nc_entries (delete_entry_files da c vs))"
    by (simp_all only: delete_entry_files_get delete_entry_files_ok)
qed

lemma write_sidecar_simps [simp]:
  "nc_entries (write_sidecar_bytes da c bytes) = nc_entries c" "nc_book (write_sidecar_bytes da c bytes) = nc_book c"
  "nc_max_entries (write_sidecar_bytes da c bytes) = nc_max_entries c"
  by (simp_all add: write_sidecar_bytes_def)

lemma delete_entry_simps [simp]:
  "nc_book (delete_entry_files da c victims) = nc_book c" "nc_max_entries (delete_entry_files da c victims) = nc_max_entries c"
  "nc_index (delete_entry_files da c victims) = nc_index c"
  by (simp_all add: delete_entry_files_def)

text \<open>What recording and evicting does.\<close>

lemma record_and_evict_returns:
  assumes "book_ok (nc_book c)" "0 < nc_max_entries c"
  obtains c' vs where "record_and_evict da c h t tok = Some c'" "book_ok (nc_book c')" "nc_max_entries c' = nc_max_entries c"
    "length (bk_records (nc_book c')) \<le> nc_max_entries c"
    "\<forall>j. hm_get (bk_records (nc_book c')) j =
      (if j \<in> set vs then None else if j = h then Some \<lparr> cr_fetched_at = t, cr_token = tok \<rparr> else hm_get (bk_records (nc_book c)) j)"
    "h \<notin> set vs"
    "\<forall>j. hm_get (nc_entries c') j = (if j \<in> set vs \<and> safe_key j \<noteq> None \<and> da_delete da j then None else hm_get (nc_entries c) j)"
    "hm_ok (nc_entries c) \<longrightarrow> hm_ok (nc_entries c')"
proof -
  let ?book = "book_insert (book_remove (nc_book c) h) h t tok"
  obtain book' vs where ev: "evict_over_cap (nc_max_entries c) (Some h) ?book [] = Some (book', [] @ vs)"
    "evicted ?book (Some h) vs book'"
    "length (bk_records book') \<le> nc_max_entries c \<or> (\<forall>j. hm_get (bk_records book') j \<noteq> None \<longrightarrow> Some h = Some j)"
    using evict_over_cap_returns [OF book_ok_replace [OF assms(1)], of "nc_max_entries c" "Some h" h t tok "[]"] by metis
  define c' where "c' = delete_entry_files da (write_sidecar_bytes da (c\<lparr> nc_book := book' \<rparr>) (serialize_sidecar book')) vs"
  have run: "record_and_evict da c h t tok = Some c'"
    using ev(1) by (simp add: record_and_evict_def c'_def)
  have ok: "book_ok book'" using ev(2) by (simp add: evicted_def)
  have cap: "length (bk_records book') \<le> nc_max_entries c"
    using ev(3)
  proof
    assume only: "\<forall>j. hm_get (bk_records book') j \<noteq> None \<longrightarrow> Some h = Some j"
    have "hm_ok (bk_records book')" using ok by (simp add: book_ok_def)
    then have "length (bk_records book') = card (dom (hm_get (bk_records book')))" by (rule hm_keys_card)
    also have "\<dots> \<le> card {h}" using only by (intro card_mono) auto
    finally show ?thesis using assms(2) by simp
  qed
  show thesis
  proof (rule that [OF run])
    show "\<forall>j. hm_get (bk_records (nc_book c')) j =
      (if j \<in> set vs then None else if j = h then Some \<lparr> cr_fetched_at = t, cr_token = tok \<rparr> else hm_get (bk_records (nc_book c)) j)"
      using ev(2) by (simp add: c'_def evicted_def)
  qed (use ok cap ev(2) in \<open>auto simp: c'_def evicted_def nc_entries_delete\<close>)
qed

lemma install_entry_ok:
  assumes "cache_ok past c" "entry_ok e" "caused_by past h e"
  obtains c' where "install_entry da c h e = Some c'" "cache_ok past c'"
    "safe_key h \<noteq> None \<Longrightarrow> da_entry da \<Longrightarrow> hm_get (nc_entries c') h = Some (encode_entry e)"
    "\<forall>j. da_delete da j \<Longrightarrow> \<forall>j. hm_get (nc_entries c) j \<noteq> None \<longrightarrow> hm_get (bk_records (nc_book c)) j \<noteq> None \<Longrightarrow>
      \<forall>j. hm_get (nc_entries c') j \<noteq> None \<longrightarrow> hm_get (bk_records (nc_book c')) j \<noteq> None"
    "nc_max_entries c' = nc_max_entries c"
proof (cases "safe_key h = None \<or> \<not> da_entry da")
  case True
  then have "install_entry da c h e = Some c" by (auto simp: install_entry_def split: option.split)
  then show thesis using True assms(1) by (intro that) auto
next
  case False
  then have key: "safe_key h = Some h" using safe_key_Some [of h] by auto
  let ?c = "c\<lparr> nc_entries := hm_insert (nc_entries c) h (encode_entry e) \<rparr>"
  have pre: "book_ok (nc_book ?c)" "0 < nc_max_entries ?c" using assms(1) by (simp_all add: cache_ok_def)
  obtain c' vs where
    run: "record_and_evict da ?c h (e_fetched_at e) (entry_token e) = Some c'" and book: "book_ok (nc_book c')" and
    cap: "nc_max_entries c' = nc_max_entries ?c" "length (bk_records (nc_book c')) \<le> nc_max_entries ?c" and
    records: "\<forall>j. hm_get (bk_records (nc_book c')) j = (if j \<in> set vs then None
      else if j = h then Some \<lparr> cr_fetched_at = e_fetched_at e, cr_token = entry_token e \<rparr> else hm_get (bk_records (nc_book ?c)) j)" and
    spared: "h \<notin> set vs" and
    files: "\<forall>j. hm_get (nc_entries c') j = (if j \<in> set vs \<and> safe_key j \<noteq> None \<and> da_delete da j then None else hm_get (nc_entries ?c) j)" and
    hok: "hm_ok (nc_entries ?c) \<longrightarrow> hm_ok (nc_entries c')"
    by (rule record_and_evict_returns [OF pre])
  have "cache_ok past c'"
    unfolding cache_ok_def
  proof (intro conjI allI impI)
    show "hm_ok (nc_entries c')" using hok assms(1) by (simp add: cache_ok_def)
    show "safe_key j = Some j" if "hm_get (bk_records (nc_book c')) j \<noteq> None" for j
      using that records key assms(1) by (auto simp: cache_ok_def split: if_splits)
    show "\<exists>e. raw = encode_entry e \<and> entry_ok e \<and> caused_by past j e" if "hm_get (nc_entries c') j = Some raw" for j raw
      using that files assms by (auto simp: cache_ok_def split: if_splits)
  qed (use book cap pre in auto)
  moreover have "hm_get (nc_entries c') h = Some (encode_entry e)" using files spared by simp
  moreover have "hm_get (bk_records (nc_book c')) j \<noteq> None"
    if del: "\<forall>j. da_delete da j" and sub: "\<forall>j. hm_get (nc_entries c) j \<noteq> None \<longrightarrow> hm_get (bk_records (nc_book c)) j \<noteq> None"
      and j: "hm_get (nc_entries c') j \<noteq> None" for j
  proof (cases "j = h")
    case True
    then show ?thesis using records spared by simp
  next
    case other: False
    then have "hm_get (nc_entries c) j \<noteq> None" using j files by (auto split: if_splits)
    then have "hm_get (bk_records (nc_book c)) j \<noteq> None" "safe_key j \<noteq> None" using sub assms(1) by (auto simp: cache_ok_def)
    moreover from this have "j \<notin> set vs" using j files del by (auto split: if_splits)
    ultimately show ?thesis using records other by simp
  qed
  ultimately show thesis using run key False cap(1) by (intro that [of c']) (auto simp: install_entry_def)
qed

lemma read_entry_file_Some: "read_entry_file da c h = Some raw \<Longrightarrow> hm_get (nc_entries c) h = Some raw"
  by (auto simp: read_entry_file_def bind_eq_Some_conv split: if_splits dest: safe_key_Some)

lemma read_fresh_ok:
  assumes "cache_ok past c"
  shows "fst (read_fresh da now c h) = c"
    "snd (read_fresh da now c h) = Some e \<Longrightarrow> caused_by past h e \<and>
      unat now - unat (e_fetched_at e) < (case e_kind e of Positive \<Rightarrow> POSITIVE_TTL | Negative \<Rightarrow> NEGATIVE_TTL)"
proof -
  have stored: "\<exists>e. decode_entry raw = Some e \<and> caused_by past h e" if "hm_get (nc_entries c) h = Some raw" for raw
    using that assms decode_encode_entry unfolding cache_ok_def by blast
  show "fst (read_fresh da now c h) = c"
  proof (cases "read_entry_file da c h")
    case None
    then show ?thesis by (simp add: read_fresh_def)
  next
    case (Some raw)
    then have "hm_get (nc_entries c) h = Some raw" by (rule read_entry_file_Some)
    from stored [OF this] Some show ?thesis by (auto simp: read_fresh_def Let_def)
  qed
  show "caused_by past h e \<and> unat now - unat (e_fetched_at e) < (case e_kind e of Positive \<Rightarrow> POSITIVE_TTL | Negative \<Rightarrow> NEGATIVE_TTL)"
    if "snd (read_fresh da now c h) = Some e"
  proof -
    from that obtain raw where raw: "hm_get (nc_entries c) h = Some raw" "decode_entry raw = Some e"
      and ttl: "\<not> (case e_kind e of Positive \<Rightarrow> POSITIVE_TTL | Negative \<Rightarrow> NEGATIVE_TTL) \<le> unat (saturating_sub now (e_fetched_at e))"
      by (auto simp: read_fresh_def Let_def bind_eq_Some_conv split: option.splits if_splits dest!: read_entry_file_Some)
    then show ?thesis using stored [OF raw(1)] by (simp add: unat_saturating_sub not_le)
  qed
qed

lemma read_fresh_hit:
  assumes "hm_get (nc_entries c) h = Some (encode_entry e)" "entry_ok e" "safe_key h \<noteq> None"
    "unat now - unat (e_fetched_at e) < (case e_kind e of Positive \<Rightarrow> POSITIVE_TTL | Negative \<Rightarrow> NEGATIVE_TTL)" "da_read da h"
  shows "read_fresh da now c h = (c, Some e)"
proof -
  have "safe_key h = Some h" using assms(3) safe_key_Some [of h] by auto
  then show ?thesis
    using assms(1,4,5) decode_encode_entry [OF assms(2)] by (simp add: read_fresh_def read_entry_file_def unat_saturating_sub Let_def)
qed

text \<open>A fetch after a miss, and what it answers.\<close>

definition answers :: "upstream_response \<Rightarrow> upstream_response \<Rightarrow> bool" where
  "answers up resp \<longleftrightarrow> rs_status resp = rs_status up \<and> (rs_status up = 200 \<longrightarrow> rs_body resp = rs_body up)"

definition tight :: "narinfo_cache \<Rightarrow> bool" where
  "tight c \<longleftrightarrow> (\<forall>j. hm_get (nc_entries c) j \<noteq> None \<longrightarrow> hm_get (bk_records (nc_book c)) j \<noteq> None)"

lemma max_narinfo_small: "n \<le> MAX_NARINFO_BYTES \<Longrightarrow> n < 2 ^ 64"
  by (simp add: MAX_NARINFO_BYTES_def)

lemma cache_ok_mono: "cache_ok past c \<Longrightarrow> set past \<subseteq> set past' \<Longrightarrow> cache_ok past' c"
  unfolding cache_ok_def using caused_by_mono by meson

lemma fetch_miss_cases:
  assumes "read_fresh da now c h = (c, None)" "inner h = Ok up"
  obtains "rs_status up = 404"
  | bytes where "rs_status up = 200" "rs_body up = Ok bytes" "length bytes \<le> MAX_NARINFO_BYTES" "cacheable (rs_headers up) bytes"
  | r where "fetch_within da now stamp inner c h = Some (c, r)" "\<forall>resp. r = Ok resp \<longrightarrow> answers up resp"
proof (cases "rs_status up = 200")
  case False
  show thesis
  proof (cases "rs_status up = 404")
    case other: False
    have "fetch_within da now stamp inner c h = Some (c, Ok up)" using assms False other by (simp add: fetch_within_def)
    then show thesis by (rule that(3)) (auto simp: answers_def)
  qed (rule that(1))
next
  case ok: True
  show thesis
  proof (cases "rs_body up")
    case (Inl e)
    then show thesis using assms ok by (intro that(3)) (auto simp: fetch_within_def)
  next
    case (Inr bytes)
    show thesis
    proof (cases "length bytes \<le> MAX_NARINFO_BYTES \<and> cacheable (rs_headers up) bytes")
      case True
      then show thesis using ok Inr that(2) by auto
    next
      case False
      then obtain r where "fetch_within da now stamp inner c h = Some (c, r)" "\<forall>resp. r = Ok resp \<longrightarrow> answers up resp"
        using assms ok Inr by (cases "length bytes \<le> MAX_NARINFO_BYTES") (auto simp: fetch_within_def answers_def)
      then show thesis by (intro that(3)) auto
    qed
  qed
qed

lemma fetch_ok:
  assumes "cache_ok past c" and past': "past' = past @ [(da, now, stamp, inner, h)]"
  obtains c' r where "fetch_within da now stamp inner c h = Some (c', r)" "cache_ok past' c'" "nc_max_entries c' = nc_max_entries c"
    "\<forall>j. da_delete da j \<Longrightarrow> tight c \<Longrightarrow> tight c'"
    "\<And>resp. r = Ok resp \<Longrightarrow> snd (read_fresh da now c h) = None \<Longrightarrow> \<exists>up. inner h = Ok up \<and> answers up resp"
proof -
  have ok: "cache_ok past' c" using assms by (intro cache_ok_mono [OF assms(1)]) auto
  have rf: "read_fresh da now c h = (c, snd (read_fresh da now c h))" using read_fresh_ok(1) [OF assms(1), of da now h] by (metis prod.collapse)
  show thesis
  proof (cases "snd (read_fresh da now c h)")
    case (Some e)
    then show thesis using rf ok by (intro that) (auto simp: fetch_within_def)
  next
    case miss: None
    then have rf: "read_fresh da now c h = (c, None)" using rf by simp
    show thesis
    proof (cases "inner h")
      case (Inl e)
      then show thesis using rf ok by (intro that) (auto simp: fetch_within_def)
    next
      case up: (Inr up)
      note cause = caused_by_def [of past' h, unfolded past']
      consider (neg) "rs_status up = 404" | (pos) bytes where "rs_status up = 200" "rs_body up = Ok bytes" "length bytes \<le> MAX_NARINFO_BYTES"
          "cacheable (rs_headers up) bytes"
        | (skip) r where "fetch_within da now stamp inner c h = Some (c, r)" "\<forall>resp. r = Ok resp \<longrightarrow> answers up resp"
        by (rule fetch_miss_cases [where inner = inner and h = h and da = da and stamp = stamp, OF rf up])
      then show thesis
      proof cases
        case neg
        let ?e = "\<lparr> e_kind = Negative, e_fetched_at = stamp, e_body = [] \<rparr>"
        have "caused_by past' h ?e" using up neg by (auto simp: cause past')
        moreover have "entry_ok ?e" by (simp add: entry_ok_def)
        ultimately obtain c' where "install_entry da c h ?e = Some c'" "cache_ok past' c'" "nc_max_entries c' = nc_max_entries c"
          "\<forall>j. da_delete da j \<Longrightarrow> tight c \<Longrightarrow> tight c'"
          using install_entry_ok [OF ok, of ?e h da] unfolding tight_def by metis
        then show thesis using rf up neg by (intro that) (auto simp: fetch_within_def answers_def negative_response_def)
      next
        case pos
        let ?e = "\<lparr> e_kind = Positive, e_fetched_at = stamp, e_body = bytes \<rparr>"
        have "caused_by past' h ?e" using up pos by (auto simp: cause past')
        moreover have "entry_ok ?e" using pos max_narinfo_small by (simp add: entry_ok_def cacheable_def)
        ultimately obtain c' where "install_entry da c h ?e = Some c'" "cache_ok past' c'" "nc_max_entries c' = nc_max_entries c"
          "\<forall>j. da_delete da j \<Longrightarrow> tight c \<Longrightarrow> tight c'"
          using install_entry_ok [OF ok, of ?e h da] unfolding tight_def by metis
        then show thesis using rf up pos by (intro that) (auto simp: fetch_within_def answers_def)
      next
        case skip
        then show thesis using ok up by (intro that [of c r]) auto
      qed
    qed
  qed
qed



section \<open>Properties\<close>

fun run_fetches :: "narinfo_cache \<Rightarrow> fetch_event list \<Rightarrow> narinfo_cache option" where
  "run_fetches c [] = Some c"
| "run_fetches c ((da, now, stamp, inner, h) # events) =
     Option.bind (fetch_within da now stamp inner c h) (\<lambda>(c, r). run_fetches c events)"

lemma run_fetches_ok:
  assumes "cache_ok past c"
  obtains c' where "run_fetches c events = Some c'" "cache_ok (past @ events) c'" "nc_max_entries c' = nc_max_entries c"
    "\<forall>(da, now, stamp, inner, h) \<in> set events. \<forall>j. da_delete da j \<Longrightarrow> tight c \<Longrightarrow> tight c'"
proof -
  have "\<exists>c'. run_fetches c events = Some c' \<and> cache_ok (past @ events) c' \<and> nc_max_entries c' = nc_max_entries c \<and>
      ((\<forall>(da, now, stamp, inner, h) \<in> set events. \<forall>j. da_delete da j) \<longrightarrow> tight c \<longrightarrow> tight c')"
    using assms
  proof (induction events arbitrary: past c)
    case (Cons event events)
    obtain da now stamp inner h where e: "event = (da, now, stamp, inner, h)" by (cases event) auto
    from fetch_ok [OF Cons.prems refl, of da now stamp inner h] obtain c1 r where
      f: "fetch_within da now stamp inner c h = Some (c1, r)" "cache_ok (past @ [event]) c1" "nc_max_entries c1 = nc_max_entries c"
        "\<forall>j. da_delete da j \<Longrightarrow> tight c \<Longrightarrow> tight c1" unfolding e by metis
    from Cons.IH [OF f(2)] obtain c' where "run_fetches c1 events = Some c'" "cache_ok ((past @ [event]) @ events) c'"
      "nc_max_entries c' = nc_max_entries c1"
      "(\<forall>(da, now, stamp, inner, h) \<in> set events. \<forall>j. da_delete da j) \<longrightarrow> tight c1 \<longrightarrow> tight c'" by blast
    then show ?case using f by (intro exI [of _ c']) (auto simp: e)
  qed simp
  then show thesis using that by blast
qed

lemma open_empty:
  assumes "0 < max_entries"
  shows "\<exists>c. open_cache da max_entries [] None = Some c \<and> cache_ok [] c \<and> tight c \<and> nc_max_entries c = max_entries"
proof -
  have "evict_over_cap max_entries None book_default [] = Some (book_default, [])"
    by (simp add: evict_over_cap.simps book_default_def)
  then show ?thesis using assms
    by (simp add: open_cache_def load_index_def read_sidecar_def rebuild_from_scan_def trim_to_cap_def delete_entry_files_def
      cache_ok_def tight_def) (simp add: book_default_def)
qed

text \<open>
  C12: The narinfo cache only serves what the upstream sent. Open it on an empty directory and let it serve any requests,
  whatever the disk does. A successful answer then has the status and, for a narinfo, the bytes of an upstream answer
  for this store hash: the one the request just got, or one that an earlier request got less than thirty days ago for a
  narinfo and less than an hour ago for an absence.
\<close>
theorem cache_serves_upstream_bytes:
  assumes "0 < max_entries" "open_cache da0 max_entries [] None = Some c0" "run_fetches c0 past = Some c"
    "fetch_within da now stamp inner c h = Some (c', Ok resp)"
  shows "(\<exists>up. inner h = Ok up \<and> answers up resp) \<or>
    (\<exists>(_, _, t, inner, h') \<in> set past. h' = h \<and> (\<exists>up. inner h = Ok up \<and> answers up resp \<and>
      (rs_status up = 200 \<and> unat now - unat t < POSITIVE_TTL \<or> rs_status up = 404 \<and> unat now - unat t < NEGATIVE_TTL)))"
proof -
  have "cache_ok [] c0" using open_empty [OF assms(1), of da0] assms(2) by auto
  then have ok: "cache_ok past c" by (rule run_fetches_ok [of "[]" c0 past]) (use assms(3) in auto)
  show ?thesis
  proof (cases "snd (read_fresh da now c h)")
    case None
    have "\<exists>up. inner h = Ok up \<and> answers up resp"
      by (rule fetch_ok [where da = da and inner = inner and now = now and stamp = stamp and h = h, OF ok refl]) (use assms(4) None in auto)
    then show ?thesis ..
  next
    case (Some e)
    have cause: "caused_by past h e" and ttl: "unat now - unat (e_fetched_at e) < (case e_kind e of Positive \<Rightarrow> POSITIVE_TTL | Negative \<Rightarrow> NEGATIVE_TTL)"
      using read_fresh_ok(2) [OF ok Some] by auto
    have "read_fresh da now c h = (c, Some e)" using read_fresh_ok(1) [OF ok, of da now h] Some by (metis prod.collapse)
    then have resp: "resp = (case e_kind e of Positive \<Rightarrow> positive_response (e_body e) | Negative \<Rightarrow> negative_response)"
      using assms(4) by (simp add: fetch_within_def)
    from cause obtain da' now' t inner' up where ev: "(da', now', t, inner', h) \<in> set past" "inner' h = Ok up" "e_fetched_at e = t"
      "e_kind e = Negative \<and> rs_status up = 404 \<or> e_kind e = Positive \<and> rs_status up = 200 \<and> rs_body up = Ok (e_body e)"
      unfolding caused_by_def by blast
    then have "answers up resp \<and> (rs_status up = 200 \<and> unat now - unat t < POSITIVE_TTL \<or> rs_status up = 404 \<and> unat now - unat t < NEGATIVE_TTL)"
      using ttl by (auto simp: resp answers_def positive_response_def negative_response_def)
    then show ?thesis using ev(2) by (intro disjI2 bexI [OF _ ev(1)]) auto
  qed
qed

lemma fetch_installs:
  assumes "cache_ok past c" "safe_key h \<noteq> None" "da_entry da" "snd (read_fresh da now c h) = None"
    "inner h = Ok up" "rs_status up = 200" "rs_body up = Ok bytes" "length bytes \<le> MAX_NARINFO_BYTES" "cacheable (rs_headers up) bytes"
  obtains c' where "fetch_within da now stamp inner c h = Some (c', Ok \<lparr> rs_status = 200, rs_headers = rs_headers up, rs_body = Ok bytes \<rparr>)"
    "hm_get (nc_entries c') h = Some (encode_entry \<lparr> e_kind = Positive, e_fetched_at = stamp, e_body = bytes \<rparr>)"
    "entry_ok \<lparr> e_kind = Positive, e_fetched_at = stamp, e_body = bytes \<rparr>"
proof -
  let ?e = "\<lparr> e_kind = Positive, e_fetched_at = stamp, e_body = bytes \<rparr>" and ?past = "past @ [(da, now, stamp, inner, h)]"
  have ok: "cache_ok ?past c" by (rule cache_ok_mono [OF assms(1)]) auto
  have e: "entry_ok ?e" using assms(8,9) max_narinfo_small by (simp add: entry_ok_def cacheable_def)
  have "caused_by ?past h ?e" using assms(5-7) by (auto simp: caused_by_def)
  from install_entry_ok [OF ok e this, of da] assms(2,3) obtain c' where
    c': "install_entry da c h ?e = Some c'" "hm_get (nc_entries c') h = Some (encode_entry ?e)" by metis
  have "read_fresh da now c h = (c, None)" using read_fresh_ok(1) [OF assms(1), of da now h] assms(4) by (metis prod.collapse)
  then have "fetch_within da now stamp inner c h = Some (c', Ok \<lparr> rs_status = 200, rs_headers = rs_headers up, rs_body = Ok bytes \<rparr>)"
    using assms(5-9) c'(1) by (simp add: fetch_within_def)
  then show thesis using c'(2) e by (rule that)
qed

text \<open>A request for another store hash keeps an entry file, while the hashes in the index and the requested one fit
  the maximum.\<close>

definition indexed :: "narinfo_cache \<Rightarrow> string set" where
  "indexed c = dom (hm_get (bk_records (nc_book c)))"

definition requested :: "fetch_event list \<Rightarrow> string set" where
  "requested events = (\<lambda>(da, now, stamp, inner, h). h) ` set events"

lemma install_keeps:
  assumes "cache_ok past c" "finite S" "card S \<le> nc_max_entries c" "indexed c \<subseteq> S" "j \<in> S" "install_entry da c j e = Some c'"
  shows "indexed c' \<subseteq> S" "j \<noteq> h \<Longrightarrow> hm_get (nc_entries c') h = hm_get (nc_entries c) h"
proof -
  have "indexed c' \<subseteq> S \<and> (j \<noteq> h \<longrightarrow> hm_get (nc_entries c') h = hm_get (nc_entries c) h)"
  proof (cases "safe_key j = None \<or> \<not> da_entry da")
    case True
    then have "c' = c" using assms(6) by (auto simp: install_entry_def split: option.splits)
    then show ?thesis using assms(4) by simp
  next
    case False
    then have key: "safe_key j = Some j" using safe_key_Some [of j] by auto
    let ?book = "book_insert (book_remove (nc_book c) j) j (e_fetched_at e) (entry_token e)"
    have dom: "dom (hm_get (bk_records ?book)) \<subseteq> S"
      using assms(4,5) by (fastforce simp: indexed_def split: if_splits)
    have "book_ok ?book" using assms(1) by (intro book_ok_replace) (simp add: cache_ok_def)
    then have "length (bk_records ?book) = card (dom (hm_get (bk_records ?book)))"
      by (intro hm_keys_card) (simp add: book_ok_def)
    also have "\<dots> \<le> card S" using dom assms(2) by (intro card_mono) auto
    finally have "evict_over_cap (nc_max_entries c) (Some j) ?book [] = Some (?book, [])"
      using assms(3) by (simp add: evict_over_cap.simps)
    then have "nc_book c' = ?book" "nc_entries c' = hm_insert (nc_entries c) j (encode_entry e)"
      using assms(6) key False by (auto simp: install_entry_def record_and_evict_def delete_entry_files_def)
    then show ?thesis using dom by (simp add: indexed_def)
  qed
  then show "indexed c' \<subseteq> S" "j \<noteq> h \<Longrightarrow> hm_get (nc_entries c') h = hm_get (nc_entries c) h" by blast+
qed

lemma fetch_keeps:
  assumes "cache_ok past c" "finite S" "card S \<le> nc_max_entries c" "indexed c \<subseteq> S" "j \<in> S"
    "fetch_within da now stamp inner c j = Some (c', r)"
  shows "indexed c' \<subseteq> S \<and> (j \<noteq> h \<longrightarrow> hm_get (nc_entries c') h = hm_get (nc_entries c) h)"
proof -
  have rf: "read_fresh da now c j = (c, snd (read_fresh da now c j))" using read_fresh_ok(1) [OF assms(1), of da now j] by (metis prod.collapse)
  have "c' = c \<or> (\<exists>e. install_entry da c j e = Some c')"
    using assms(6) unfolding fetch_within_def
    by (subst (asm) rf) (auto split: option.splits sum.splits if_splits)
  then show ?thesis using install_keeps [OF assms(1-5)] assms(4) by blast
qed

lemma run_keeps:
  assumes "cache_ok past c" "finite S" "card S \<le> nc_max_entries c" "indexed c \<subseteq> S" "requested events \<subseteq> S"
    "hm_get (nc_entries c) h = Some (encode_entry e)" "entry_ok e" "e_kind e = Positive" "safe_key h \<noteq> None"
    "\<forall>(da, now, stamp, inner, j) \<in> set events. j = h \<longrightarrow> da_read da h \<and> unat now - unat (e_fetched_at e) < POSITIVE_TTL"
  shows "\<exists>c'. run_fetches c events = Some c' \<and> hm_get (nc_entries c') h = Some (encode_entry e)"
  using assms
proof (induction events arbitrary: past c)
  case (Cons event events)
  obtain da now stamp inner j where ev: "event = (da, now, stamp, inner, j)" by (cases event) auto
  obtain c1 r where f: "fetch_within da now stamp inner c j = Some (c1, r)" "cache_ok (past @ [event]) c1"
    "nc_max_entries c1 = nc_max_entries c"
    using fetch_ok [OF Cons.prems(1) refl, of da now stamp inner j] unfolding ev by metis
  have j: "j \<in> S" using Cons.prems(5) by (auto simp: requested_def ev)
  note keep = fetch_keeps [OF Cons.prems(1-4) j f(1), of h]
  have "hm_get (nc_entries c1) h = Some (encode_entry e)"
  proof (cases "j = h")
    case True
    then have "read_fresh da now c h = (c, Some e)"
      using Cons.prems(8,10) by (intro read_fresh_hit [OF Cons.prems(6,7,9)]) (auto simp: ev)
    then have "c1 = c" using f(1) True by (simp add: fetch_within_def)
    then show ?thesis using Cons.prems(6) by simp
  next
    case False
    then show ?thesis using keep Cons.prems(6) by simp
  qed
  moreover have "requested events \<subseteq> S" using Cons.prems(5) by (auto simp: requested_def)
  ultimately have "\<exists>c'. run_fetches c1 events = Some c' \<and> hm_get (nc_entries c') h = Some (encode_entry e)"
    using Cons.IH [OF f(2) Cons.prems(2)] Cons.prems(3,7-10) f(3) keep by auto
  then show ?case using f(1) by (simp add: ev)
qed auto

text \<open>
  C20: A cached narinfo is served without the upstream. Take a cache that was opened on an empty directory and has served any
  requests, and a request that misses and whose upstream answers with a cacheable narinfo, on a disk that accepts the
  file. The request returns with these bytes. After any further requests, the store hash is answered with the same bytes
  within thirty days of the download, by a clock that may have moved back, whatever the upstream would say, on two
  conditions: the hashes in the index and those requested since together fit the configured maximum, so that nothing is
  evicted, and every request for this store hash can read its file and is within the thirty days.
\<close>
theorem cached_narinfo_is_served:
  assumes "0 < max_entries" "open_cache da0 max_entries [] None = Some c0" "run_fetches c0 past = Some c"
    "safe_key h \<noteq> None" "da_entry da" "snd (read_fresh da now c h) = None"
    "inner h = Ok up" "rs_status up = 200" "rs_body up = Ok bytes" "length bytes \<le> MAX_NARINFO_BYTES" "cacheable (rs_headers up) bytes"
  shows "\<exists>c1 resp. fetch_within da now stamp inner c h = Some (c1, Ok resp) \<and> rs_body resp = Ok bytes \<and>
    (\<forall>events da' later stamp' inner'.
      card (indexed c1 \<union> requested events) \<le> max_entries \<and>
      (\<forall>(da, now, _, _, j) \<in> set events. j = h \<longrightarrow> da_read da h \<and> unat now - unat stamp < POSITIVE_TTL) \<and>
      da_read da' h \<and> unat later - unat stamp < POSITIVE_TTL \<longrightarrow>
      (\<exists>c'. run_fetches c1 events = Some c' \<and>
        fetch_within da' later stamp' inner' c' h = Some (c', Ok (positive_response bytes))))"
proof -
  have c0: "cache_ok [] c0" "nc_max_entries c0 = max_entries" using open_empty [OF assms(1), of da0] assms(2) by auto
  obtain c2 where "run_fetches c0 past = Some c2" "cache_ok ([] @ past) c2" "nc_max_entries c2 = nc_max_entries c0"
    by (rule run_fetches_ok [OF c0(1), of past]) blast
  then have ok: "cache_ok past c" and m: "nc_max_entries c = max_entries" using assms(3) c0(2) by auto
  let ?e = "\<lparr> e_kind = Positive, e_fetched_at = stamp, e_body = bytes \<rparr>"
  obtain c1 where f: "fetch_within da now stamp inner c h = Some (c1, Ok \<lparr> rs_status = 200, rs_headers = rs_headers up, rs_body = Ok bytes \<rparr>)"
    and stored: "hm_get (nc_entries c1) h = Some (encode_entry ?e)" and e: "entry_ok ?e"
    by (rule fetch_installs [where da = da and now = now and inner = inner and stamp = stamp, OF ok assms(4-11)])
  obtain c3 r where "fetch_within da now stamp inner c h = Some (c3, r)" "cache_ok (past @ [(da, now, stamp, inner, h)]) c3"
    "nc_max_entries c3 = nc_max_entries c"
    by (rule fetch_ok [where da = da and now = now and stamp = stamp and inner = inner and h = h, OF ok refl]) blast
  then have ok1: "cache_ok (past @ [(da, now, stamp, inner, h)]) c1" and m1: "nc_max_entries c1 = max_entries" using f m by auto
  have fin: "finite (indexed c1 \<union> requested events)" for events
    by (simp add: indexed_def requested_def)
  have "\<exists>c'. run_fetches c1 events = Some c' \<and> fetch_within da' later stamp' inner' c' h = Some (c', Ok (positive_response bytes))"
    if fit: "card (indexed c1 \<union> requested events) \<le> max_entries"
      and reads: "\<forall>(da, now, _, _, j) \<in> set events. j = h \<longrightarrow> da_read da h \<and> unat now - unat stamp < POSITIVE_TTL"
      and late: "da_read da' h" "unat later - unat stamp < POSITIVE_TTL" for events da' later stamp' inner'
  proof -
    obtain c' where c': "run_fetches c1 events = Some c'" "hm_get (nc_entries c') h = Some (encode_entry ?e)"
      using run_keeps [OF ok1 fin _ _ _ stored e, of events] fit reads m1 assms(4) by auto
    have "read_fresh da' later c' h = (c', Some ?e)"
      by (rule read_fresh_hit [OF c'(2) e assms(4)]) (use late in simp_all)
    then show ?thesis using c'(1) by (simp add: fetch_within_def)
  qed
  then show ?thesis using f by (intro exI [of _ c1]) auto
qed

text \<open>
  C37: The cache directory is bounded. From an empty directory, after any requests on a disk that deletes what it is told
  to delete, there are at most as many entry files as the configured maximum, whether or not the writes succeeded.
\<close>
theorem cache_files_bounded:
  assumes "0 < max_entries" "open_cache da0 max_entries [] None = Some c0"
    "\<forall>(da, now, stamp, inner, h) \<in> set events. \<forall>j. da_delete da j"
  shows "\<exists>c. run_fetches c0 events = Some c \<and> length (nc_entries c) \<le> max_entries"
proof -
  have c0: "cache_ok [] c0" "tight c0" "nc_max_entries c0 = max_entries" using open_empty [OF assms(1), of da0] assms(2) by auto
  obtain c where run: "run_fetches c0 events = Some c" and ok: "cache_ok ([] @ events) c" and m: "nc_max_entries c = nc_max_entries c0"
    and t: "tight c"
    by (rule run_fetches_ok [OF c0(1), of events]) (use assms(3) c0(2) in blast)
  have "length (nc_entries c) = card (dom (hm_get (nc_entries c)))" using ok by (intro hm_keys_card) (simp add: cache_ok_def)
  also have "\<dots> \<le> card (dom (hm_get (bk_records (nc_book c))))" using t by (intro card_mono) (auto simp: tight_def)
  also have "\<dots> = length (bk_records (nc_book c))" using ok by (intro hm_keys_card [symmetric]) (simp add: cache_ok_def book_ok_def)
  also have "\<dots> \<le> max_entries" using ok m c0(3) by (simp add: cache_ok_def)
  finally show ?thesis using run by blast
qed


section \<open>Witnesses\<close>

definition example_lines :: "string list" where
  "example_lines = [''StorePath:/nix/store/a'', ''URL:nar/a.nar'', ''NarHash:sha256:a'', ''NarSize:'' @ decimal 7,
     ''References:'', ''Sig:k:s'']"

definition example_narinfo :: string where "example_narinfo = unlines example_lines"
definition example_hash :: store_hash where "example_hash = replicate 32 CHR ''a''"

definition example_disk :: disk_answers where
  "example_disk = \<lparr> da_read = (\<lambda>_. True), da_entry = True, da_index = True, da_delete = (\<lambda>_. True) \<rparr>"

definition example_up :: upstream_response where
  "example_up = \<lparr> rs_status = 200, rs_headers = [], rs_body = Ok example_narinfo \<rparr>"

definition example_cache :: narinfo_cache where
  "example_cache = \<lparr> nc_max_entries = 3, nc_entries = [], nc_index = Some (INDEX_MAGIC @ [NEWLINE]), nc_book = book_default \<rparr>"

lemma example_str_lines: "str_lines example_narinfo = example_lines"
proof -
  have "list_all plain_line example_lines"
    using graphic_free [OF decimal_graphic [of 7]] by (auto simp: example_lines_def plain_line_def NEWLINE_def CARRIAGE_RETURN_def)
  then show ?thesis unfolding example_narinfo_def by (rule str_lines_unlines)
qed

lemma example_utf8: "utf8 (map of_char example_narinfo)"
proof (rule utf8_ascii)
  have "of_char c < (0x80 :: nat)" if "c \<in> set example_narinfo" for c
    using that decimal_graphic [of 7]
    by (auto simp: example_narinfo_def example_lines_def NEWLINE_def list_all_iff graphic_def)
  then show "\<forall>x \<in> set (map of_char example_narinfo). x < (0x80 :: nat)" by simp
qed

lemma example_well_formed: "is_well_formed_narinfo example_narinfo"
proof -
  have "parse_u64 (decimal 7) = Some 7" using parse_u64_decimal [of 7] by simp
  moreover have "str_trim (decimal 7) = decimal 7" "decimal 7 \<noteq> []"
    using decimal_graphic [of 7] by (auto intro!: str_trim_graphic simp: list_all_iff)
  ultimately show ?thesis
    by (simp add: is_well_formed_narinfo_def from_utf8_def example_utf8 example_str_lines example_lines_def strip_prefix_def
      str_trim_graphic graphic_def)
qed

lemma example_cacheable: "cacheable [] example_narinfo" "length example_narinfo \<le> MAX_NARINFO_BYTES"
  "safe_key example_hash = Some example_hash"
proof -
  show "cacheable [] example_narinfo"
    by (simp add: cacheable_def example_well_formed has_unsupported_transfer_coding_def connection_header_is_malformed_def
      has_ambiguous_framing_def get_all_def)
  show "length example_narinfo \<le> MAX_NARINFO_BYTES"
    by (simp add: example_narinfo_def example_lines_def MAX_NARINFO_BYTES_def decimal.simps)
  show "safe_key example_hash = Some example_hash"
    by (simp add: safe_key_def example_hash_def STORE_HASH_LEN_def NIX_BASE32_def list_all_iff)
qed

lemma example_open: "open_cache example_disk 3 [] None = Some example_cache"
  by (simp add: open_cache_def load_index_def read_sidecar_def rebuild_from_scan_def trim_to_cap_def evict_over_cap.simps
    delete_entry_files_def write_sidecar_bytes_def serialize_sidecar_def book_default_def example_cache_def example_disk_def)

lemma example_cache_ok: "cache_ok [] example_cache" "snd (read_fresh example_disk now example_cache h) = None"
proof -
  show "cache_ok [] example_cache" using open_empty [of 3 example_disk] by (simp add: example_open)
  have "read_entry_file example_disk example_cache h = None"
    by (cases "safe_key h") (simp_all add: read_entry_file_def example_cache_def)
  then show "snd (read_fresh example_disk now example_cache h) = None" by (simp add: read_fresh_def)
qed

lemma example_safe: "safe_key example_hash \<noteq> None"
  by (simp add: safe_key_def example_hash_def STORE_HASH_LEN_def NIX_BASE32_def list_all_iff)

lemma example_run:
  obtains c where "run_fetches example_cache [(example_disk, 5, 6, \<lambda>_. Ok example_up, example_hash)] = Some c"
    "fetch_within example_disk 9 9 (\<lambda>_. Err (Upstream ''down'')) c example_hash = Some (c, Ok (positive_response example_narinfo))"
proof (rule fetch_installs [where now = 5 and stamp = 6 and inner = "\<lambda>_. Ok example_up" and up = example_up
    and da = example_disk and h = example_hash, OF example_cache_ok(1) example_safe _ example_cache_ok(2) refl])
  fix c
  assume f: "fetch_within example_disk 5 6 (\<lambda>_. Ok example_up) example_cache example_hash =
      Some (c, Ok \<lparr> rs_status = 200, rs_headers = rs_headers example_up, rs_body = Ok example_narinfo \<rparr>)"
    and "hm_get (nc_entries c) example_hash = Some (encode_entry \<lparr> e_kind = Positive, e_fetched_at = 6, e_body = example_narinfo \<rparr>)"
    and "entry_ok \<lparr> e_kind = Positive, e_fetched_at = 6, e_body = example_narinfo \<rparr>"
  then have "read_fresh example_disk 9 c example_hash = (c, Some \<lparr> e_kind = Positive, e_fetched_at = 6, e_body = example_narinfo \<rparr>)"
    using example_safe by (intro read_fresh_hit) (simp_all add: example_disk_def POSITIVE_TTL_def)
  then show thesis
    by (intro that [of c]) (use f in \<open>simp_all add: fetch_within_def\<close>)
qed (simp_all add: example_up_def example_cacheable example_disk_def)

theorem cache_serves_upstream_bytes_witness:
  "\<exists>c resp. run_fetches example_cache [(example_disk, 5, 6, \<lambda>_. Ok example_up, example_hash)] = Some c \<and>
    fetch_within example_disk 9 9 (\<lambda>_. Err (Upstream ''down'')) c example_hash = Some (c, Ok resp) \<and> answers example_up resp"
proof -
  obtain c where c: "run_fetches example_cache [(example_disk, 5, 6, \<lambda>_. Ok example_up, example_hash)] = Some c"
    "fetch_within example_disk 9 9 (\<lambda>_. Err (Upstream ''down'')) c example_hash = Some (c, Ok (positive_response example_narinfo))"
    by (rule example_run)
  have "answers example_up (positive_response example_narinfo)"
    using cache_serves_upstream_bytes [OF _ example_open c] by simp
  then show ?thesis using c by blast
qed

lemma example_indexed:
  assumes "fetch_within example_disk 5 6 (\<lambda>_. Ok example_up) example_cache example_hash = Some (c, r)"
  shows "indexed c \<subseteq> {example_hash}"
  by (rule fetch_keeps [OF example_cache_ok(1) _ _ _ _ assms, THEN conjunct1])
    (simp_all add: example_cache_def indexed_def book_default_def dom_def)

theorem cached_narinfo_is_served_witness:
  "\<exists>c1 resp c'. fetch_within example_disk 5 6 (\<lambda>_. Ok example_up) example_cache example_hash = Some (c1, Ok resp) \<and>
    rs_body resp = Ok example_narinfo \<and>
    run_fetches c1 [(example_disk, 7, 7, \<lambda>_. Err (Upstream ''down''), replicate 32 CHR ''b'')] = Some c' \<and>
    fetch_within example_disk 2000 2000 (\<lambda>_. Err (Upstream ''down'')) c' example_hash = Some (c', Ok (positive_response example_narinfo))"
proof -
  let ?between = "[(example_disk, 7, 7, \<lambda>_. Err (Upstream ''down''), replicate 32 CHR ''b'')] :: fetch_event list"
  have "\<exists>c1 resp. fetch_within example_disk 5 6 (\<lambda>_. Ok example_up) example_cache example_hash = Some (c1, Ok resp) \<and>
    rs_body resp = Ok example_narinfo \<and>
    (\<forall>events da' later stamp' inner'.
      card (indexed c1 \<union> requested events) \<le> 3 \<and>
      (\<forall>(da, now, _, _, j) \<in> set events. j = example_hash \<longrightarrow> da_read da example_hash \<and> unat now - unat (6 :: u64) < POSITIVE_TTL) \<and>
      da_read da' example_hash \<and> unat later - unat (6 :: u64) < POSITIVE_TTL \<longrightarrow>
      (\<exists>c'. run_fetches c1 events = Some c' \<and>
        fetch_within da' later stamp' inner' c' example_hash = Some (c', Ok (positive_response example_narinfo))))"
    by (rule cached_narinfo_is_served [where up = example_up and past = "[]", OF _ example_open _ example_safe _ example_cache_ok(2) refl])
      (simp_all add: example_up_def example_cacheable, simp add: example_disk_def)
  then obtain c1 resp where f: "fetch_within example_disk 5 6 (\<lambda>_. Ok example_up) example_cache example_hash = Some (c1, Ok resp)" "rs_body resp = Ok example_narinfo"
    and later: "card (indexed c1 \<union> requested ?between) \<le> 3 \<and>
      (\<forall>(da, now, _, _, j) \<in> set ?between. j = example_hash \<longrightarrow> da_read da example_hash \<and> unat now - unat (6 :: u64) < POSITIVE_TTL) \<and>
      da_read example_disk example_hash \<and> unat (2000 :: u64) - unat (6 :: u64) < POSITIVE_TTL \<Longrightarrow>
      (\<exists>c'. run_fetches c1 ?between = Some c' \<and>
        fetch_within example_disk 2000 2000 (\<lambda>_. Err (Upstream ''down'')) c' example_hash = Some (c', Ok (positive_response example_narinfo)))"
    by blast
  have "card (indexed c1 \<union> requested ?between) \<le> card {example_hash, replicate 32 CHR ''b''}"
    using example_indexed [OF f(1)] by (intro card_mono) (auto simp: requested_def)
  also have "\<dots> \<le> 3" by (simp add: card_insert_if)
  finally have "\<exists>c'. run_fetches c1 ?between = Some c' \<and>
      fetch_within example_disk 2000 2000 (\<lambda>_. Err (Upstream ''down'')) c' example_hash = Some (c', Ok (positive_response example_narinfo))"
    by (intro later) (simp add: example_disk_def POSITIVE_TTL_def)
  then show ?thesis using f by blast
qed

theorem cache_files_bounded_witness:
  "\<exists>c. run_fetches example_cache [(example_disk, 5, 6, \<lambda>_. Ok example_up, example_hash)] = Some c \<and> length (nc_entries c) \<le> 3"
  by (rule cache_files_bounded [OF _ example_open]) (simp_all add: example_disk_def)

text \<open>
  An expired entry is a miss, but its file stays where it is.
\<close>
theorem expired_entry_stays:
  assumes "read_entry_file da c h = Some raw" "decode_entry raw = Some e"
    "(case e_kind e of Positive \<Rightarrow> POSITIVE_TTL | Negative \<Rightarrow> NEGATIVE_TTL) \<le> unat now - unat (e_fetched_at e)"
  shows "read_fresh da now c h = (c, None)"
  using assms by (simp add: read_fresh_def unat_saturating_sub Let_def)

end
