(* ===== verification/Supply_Catalog.thy ===== *)
theory Supply_Catalog
  imports Ids Hash_Map
begin

text \<open>
  The catalog that a provider probes, \<^verbatim>\<open>daemon-core/src/supply_catalog.rs\<close>: records by digest and by the
  registration that owns them. The shared state is behind a mutex; its address tells the catalogs apart. The calls are
  also given as threads that interleave at the points where the code does not hold the mutex.
\<close>

section \<open>Definitions\<close>

datatype nar_production_source = Process string "string list" | RegularFile string | Memory bytes

record supply_catalog_record =
  sc_declared_size :: u64
  sc_source :: nar_production_source
  sc_store_path :: string

record catalog_state =
  cs_next_registration :: u64
  cs_owners :: "(u64, blake3_digest option) hash_map"
  cs_records :: "(blake3_digest, (u64, supply_catalog_record) hash_map) hash_map"

definition catalog_state_default :: catalog_state where
  "catalog_state_default = \<lparr> cs_next_registration = 0, cs_owners = [], cs_records = [] \<rparr>"

text \<open>The entry of an ordered map with the least key.\<close>

definition first_key_value :: "('k::linorder, 'v) hash_map \<Rightarrow> ('k \<times> 'v) option" where
  "first_key_value m =
     (if m = [] then None
      else let k = Min (fst ` set m) in map_option (Pair k) (hm_get m k))"

text \<open>\<open>path_exists\<close> is the answer of the file system.\<close>

definition probe_record :: "(string \<Rightarrow> bool) \<Rightarrow> catalog_state \<Rightarrow> blake3_digest \<Rightarrow> supply_catalog_record option" where
  "probe_record path_exists state digest =
     Option.bind (map_option snd (Option.bind (hm_get (cs_records state) digest) first_key_value)) (\<lambda>record.
     if \<not> path_exists (sc_store_path record) then None else Some record)"

record supply_registration =
  rg_id :: u64
  rg_owner :: nat   \<comment> \<open>the address of the state it was made by\<close>
  rg_retired :: bool

definition belongs_to :: "supply_registration \<Rightarrow> nat \<Rightarrow> bool" where
  "belongs_to registration state_addr \<longleftrightarrow> rg_owner registration = state_addr"

text \<open>No result stands for the panic when the identifiers are exhausted.\<close>

definition register_supply :: "nat \<Rightarrow> catalog_state \<Rightarrow> (supply_registration \<times> catalog_state) option" where
  "register_supply addr state =
     map_option (\<lambda>i. (\<lparr> rg_id = i, rg_owner = addr, rg_retired = False \<rparr>,
       state\<lparr> cs_next_registration := i, cs_owners := hm_insert (cs_owners state) i None \<rparr>))
     (checked_add (cs_next_registration state) 1)"

definition remove_record :: "catalog_state \<Rightarrow> blake3_digest \<Rightarrow> u64 \<Rightarrow> catalog_state" where
  "remove_record state digest registration =
     (case hm_get (cs_records state) digest of
        None \<Rightarrow> state
      | Some owners \<Rightarrow>
          (let owners = hm_remove owners registration
           in if owners = [] then state\<lparr> cs_records := hm_remove (cs_records state) digest \<rparr>
              else state\<lparr> cs_records := hm_insert (cs_records state) digest owners \<rparr>))"

text \<open>The part of a publication that holds the mutex, and the whole.\<close>

definition publish_locked ::
  "catalog_state \<Rightarrow> u64 \<Rightarrow> bool \<Rightarrow> blake3_digest \<Rightarrow> supply_catalog_record \<Rightarrow> catalog_state \<times> bool" where
  "publish_locked state i retired digest record =
     (case hm_get (cs_owners state) i of
        None \<Rightarrow> (state, False)
      | Some previous_digest \<Rightarrow>
          if retired then (state, False)
          else
            let state = (case previous_digest of
                  Some d \<Rightarrow> if d \<noteq> digest then remove_record state d i else state
                | None \<Rightarrow> state)
            in (state\<lparr> cs_owners := hm_insert (cs_owners state) i (Some digest),
                       cs_records := hm_insert (cs_records state) digest
                         (hm_insert (hm_entry_or (cs_records state) digest []) i record) \<rparr>, True))"

definition publish_supply ::
  "nat \<Rightarrow> catalog_state \<Rightarrow> supply_registration \<Rightarrow> blake3_digest \<Rightarrow> supply_catalog_record \<Rightarrow> catalog_state \<times> bool" where
  "publish_supply addr state registration digest record =
     (if \<not> belongs_to registration addr then (state, False)
      else if rg_retired registration then (state, False)
      else publish_locked state (rg_id registration) (rg_retired registration) digest record)"

definition retire_locked :: "catalog_state \<Rightarrow> u64 \<Rightarrow> catalog_state" where
  "retire_locked state i =
     (let state' = state\<lparr> cs_owners := hm_remove (cs_owners state) i \<rparr>
      in case hm_get (cs_owners state) i of
           Some (Some digest) \<Rightarrow> remove_record state' digest i
         | _ \<Rightarrow> state')"

definition retire_supply :: "nat \<Rightarrow> catalog_state \<Rightarrow> supply_registration \<Rightarrow> supply_registration \<times> catalog_state" where
  "retire_supply addr state registration =
     (registration\<lparr> rg_retired := True \<rparr>,
      if \<not> belongs_to registration addr then state else retire_locked state (rg_id registration))"


section \<open>The catalog as a map of owners\<close>

definition record_at :: "catalog_state \<Rightarrow> blake3_digest \<Rightarrow> u64 \<Rightarrow> supply_catalog_record option" where
  "record_at state digest i = Option.bind (hm_get (cs_records state) digest) (\<lambda>m. hm_get m i)"

definition supply_of :: "catalog_state \<Rightarrow> u64 \<Rightarrow> (blake3_digest \<times> supply_catalog_record) option" where
  "supply_of state i =
     (case hm_get (cs_owners state) i of
        Some (Some digest) \<Rightarrow> map_option (Pair digest) (record_at state digest i)
      | _ \<Rightarrow> None)"

definition catalog_ok :: "catalog_state \<Rightarrow> bool" where
  "catalog_ok state \<longleftrightarrow>
     (\<forall>digest m. hm_get (cs_records state) digest = Some m \<longrightarrow> hm_ok m \<and> m \<noteq> []) \<and>
     (\<forall>digest i. record_at state digest i \<noteq> None \<longleftrightarrow> hm_get (cs_owners state) i = Some (Some digest)) \<and>
     (\<forall>i. hm_get (cs_owners state) i \<noteq> None \<longrightarrow> i \<le> cs_next_registration state)"

lemma catalog_ok_default [simp]: "catalog_ok catalog_state_default"
  by (simp add: catalog_ok_def catalog_state_default_def record_at_def)

lemma record_at_owner: "catalog_ok state \<Longrightarrow> record_at state digest i = Some r \<Longrightarrow> hm_get (cs_owners state) i = Some (Some digest)"
  by (force simp: catalog_ok_def)

lemma record_at_None: "catalog_ok state \<Longrightarrow> hm_get (cs_owners state) i \<noteq> Some (Some digest) \<Longrightarrow> record_at state digest i = None"
  using record_at_owner [of state digest i] by (cases "record_at state digest i") auto

lemma supply_of_iff: "catalog_ok state \<Longrightarrow> supply_of state i = Some (digest, r) \<longleftrightarrow> record_at state digest i = Some r"
  by (auto simp: supply_of_def dest: record_at_owner split: option.splits)

lemma remove_record_simps [simp]:
  "cs_owners (remove_record state digest i) = cs_owners state"
  "cs_next_registration (remove_record state digest i) = cs_next_registration state"
  by (simp_all add: remove_record_def Let_def split: option.split)

lemma record_at_remove:
  "record_at (remove_record state digest i) d j = (if d = digest \<and> j = i then None else record_at state d j)"
proof (cases "hm_get (cs_records state) digest")
  case None
  then show ?thesis by (auto simp: remove_record_def record_at_def)
next
  case (Some m)
  have "hm_get m j = None" if "hm_remove m i = []" "j \<noteq> i" for j
    using that hm_get_remove [of m i j] by simp
  then show ?thesis using Some by (auto simp: remove_record_def record_at_def Let_def)
qed

lemma remove_record_inner:
  assumes "\<forall>digest m. hm_get (cs_records state) digest = Some m \<longrightarrow> hm_ok m \<and> m \<noteq> []"
    "hm_get (cs_records (remove_record state digest i)) d = Some m"
  shows "hm_ok m \<and> m \<noteq> []"
  using assms by (auto simp: remove_record_def Let_def split: option.splits if_splits)

lemma record_at_insert:
  "record_at (state\<lparr> cs_owners := ow, cs_records := hm_insert (cs_records state) digest
      (hm_insert (hm_entry_or (cs_records state) digest []) i r) \<rparr>) d j =
    (if d = digest \<and> j = i then Some r else record_at state d j)"
  by (auto simp: record_at_def hm_entry_or_def split: option.splits)

lemma record_at_owners [simp]: "record_at (state\<lparr> cs_owners := ow \<rparr>) = record_at state"
  by (rule ext)+ (simp add: record_at_def)

lemma record_at_next [simp]: "record_at (state\<lparr> cs_next_registration := n \<rparr>) = record_at state"
  by (rule ext)+ (simp add: record_at_def)

lemma publish_locked_cases:
  assumes "catalog_ok state"
  obtains (refused) "publish_locked state i retired digest r = (state, False)" "hm_get (cs_owners state) i = None \<or> retired"
  | (published) state' where "publish_locked state i retired digest r = (state', True)" "\<not> retired"
    "hm_get (cs_owners state) i \<noteq> None" "catalog_ok state'" "cs_next_registration state' = cs_next_registration state"
    "\<forall>j. hm_get (cs_owners state') j = (if j = i then Some (Some digest) else hm_get (cs_owners state) j)"
    "\<forall>d j. record_at state' d j = (if j = i then if d = digest then Some r else None else record_at state d j)"
proof (cases "hm_get (cs_owners state) i = None \<or> retired")
  case True
  then show thesis by (intro refused) (auto simp: publish_locked_def split: option.split)
next
  case False
  then obtain prev where prev: "hm_get (cs_owners state) i = Some prev" "\<not> retired" by auto
  define st1 where "st1 = (case prev of Some d \<Rightarrow> if d \<noteq> digest then remove_record state d i else state | None \<Rightarrow> state)"
  define st2 where "st2 = st1\<lparr> cs_owners := hm_insert (cs_owners st1) i (Some digest),
    cs_records := hm_insert (cs_records st1) digest (hm_insert (hm_entry_or (cs_records st1) digest []) i r) \<rparr>"
  have run: "publish_locked state i retired digest r = (st2, True)"
    using prev by (simp add: publish_locked_def st1_def [symmetric] st2_def Let_def)
  have own: "\<forall>digest i. record_at state digest i \<noteq> None \<longleftrightarrow> hm_get (cs_owners state) i = Some (Some digest)"
    and inner: "\<forall>digest m. hm_get (cs_records state) digest = Some m \<longrightarrow> hm_ok m \<and> m \<noteq> []"
    and ids: "\<forall>i. hm_get (cs_owners state) i \<noteq> None \<longrightarrow> i \<le> cs_next_registration state"
    using assms by (auto simp: catalog_ok_def)
  have st1: "cs_owners st1 = cs_owners state" "cs_next_registration st1 = cs_next_registration state"
    by (simp_all add: st1_def split: option.split)
  have at1: "record_at st1 d j = (if j = i \<and> d \<noteq> digest then None else record_at state d j)" for d j
    using prev(1) record_at_None [OF assms] by (cases prev) (auto simp: st1_def record_at_remove)
  have inner1: "\<forall>d m. hm_get (cs_records st1) d = Some m \<longrightarrow> hm_ok m \<and> m \<noteq> []"
    using inner remove_record_inner [OF inner] by (auto simp: st1_def split: option.splits if_splits)
  have owners2: "\<forall>j. hm_get (cs_owners st2) j = (if j = i then Some (Some digest) else hm_get (cs_owners state) j)"
    by (simp add: st2_def st1)
  have at2: "\<forall>d j. record_at st2 d j = (if j = i then if d = digest then Some r else None else record_at state d j)"
    using at1 unfolding st2_def record_at_insert by simp
  have "catalog_ok st2"
    unfolding catalog_ok_def
  proof (intro conjI allI impI)
    show "hm_ok m" "m \<noteq> []" if "hm_get (cs_records st2) d = Some m" for d m
      using that inner1 by (auto simp: st2_def hm_entry_or_def split: if_splits option.splits)
    show "record_at st2 d j \<noteq> None \<longleftrightarrow> hm_get (cs_owners st2) j = Some (Some d)" for d j
      using own at2 owners2 by auto
    show "j \<le> cs_next_registration st2" if "hm_get (cs_owners st2) j \<noteq> None" for j
      using that ids prev owners2 by (auto simp: st2_def st1 split: if_splits)
  qed
  then show thesis using run prev st1 owners2 at2 by (intro published [of st2]) (auto simp: st2_def)
qed

lemma retire_locked_ok:
  assumes "catalog_ok state"
  shows "catalog_ok (retire_locked state i)" "cs_next_registration (retire_locked state i) = cs_next_registration state"
    "hm_get (cs_owners (retire_locked state i)) j = (if j = i then None else hm_get (cs_owners state) j)"
    "record_at (retire_locked state i) d j = (if j = i then None else record_at state d j)"
proof -
  have own: "\<forall>digest i. record_at state digest i \<noteq> None \<longleftrightarrow> hm_get (cs_owners state) i = Some (Some digest)"
    and inner: "\<forall>digest m. hm_get (cs_records state) digest = Some m \<longrightarrow> hm_ok m \<and> m \<noteq> []"
    and ids: "\<forall>i. hm_get (cs_owners state) i \<noteq> None \<longrightarrow> i \<le> cs_next_registration state"
    using assms by (auto simp: catalog_ok_def)
  show nxt: "cs_next_registration (retire_locked state i) = cs_next_registration state"
    by (simp add: retire_locked_def Let_def split: option.split)
  have owners: "hm_get (cs_owners (retire_locked state i)) j = (if j = i then None else hm_get (cs_owners state) j)" for j
    by (simp add: retire_locked_def Let_def split: option.split)
  then show "hm_get (cs_owners (retire_locked state i)) j = (if j = i then None else hm_get (cs_owners state) j)" .
  have at: "record_at (retire_locked state i) d j = (if j = i then None else record_at state d j)" for d j
    using record_at_None [OF assms] by (auto simp: retire_locked_def Let_def record_at_remove split: option.split)
  then show "record_at (retire_locked state i) d j = (if j = i then None else record_at state d j)" .
  show "catalog_ok (retire_locked state i)"
    unfolding catalog_ok_def
  proof (intro conjI allI impI)
    show "hm_ok m" "m \<noteq> []" if "hm_get (cs_records (retire_locked state i)) d = Some m" for d m
      using that inner remove_record_inner [of "state\<lparr> cs_owners := hm_remove (cs_owners state) i \<rparr>" _ i d m]
      by (auto simp: retire_locked_def Let_def split: option.splits)
    show "record_at (retire_locked state i) d j \<noteq> None \<longleftrightarrow> hm_get (cs_owners (retire_locked state i)) j = Some (Some d)" for d j
      using own at owners by auto
    show "j \<le> cs_next_registration (retire_locked state i)" if "hm_get (cs_owners (retire_locked state i)) j \<noteq> None" for j
      using that ids owners nxt by (auto split: if_splits)
  qed
qed

lemma register_supply_Some:
  assumes "catalog_ok state" "register_supply addr state = Some (reg, state')"
  shows "catalog_ok state'" "rg_id reg = cs_next_registration state'" "rg_owner reg = addr" "\<not> rg_retired reg"
    "unat (cs_next_registration state') = Suc (unat (cs_next_registration state))"
    "hm_get (cs_owners state') j = (if j = rg_id reg then Some None else hm_get (cs_owners state) j)"
    "record_at state' = record_at state" "cs_records state' = cs_records state"
    "hm_get (cs_owners state) (rg_id reg) = None"
proof -
  obtain i where i: "checked_add (cs_next_registration state) 1 = Some i"
    and reg: "reg = \<lparr> rg_id = i, rg_owner = addr, rg_retired = False \<rparr>"
    and st: "state' = state\<lparr> cs_next_registration := i, cs_owners := hm_insert (cs_owners state) i None \<rparr>"
    using assms(2) by (auto simp: register_supply_def)
  have n: "unat i = Suc (unat (cs_next_registration state))" using checked_add_SomeD [OF i] by simp
  then have fresh: "hm_get (cs_owners state) i = None"
    using assms(1) by (auto simp: catalog_ok_def word_le_nat_alt)
  then have norec: "record_at state d i = None" for d by (intro record_at_None [OF assms(1)]) simp
  show "catalog_ok state'"
    using assms(1) norec n unfolding st by (auto simp: catalog_ok_def word_le_nat_alt le_SucI)
  show "rg_id reg = cs_next_registration state'" "rg_owner reg = addr" "\<not> rg_retired reg"
    "unat (cs_next_registration state') = Suc (unat (cs_next_registration state))"
    "hm_get (cs_owners state') j = (if j = rg_id reg then Some None else hm_get (cs_owners state) j)"
    "record_at state' = record_at state" "cs_records state' = cs_records state" "hm_get (cs_owners state) (rg_id reg) = None"
    using n fresh by (simp_all add: st reg)
qed

text \<open>The probe finds the record of the oldest owner.\<close>

lemma first_key_value_Some:
  assumes "hm_ok m" "m \<noteq> []"
  shows "\<exists>k v. first_key_value m = Some (k, v) \<and> hm_get m k = Some v \<and> (\<forall>j. hm_get m j \<noteq> None \<longrightarrow> k \<le> j)"
proof -
  let ?k = "Min (fst ` set m)"
  have "?k \<in> fst ` set m" using assms(2) by (intro Min_in) auto
  then obtain v where v: "hm_get m ?k = Some v" using hm_get_None_iff [of m ?k] by blast
  have "?k \<le> j" if "hm_get m j \<noteq> None" for j
    using that hm_get_None_iff [of m j] by (intro Min_le) auto
  then show ?thesis using v assms(2) by (auto simp: first_key_value_def)
qed

lemma probe_oldest:
  assumes "catalog_ok state"
  shows "probe_record path_exists state digest = Some r \<longleftrightarrow>
    path_exists (sc_store_path r) \<and>
    (\<exists>i. supply_of state i = Some (digest, r) \<and> (\<forall>j r'. supply_of state j = Some (digest, r') \<longrightarrow> i \<le> j))"
proof (cases "hm_get (cs_records state) digest")
  case None
  then have "supply_of state i \<noteq> Some (digest, r')" for i r' by (simp add: supply_of_iff [OF assms] record_at_def)
  then show ?thesis using None by (simp add: probe_record_def)
next
  case (Some m)
  have at: "record_at state digest j = hm_get m j" for j by (simp add: record_at_def Some)
  have "hm_ok m" "m \<noteq> []" using assms Some by (auto simp: catalog_ok_def)
  then obtain k v where k: "first_key_value m = Some (k, v)" "hm_get m k = Some v" "\<forall>j. hm_get m j \<noteq> None \<longrightarrow> k \<le> j"
    using first_key_value_Some by blast
  have "(\<exists>i. hm_get m i = Some r \<and> (\<forall>j r'. hm_get m j = Some r' \<longrightarrow> i \<le> j)) \<longleftrightarrow> v = r"
    using k(2,3) by (metis antisym option.distinct(1) option.inject)
  then show ?thesis using Some k(1) by (auto simp: probe_record_def supply_of_iff [OF assms] at)
qed


section \<open>Properties\<close>

text \<open>
  C38: The catalog implements a map from registrations to a digest and a record. A probe answers with the record of the
  oldest registration that published the digest, when its path exists; a publication sets the entry of its registration
  when the token belongs to the catalog, is not retired and is registered, and is refused without effect otherwise; a
  retirement removes the entry of its own registration and no other.
\<close>
theorem catalog_refines_owner_map:
  assumes "catalog_ok state"
  shows "(probe_record path_exists state digest = Some r \<longleftrightarrow> path_exists (sc_store_path r) \<and>
      (\<exists>i. supply_of state i = Some (digest, r) \<and> (\<forall>j r'. supply_of state j = Some (digest, r') \<longrightarrow> i \<le> j))) \<and>
    (let (state', accepted) = publish_supply addr state reg digest r
     in catalog_ok state' \<and>
        (accepted \<longleftrightarrow> belongs_to reg addr \<and> \<not> rg_retired reg \<and> hm_get (cs_owners state) (rg_id reg) \<noteq> None) \<and>
        supply_of state' = (if accepted then (supply_of state)(rg_id reg \<mapsto> (digest, r)) else supply_of state)) \<and>
    (let (reg', state') = retire_supply addr state reg
     in catalog_ok state' \<and> rg_retired reg' \<and>
        supply_of state' = (if belongs_to reg addr then (supply_of state)(rg_id reg := None) else supply_of state))"
proof (intro conjI)
  show "probe_record path_exists state digest = Some r \<longleftrightarrow> path_exists (sc_store_path r) \<and>
      (\<exists>i. supply_of state i = Some (digest, r) \<and> (\<forall>j r'. supply_of state j = Some (digest, r') \<longrightarrow> i \<le> j))"
    by (rule probe_oldest [OF assms])
  show "let (state', accepted) = publish_supply addr state reg digest r
     in catalog_ok state' \<and>
        (accepted \<longleftrightarrow> belongs_to reg addr \<and> \<not> rg_retired reg \<and> hm_get (cs_owners state) (rg_id reg) \<noteq> None) \<and>
        supply_of state' = (if accepted then (supply_of state)(rg_id reg \<mapsto> (digest, r)) else supply_of state)"
  proof (cases "belongs_to reg addr \<and> \<not> rg_retired reg")
    case False
    then show ?thesis using assms by (auto simp: publish_supply_def)
  next
    case True
    show ?thesis
      by (rule publish_locked_cases [OF assms, of "rg_id reg" "rg_retired reg" digest r])
        (use True assms in \<open>auto simp: publish_supply_def supply_of_def fun_eq_iff split: option.splits\<close>)
  qed
  show "let (reg', state') = retire_supply addr state reg
     in catalog_ok state' \<and> rg_retired reg' \<and>
        supply_of state' = (if belongs_to reg addr then (supply_of state)(rg_id reg := None) else supply_of state)"
    using assms retire_locked_ok [OF assms, of "rg_id reg"]
    by (auto simp: retire_supply_def supply_of_def fun_eq_iff split: option.splits)
qed

theorem catalog_refines_owner_map_witness:
  "\<exists>reg state. register_supply 7 catalog_state_default = Some (reg, state) \<and>
    supply_of (fst (publish_supply 7 state reg (Blake3Digest [1]) \<lparr> sc_declared_size = 5, sc_source = Memory [], sc_store_path = ''p'' \<rparr>)) =
      [1 \<mapsto> (Blake3Digest [1], \<lparr> sc_declared_size = 5, sc_source = Memory [], sc_store_path = ''p'' \<rparr>)]"
proof -
  let ?r = "\<lparr> sc_declared_size = 5, sc_source = Memory [], sc_store_path = ''p'' \<rparr>"
  define reg where "reg = \<lparr> rg_id = 1, rg_owner = 7, rg_retired = False \<rparr>"
  define state where "state = \<lparr> cs_next_registration = 1, cs_owners = [(1, None)], cs_records = [] \<rparr>"
  have new: "register_supply 7 catalog_state_default = Some (reg, state)"
    by (simp add: register_supply_def catalog_state_default_def checked_add_def hm_insert_def reg_def state_def)
  have ok: "catalog_ok state" by (rule register_supply_Some(1) [OF catalog_ok_default new])
  have "supply_of state = Map.empty"
    by (rule ext) (simp add: supply_of_def state_def record_at_def split: option.split)
  moreover have "belongs_to reg 7" "\<not> rg_retired reg" "rg_id reg = 1" "hm_get (cs_owners state) 1 \<noteq> None"
    by (simp_all add: belongs_to_def reg_def state_def hm_get_def)
  ultimately have "supply_of (fst (publish_supply 7 state reg (Blake3Digest [1]) ?r)) = [1 \<mapsto> (Blake3Digest [1], ?r)]"
    using catalog_refines_owner_map [OF ok, where addr = 7 and reg = reg and digest = "Blake3Digest [1]" and r = ?r]
    by (simp add: case_prod_unfold Let_def)
  then show ?thesis using new by blast
qed


section \<open>Interleaved calls\<close>

text \<open>
  A call of a publication or a retirement is a thread. Before it takes the mutex a publication reads the flag of its token,
  and a retirement sets it; holding the mutex is one step. Registrations and new calls can come at any time.
  The tokens are those of this catalog, so that \<open>belongs_to\<close> holds and the early return on it is not a step.
\<close>

datatype supply_call =
  PublishEntry u64 blake3_digest supply_catalog_record
| PublishAtLock u64 blake3_digest supply_catalog_record
| PublishReturned u64 bool
| RetireEntry u64
| RetireAtLock u64
| RetireReturned u64

record supply_system =
  sy_state :: catalog_state
  sy_flags :: "u64 set"     \<comment> \<open>the registrations whose flag is set\<close>
  sy_calls :: "supply_call list"

fun call_step :: "supply_system \<Rightarrow> supply_call \<Rightarrow> supply_system \<times> supply_call" where
  "call_step sys (PublishEntry i digest r) =
     (sys, if i \<in> sy_flags sys then PublishReturned i False else PublishAtLock i digest r)"
| "call_step sys (PublishAtLock i digest r) =
     (let (state, accepted) = publish_locked (sy_state sys) i (i \<in> sy_flags sys) digest r
      in (sys\<lparr> sy_state := state \<rparr>, PublishReturned i accepted))"
| "call_step sys (RetireEntry i) = (sys\<lparr> sy_flags := insert i (sy_flags sys) \<rparr>, RetireAtLock i)"
| "call_step sys (RetireAtLock i) = (sys\<lparr> sy_state := retire_locked (sy_state sys) i \<rparr>, RetireReturned i)"
| "call_step sys call = (sys, call)"

inductive supply_reachable :: "supply_system \<Rightarrow> bool" where
  start: "supply_reachable \<lparr> sy_state = catalog_state_default, sy_flags = {}, sy_calls = [] \<rparr>"
| register: "supply_reachable sys \<Longrightarrow> register_supply addr (sy_state sys) = Some (reg, state) \<Longrightarrow>
    supply_reachable (sys\<lparr> sy_state := state \<rparr>)"
| publish: "supply_reachable sys \<Longrightarrow> i \<le> cs_next_registration (sy_state sys) \<Longrightarrow>
    supply_reachable (sys\<lparr> sy_calls := sy_calls sys @ [PublishEntry i digest r] \<rparr>)"
| retire: "supply_reachable sys \<Longrightarrow> i \<le> cs_next_registration (sy_state sys) \<Longrightarrow>
    supply_reachable (sys\<lparr> sy_calls := sy_calls sys @ [RetireEntry i] \<rparr>)"
| step: "supply_reachable sys \<Longrightarrow> n < length (sy_calls sys) \<Longrightarrow> call_step sys (sy_calls sys ! n) = (sys', call) \<Longrightarrow>
    supply_reachable (sys'\<lparr> sy_calls := (sy_calls sys)[n := call] \<rparr>)"

definition call_id :: "supply_call \<Rightarrow> u64" where
  "call_id call = (case call of PublishEntry i _ _ \<Rightarrow> i | PublishAtLock i _ _ \<Rightarrow> i | PublishReturned i _ \<Rightarrow> i
     | RetireEntry i \<Rightarrow> i | RetireAtLock i \<Rightarrow> i | RetireReturned i \<Rightarrow> i)"

definition system_ok :: "supply_system \<Rightarrow> bool" where
  "system_ok sys \<longleftrightarrow> catalog_ok (sy_state sys) \<and>
     (\<forall>call \<in> set (sy_calls sys). call_id call \<le> cs_next_registration (sy_state sys)) \<and>
     (\<forall>i. RetireReturned i \<in> set (sy_calls sys) \<longrightarrow> hm_get (cs_owners (sy_state sys)) i = None)"

lemma call_step_ok:
  assumes "system_ok sys" "call_step sys call = (sys', call')" "call \<in> set (sy_calls sys)"
  shows "catalog_ok (sy_state sys') \<and> cs_next_registration (sy_state sys') = cs_next_registration (sy_state sys) \<and>
    call_id call' = call_id call \<and>
    (\<forall>i. hm_get (cs_owners (sy_state sys)) i = None \<longrightarrow> hm_get (cs_owners (sy_state sys')) i = None) \<and>
    (\<forall>i. call' = RetireReturned i \<longrightarrow> hm_get (cs_owners (sy_state sys')) i = None)"
proof -
  have ok: "catalog_ok (sy_state sys)" using assms(1) by (simp add: system_ok_def)
  show ?thesis
  proof (cases call)
    case (PublishAtLock i digest r)
    show ?thesis
      by (rule publish_locked_cases [OF ok, of i "i \<in> sy_flags sys" digest r])
        (use assms(2) ok in \<open>auto simp: PublishAtLock call_id_def\<close>)
  qed (use assms ok retire_locked_ok [OF ok] in \<open>auto simp: call_id_def system_ok_def split: if_splits\<close>)
qed

lemma reachable_system_ok: "supply_reachable sys \<Longrightarrow> system_ok sys"
proof (induction rule: supply_reachable.induct)
  case (register sys addr reg state)
  then have ok: "catalog_ok (sy_state sys)" by (simp add: system_ok_def)
  note reg = register_supply_Some [OF ok register.hyps(2)]
  have le: "cs_next_registration (sy_state sys) \<le> cs_next_registration state" using reg(5) by (simp add: word_le_nat_alt)
  have "i \<noteq> rg_id reg" if "RetireReturned i \<in> set (sy_calls sys)" for i
  proof -
    have "i \<le> cs_next_registration (sy_state sys)" using register.IH that by (force simp: system_ok_def call_id_def)
    then show ?thesis using reg(2,5) by (auto simp: word_le_nat_alt)
  qed
  then show ?case using register.IH reg(1,6) le by (auto simp: system_ok_def dest: order_trans)
next
  case (step sys n sys' call)
  have call: "sy_calls sys ! n \<in> set (sy_calls sys)" using step.hyps(2) by simp
  note ok = call_step_ok [OF step.IH step.hyps(3) call]
  have "c = call \<or> c \<in> set (sy_calls sys)" if "c \<in> set ((sy_calls sys)[n := call])" for c
    using that set_update_subset_insert [of "sy_calls sys" n call] by auto
  then show ?case using ok step.IH call unfolding system_ok_def by (auto; metis)
qed (auto simp: system_ok_def call_id_def)

text \<open>
  C14: A retirement is final under every interleaving. Once a call that retires a registration has returned, the
  registration supplies nothing, whatever publications of it were running, are waiting for the mutex or come later; a
  publication that takes the mutex then reports that it published nothing.
\<close>
theorem retirement_is_final:
  assumes "supply_reachable sys" "RetireReturned i \<in> set (sy_calls sys)"
  shows "supply_of (sy_state sys) i = None \<and> (\<forall>digest. record_at (sy_state sys) digest i = None) \<and>
    (\<forall>digest r. call_step sys (PublishAtLock i digest r) = (sys, PublishReturned i False))"
proof -
  have ok: "catalog_ok (sy_state sys)" "hm_get (cs_owners (sy_state sys)) i = None"
    using reachable_system_ok [OF assms(1)] assms(2) by (auto simp: system_ok_def)
  then have "record_at (sy_state sys) digest i = None" for digest by (intro record_at_None) simp_all
  then show ?thesis using ok by (simp add: supply_of_def publish_locked_def)
qed

text \<open>A publication that read the flag before it was set, and takes the mutex after the retirement returned.\<close>

definition race :: "supply_call list \<Rightarrow> supply_system" where
  "race calls = \<lparr> sy_state = \<lparr> cs_next_registration = 1, cs_owners = [(1, None)], cs_records = [] \<rparr>, sy_flags = {}, sy_calls = calls \<rparr>"

abbreviation "raced_record \<equiv> \<lparr> sc_declared_size = 5, sc_source = Memory [], sc_store_path = ''p'' \<rparr>"

lemma race_reachable:
  "supply_reachable ((race [PublishAtLock 1 (Blake3Digest []) raced_record, RetireReturned 1])
     \<lparr> sy_state := \<lparr> cs_next_registration = 1, cs_owners = [], cs_records = [] \<rparr>, sy_flags := {1} \<rparr>)"
proof -
  have "supply_reachable (race [])"
    using supply_reachable.register [OF supply_reachable.start, where addr = 7]
    by (simp add: register_supply_def catalog_state_default_def checked_add_def hm_insert_def race_def)
  then have "supply_reachable (race [PublishEntry 1 (Blake3Digest []) raced_record])"
    using supply_reachable.publish [of "race []" 1] by (simp add: race_def)
  then have "supply_reachable (race [PublishEntry 1 (Blake3Digest []) raced_record, RetireEntry 1])"
    using supply_reachable.retire [of "race [PublishEntry 1 (Blake3Digest []) raced_record]" 1] by (simp add: race_def)
  from supply_reachable.step [OF this, of 0]
  have "supply_reachable (race [PublishAtLock 1 (Blake3Digest []) raced_record, RetireEntry 1])" by (simp add: race_def)
  from supply_reachable.step [OF this, of 1]
  have "supply_reachable ((race [PublishAtLock 1 (Blake3Digest []) raced_record, RetireAtLock 1])\<lparr> sy_flags := {1} \<rparr>)"
    by (simp add: race_def)
  from supply_reachable.step [OF this, of 1]
  show ?thesis by (simp add: race_def retire_locked_def hm_get_def hm_remove_def)
qed

theorem retirement_is_final_witness:
  "supply_of \<lparr> cs_next_registration = 1, cs_owners = [], cs_records = [] \<rparr> 1 = None \<and>
   snd (call_step ((race [PublishAtLock 1 (Blake3Digest []) raced_record, RetireReturned 1])
     \<lparr> sy_state := \<lparr> cs_next_registration = 1, cs_owners = [], cs_records = [] \<rparr>, sy_flags := {1} \<rparr>)
     (PublishAtLock 1 (Blake3Digest []) raced_record)) = PublishReturned 1 False"
  using retirement_is_final [OF race_reachable, of 1] by (simp add: race_def)

end
