(* ===== verification/Claim_Wire.thy ===== *)
theory Claim_Wire
  imports Ids Nixbase32 "HOL-Library.AList" "HOL-Library.Char_ord" "HOL-Library.List_Lexorder"
begin

text \<open>
  The claim and hold-query messages, \<^verbatim>\<open>daemon-core/src/claim.rs\<close>. The \<^verbatim>\<open>serde_json\<close> crate and the
  code its derive macros generate are the parameter \<open>serde\<close>: it reads a byte string as a document or as a message whose
  fields with a hand-written reader are still documents, and it writes messages. What the hand-written readers, the
  checks and the version gate do with them is defined here.
\<close>

section \<open>Definitions\<close>

text \<open>A document. An object has its members in the order of the text, with repeated keys.\<close>

datatype json = JNull | JBool bool | JNumber string | JString string | JArray "json list" | JObject "(string \<times> json) list"

text \<open>The members of an object value: the last one of each key, in the order of the keys.\<close>

definition object_members :: "(string \<times> json) list \<Rightarrow> (string \<times> json) list" where
  "object_members ms = sort_key fst (AList.clearjunk (rev ms))"

fun json_get :: "json \<Rightarrow> string \<Rightarrow> json option" where
  "json_get (JObject ms) k = map_of (object_members ms) k"
| "json_get _ k = None"

fun as_str :: "json \<Rightarrow> string option" where
  "as_str (JString s) = Some s"
| "as_str _ = None"

definition CLAIM_SCHEMA_VERSION :: u16 where "CLAIM_SCHEMA_VERSION = 1"
definition QUERY_SCHEMA_VERSION :: u16 where "QUERY_SCHEMA_VERSION = 1"
definition MAX_CLAIM_WIRE_BYTES :: nat where "MAX_CLAIM_WIRE_BYTES = 64 * 1024"
definition MAX_BATCH_HOLD_KEYS :: nat where "MAX_BATCH_HOLD_KEYS = 256"
definition MAX_BATCH_HOLD_OFFERS :: nat where "MAX_BATCH_HOLD_OFFERS = 2 * MAX_BATCH_HOLD_KEYS"
definition MAX_OFFERS_PER_ANSWER :: nat where "MAX_OFFERS_PER_ANSWER = 4"
definition MAX_OFFER_WIRE_BYTES :: nat where "MAX_OFFER_WIRE_BYTES = 2 * 1024"
definition KNOWN_PAYLOAD_KINDS :: "string list" where "KNOWN_PAYLOAD_KINDS = [''whole_nar'']"
definition KNOWN_TRANSPORT_TAGS :: "string list" where "KNOWN_TRANSPORT_TAGS = [''iroh'', ''bittorrent'']"

datatype known_payload = WholeNar blake3_digest

datatype known_transport = KnownIroh node_id | KnownBitTorrent info_hash

fun wire_tag :: "known_transport \<Rightarrow> string" where
  "wire_tag (KnownIroh _) = ''iroh''"
| "wire_tag (KnownBitTorrent _) = ''bittorrent''"

fun known_transport_tag :: "known_transport \<Rightarrow> transport_tag" where
  "known_transport_tag (KnownIroh _) = TagIroh"
| "known_transport_tag (KnownBitTorrent _) = TagBitTorrent"

fun to_offer :: "known_transport \<Rightarrow> transport_offer" where
  "to_offer (KnownIroh node) = Iroh node"
| "to_offer (KnownBitTorrent infohash) = BitTorrent infohash"

record claim_signature =
  cg_key_id :: string
  cg_sig :: string

record claim =
  cl_schema_version :: u16
  cl_key :: nar_hash_key
  cl_payload :: "known_payload option"
  cl_holders :: "node_id list"
  cl_transports :: "known_transport list"
  cl_relay :: "string option"
  cl_signatures :: "claim_signature list"

fun content_id :: "claim \<Rightarrow> blake3_digest option" where
  "content_id c = (case cl_payload c of Some (WholeNar blake3) \<Rightarrow> Some blake3 | None \<Rightarrow> None)"

record hold_query =
  hq_schema_version :: u16
  hq_key :: nar_hash_key

datatype hold_answer = Have blake3_digest "known_transport list" | Absent

record hold_response =
  hr_schema_version :: u16
  hr_answer :: hold_answer

record batch_hold_query =
  bq_schema_version :: u16
  bq_keys :: "nar_hash_key list"

datatype batch_hold_answer = BatchHave blake3_digest "u16 list" | BatchAbsent

record batch_hold_response =
  br_schema_version :: u16
  br_offers :: "known_transport list"
  br_answers :: "batch_hold_answer list"

datatype offer_slot = Known known_transport | Unknown string

fun slot_wire_tag :: "offer_slot \<Rightarrow> string" where
  "slot_wire_tag (Known offer) = wire_tag offer"
| "slot_wire_tag (Unknown tag) = tag"

definition as_offer_slots :: "known_transport list \<Rightarrow> offer_slot list" where
  "as_offer_slots offers = map Known offers"

datatype claim_codec_error =
  Malformed string
| UnsupportedVersion u16 u16
| BatchTooLarge nat nat
| BatchAnswerCount nat nat

text \<open>The messages as they are read, before the hand-written readers.\<close>

record claim_wire =
  cw_schema_version :: u16
  cw_key :: nar_hash_key
  cw_payload :: json         \<comment> \<open>\<^const>\<open>JNull\<close> when it is missing\<close>
  cw_holders :: "node_id list"
  cw_transports :: "json list"
  cw_relay :: "string option"
  cw_signatures :: "claim_signature list"

datatype hold_answer_wire = HaveWire blake3_digest "json list" | AbsentWire

record hold_response_wire =
  hw_schema_version :: u16
  hw_answer :: hold_answer_wire

record batch_hold_response_wire =
  bw_schema_version :: u16
  bw_offers :: "json list"
  bw_answers :: "batch_hold_answer list"

record serde =
  sj_document :: "bytes \<Rightarrow> (string, json) result"     \<comment> \<open>the whole input as one document\<close>
  sj_custom :: "bytes \<Rightarrow> string \<Rightarrow> string"              \<comment> \<open>the text of an error that a reader raises\<close>
  sj_debug :: "string \<Rightarrow> string"                         \<comment> \<open>a key as \<^verbatim>\<open>{:?}\<close> prints it, which depends on the tables of printable characters\<close>
  sj_to_string :: "json \<Rightarrow> (string, string) result"
  sj_transport :: "json \<Rightarrow> (string, known_transport) result"
  sj_payload :: "json \<Rightarrow> (string, known_payload) result"
  sj_claim :: "bytes \<Rightarrow> (string, claim_wire) result"
  sj_hold_query :: "bytes \<Rightarrow> (string, hold_query) result"
  sj_hold_response :: "bytes \<Rightarrow> (string, hold_response_wire) result"
  sj_batch_query :: "bytes \<Rightarrow> (string, batch_hold_query) result"
  sj_batch_response :: "bytes \<Rightarrow> (string, batch_hold_response_wire) result"
  sj_write_claim :: "claim \<Rightarrow> (string, bytes) result"
  sj_write_hold_query :: "hold_query \<Rightarrow> (string, bytes) result"
  sj_write_hold_response :: "hold_response \<Rightarrow> (string, bytes) result"
  sj_write_batch_query :: "batch_hold_query \<Rightarrow> (string, bytes) result"
  sj_write_batch_response :: "batch_hold_response \<Rightarrow> (string, bytes) result"

definition tick :: "string \<Rightarrow> string" where "tick s = [CHR 0x60] @ s @ [CHR 0x60]"


subsection \<open>Offers\<close>

fun extra_field_loop :: "nat \<Rightarrow> (string \<times> json) list \<Rightarrow> (string, unit) result" where
  "extra_field_loop extra_fields [] = Ok ()"
| "extra_field_loop extra_fields ((field_name, field_value) # ms) =
     (if field_name = ''transport'' then extra_field_loop extra_fields ms
      else if Suc extra_fields > 1 then
        Err (''an unknown-kind transport offer carries more than one field besides '' @ tick ''transport'' @ '' ('' @
          tick field_name @ '' is a second); at most one scalar string locator is tolerated, or it could name a LIST of '' @
          ''content identities the asker never queried'')
      else if as_str field_value = None then
        Err (''an unknown-kind transport offer field '' @ tick field_name @ '' is not a scalar string; an array or nested '' @
          ''object is a LIST affordance for naming several content identities at once, which the schema must not express'')
      else extra_field_loop (Suc extra_fields) ms)"

fun reject_enumeration_shaped_unknown_offer :: "json \<Rightarrow> (string, unit) result" where
  "reject_enumeration_shaped_unknown_offer (JObject ms) =
     (case json_get (JObject ms) ''transport'' of
        Some (JString _) \<Rightarrow> extra_field_loop 0 (object_members ms)
      | _ \<Rightarrow>
          Err (''an unknown-kind transport offer'' @ [CHR 0x27] @ ''s '' @ tick ''transport'' @ '' tag must be present and a '' @
            ''string; an absent, null, numeric, boolean, array, or object tag is refused '' @
            ''(only a positively-declared string kind is tolerated for forward compat)''))"
| "reject_enumeration_shaped_unknown_offer _ = Err ''an unknown-kind transport offer must be a JSON object''"

definition offer_within_byte_cap :: "serde \<Rightarrow> json \<Rightarrow> (string, unit) result" where
  "offer_within_byte_cap J v =
     and_then (map_err (\<lambda>e. ''a transport offer could not be measured for its byte cap: '' @ e) (sj_to_string J v)) (\<lambda>txt.
     if MAX_OFFER_WIRE_BYTES < length txt then
       Err (''a transport offer is '' @ decimal (length txt) @ '' serialized bytes, over the '' @ decimal MAX_OFFER_WIRE_BYTES @
         ''-byte per-offer cap; a single offer this large could pad a response toward the '' @ decimal MAX_CLAIM_WIRE_BYTES @
         ''-byte frame (byte-amplification residual, TASK-223). Every legitimate locator is far smaller; loosening the cap '' @
         ''later is backward-safe if a future transport ever needs more'')
     else Ok ())"

definition is_known_transport :: "json \<Rightarrow> bool" where
  "is_known_transport v \<longleftrightarrow>
     (case Option.bind (json_get v ''transport'') as_str of Some tag \<Rightarrow> tag \<in> set KNOWN_TRANSPORT_TAGS | None \<Rightarrow> False)"

fun deserialize_known_transports :: "serde \<Rightarrow> json list \<Rightarrow> (string, known_transport list) result" where
  "deserialize_known_transports J [] = Ok []"
| "deserialize_known_transports J (v # vs) =
     and_then (offer_within_byte_cap J v) (\<lambda>_.
     if is_known_transport v then
       and_then (sj_transport J v) (\<lambda>offer.
       and_then (deserialize_known_transports J vs) (\<lambda>offers. Ok (offer # offers)))
     else
       and_then (reject_enumeration_shaped_unknown_offer v) (\<lambda>_. deserialize_known_transports J vs))"

fun deserialize_transport_slots :: "serde \<Rightarrow> json list \<Rightarrow> (string, offer_slot list) result" where
  "deserialize_transport_slots J [] = Ok []"
| "deserialize_transport_slots J (v # vs) =
     and_then (offer_within_byte_cap J v) (\<lambda>_.
     if is_known_transport v then
       and_then (sj_transport J v) (\<lambda>offer.
       and_then (deserialize_transport_slots J vs) (\<lambda>slots. Ok (Known offer # slots)))
     else
       and_then (reject_enumeration_shaped_unknown_offer v) (\<lambda>_.
       and_then (deserialize_transport_slots J vs) (\<lambda>slots.
       Ok (Unknown (case Option.bind (json_get v ''transport'') as_str of Some tag \<Rightarrow> tag | None \<Rightarrow> []) # slots))))"

definition deserialize_optional_known_payload :: "serde \<Rightarrow> json \<Rightarrow> (string, known_payload option) result" where
  "deserialize_optional_known_payload J v =
     (if v = JNull then Ok None
      else case Option.bind (json_get v ''kind'') as_str of
        Some tag \<Rightarrow> if tag \<in> set KNOWN_PAYLOAD_KINDS then and_then (sj_payload J v) (\<lambda>p. Ok (Some p)) else Ok None
      | None \<Rightarrow> Ok None)"


subsection \<open>Bindings between offers and answers\<close>

text \<open>One answer: the positions it has named so far, and the tags.\<close>

fun index_loop ::
  "nat \<Rightarrow> offer_slot list \<Rightarrow> nat set \<Rightarrow> string set \<Rightarrow> u16 list \<Rightarrow> (claim_codec_error, nat set) result" where
  "index_loop pos offers seen kinds [] = Ok seen"
| "index_loop pos offers seen kinds (index # indices) =
     (let at = unat index
      in if length offers \<le> at then
           Err (Malformed (''batch answer '' @ decimal pos @ '' names offer '' @ decimal at @ '', but the response carries '' @
             decimal (length offers) @ '' offers''))
         else if at \<in> seen then
           Err (Malformed (''batch answer '' @ decimal pos @ '' names offer '' @ decimal at @
             '' twice (ambiguous response is rejected)''))
         else
           let kind = slot_wire_tag (offers ! at)
           in if kind \<in> kinds then
                Err (Malformed (''batch answer '' @ decimal pos @ '' names two '' @ tick kind @
                  '' offers; the content behind one key has ONE identity per transport, so the second names a different blob''))
              else index_loop pos offers (insert at seen) (insert kind kinds) indices)"

fun answer_loop ::
  "nat \<Rightarrow> offer_slot list \<Rightarrow> nat set \<Rightarrow> batch_hold_answer list \<Rightarrow> (claim_codec_error, nat set) result" where
  "answer_loop pos offers referenced [] = Ok referenced"
| "answer_loop pos offers referenced (BatchAbsent # answers) = answer_loop (Suc pos) offers referenced answers"
| "answer_loop pos offers referenced (BatchHave blake3 offer_indices # answers) =
     (if MAX_OFFERS_PER_ANSWER < length offer_indices then
        Err (Malformed (''batch answer '' @ decimal pos @ '' names '' @ decimal (length offer_indices) @ '' offers; at most '' @
          decimal MAX_OFFERS_PER_ANSWER @ '' locators can describe one key''))
      else and_then (index_loop pos offers {} {} offer_indices) (\<lambda>seen.
        answer_loop (Suc pos) offers (referenced \<union> seen) answers))"

definition check_batch_offer_bindings :: "offer_slot list \<Rightarrow> batch_hold_answer list \<Rightarrow> (claim_codec_error, unit) result" where
  "check_batch_offer_bindings offers answers =
     (if answers = [] then Err (Malformed ''a batch hold-response must answer at least one key'')
      else if MAX_BATCH_HOLD_KEYS < length answers then Err (BatchTooLarge (length answers) MAX_BATCH_HOLD_KEYS)
      else if MAX_BATCH_HOLD_OFFERS < length offers then Err (BatchTooLarge (length offers) MAX_BATCH_HOLD_OFFERS)
      else and_then (answer_loop 0 offers {} answers) (\<lambda>referenced.
        case List.find (\<lambda>i. i \<notin> referenced) [0..<length offers] of
          Some orphan \<Rightarrow>
            Err (Malformed (''batch response offer '' @ decimal orphan @
              '' is referenced by no answer - a locator must bind to a key the asker named''))
        | None \<Rightarrow> Ok ()))"

text \<open>Where each slot goes, and what is kept.\<close>

fun remap_loop :: "u16 option list \<Rightarrow> known_transport list \<Rightarrow> offer_slot list \<Rightarrow> u16 option list \<times> known_transport list" where
  "remap_loop remap kept [] = (remap, kept)"
| "remap_loop remap kept (Known offer # slots) = remap_loop (remap @ [Some (of_nat (length kept))]) (kept @ [offer]) slots"
| "remap_loop remap kept (Unknown _ # slots) = remap_loop (remap @ [None]) kept slots"

definition remap_index :: "u16 option list \<Rightarrow> u16 \<Rightarrow> u16 option" where
  "remap_index remap index = (if unat index < length remap then remap ! unat index else None)"

fun remap_answer :: "u16 option list \<Rightarrow> batch_hold_answer \<Rightarrow> batch_hold_answer" where
  "remap_answer remap (BatchHave blake3 offer_indices) = BatchHave blake3 (List.map_filter (remap_index remap) offer_indices)"
| "remap_answer remap BatchAbsent = BatchAbsent"

definition compact_offer_slots ::
  "offer_slot list \<Rightarrow> batch_hold_answer list \<Rightarrow> known_transport list \<times> batch_hold_answer list" where
  "compact_offer_slots slots answers =
     (let (remap, kept) = remap_loop [] [] slots in (kept, map (remap_answer remap) answers))"

fun kind_loop :: "string set \<Rightarrow> offer_slot list \<Rightarrow> (claim_codec_error, unit) result" where
  "kind_loop kinds [] = Ok ()"
| "kind_loop kinds (offer # offers) =
     (let kind = slot_wire_tag offer
      in if kind \<in> kinds then
           Err (Malformed (''hold answer names two '' @ tick kind @
             '' offers; the content behind one key has ONE identity per transport, so the second names a different blob''))
         else kind_loop (insert kind kinds) offers)"

definition check_single_offer_bindings :: "offer_slot list \<Rightarrow> (claim_codec_error, unit) result" where
  "check_single_offer_bindings offers =
     (if MAX_OFFERS_PER_ANSWER < length offers then
        Err (Malformed (''hold answer names '' @ decimal (length offers) @ '' offers; at most '' @ decimal MAX_OFFERS_PER_ANSWER @
          '' locators can describe one key''))
      else kind_loop {} offers)"

definition keep_known_offers :: "offer_slot list \<Rightarrow> known_transport list" where
  "keep_known_offers slots = List.map_filter (\<lambda>slot. case slot of Known offer \<Rightarrow> Some offer | Unknown _ \<Rightarrow> None) slots"

fun repeated_key :: "nar_hash_key set \<Rightarrow> nar_hash_key list \<Rightarrow> (claim_codec_error, unit) result" where
  "repeated_key seen [] = Ok ()"
| "repeated_key seen (key # keys) =
     (if key \<in> seen then
        Err (Malformed (''batch hold-query repeats key '' @ display_nar_hash key @ '' (ambiguous request is rejected)''))
      else repeated_key (insert key seen) keys)"

definition check_batch_keys :: "nar_hash_key list \<Rightarrow> (claim_codec_error, unit) result" where
  "check_batch_keys keys =
     (if keys = [] then Err (Malformed ''a batch hold-query must name at least one key'')
      else if MAX_BATCH_HOLD_KEYS < length keys then Err (BatchTooLarge (length keys) MAX_BATCH_HOLD_KEYS)
      else repeated_key {} keys)"


subsection \<open>Reading and writing\<close>

definition check_size :: "nat \<Rightarrow> (claim_codec_error, unit) result" where
  "check_size len =
     (if MAX_CLAIM_WIRE_BYTES < len then
        Err (Malformed (''wire input is '' @ decimal len @ '' bytes, exceeds the '' @ decimal MAX_CLAIM_WIRE_BYTES @ ''-byte cap''))
      else Ok ())"

definition check_version :: "u16 \<Rightarrow> u16 \<Rightarrow> (claim_codec_error, unit) result" where
  "check_version found expected = (if found = expected then Ok () else Err (UnsupportedVersion found expected))"

definition encode_checked :: "('a \<Rightarrow> (string, bytes) result) \<Rightarrow> 'a \<Rightarrow> (claim_codec_error, bytes) result" where
  "encode_checked to_vec x =
     and_then (map_err Malformed (to_vec x)) (\<lambda>bytes. and_then (check_size (length bytes)) (\<lambda>_. Ok bytes))"

text \<open>
  The guard against repeated keys, in the order of the text. The reader stops at the first fault, so a document with both
  a syntax error and a repeated key may be refused with either text.
\<close>

fun no_duplicate_keys :: "(string \<Rightarrow> string) \<Rightarrow> json \<Rightarrow> (string, unit) result"
  and no_duplicate_elements :: "(string \<Rightarrow> string) \<Rightarrow> json list \<Rightarrow> (string, unit) result"
  and no_duplicate_members :: "(string \<Rightarrow> string) \<Rightarrow> string set \<Rightarrow> (string \<times> json) list \<Rightarrow> (string, unit) result" where
  "no_duplicate_keys debug (JArray vs) = no_duplicate_elements debug vs"
| "no_duplicate_keys debug (JObject ms) = no_duplicate_members debug {} ms"
| "no_duplicate_keys debug _ = Ok ()"
| "no_duplicate_elements debug [] = Ok ()"
| "no_duplicate_elements debug (v # vs) = and_then (no_duplicate_keys debug v) (\<lambda>_. no_duplicate_elements debug vs)"
| "no_duplicate_members debug seen [] = Ok ()"
| "no_duplicate_members debug seen ((k, v) # ms) =
     (if k \<in> seen then Err (''duplicate key '' @ debug k @ '' (ambiguous wire is rejected)'')
      else and_then (no_duplicate_keys debug v) (\<lambda>_. no_duplicate_members debug (insert k seen) ms))"

definition reject_duplicate_keys :: "serde \<Rightarrow> bytes \<Rightarrow> (claim_codec_error, unit) result" where
  "reject_duplicate_keys J bytes =
     and_then (map_err Malformed (sj_document J bytes)) (\<lambda>v.
     map_err (\<lambda>e. Malformed (sj_custom J bytes e)) (no_duplicate_keys (sj_debug J) v))"

definition encode_claim :: "serde \<Rightarrow> claim \<Rightarrow> (claim_codec_error, bytes) result" where
  "encode_claim J c = encode_checked (sj_write_claim J) c"

definition decode_claim :: "serde \<Rightarrow> bytes \<Rightarrow> (claim_codec_error, claim) result" where
  "decode_claim J bytes =
     and_then (check_size (length bytes)) (\<lambda>_.
     and_then (reject_duplicate_keys J bytes) (\<lambda>_.
     and_then (map_err Malformed (sj_claim J bytes)) (\<lambda>w.
     and_then (map_err (\<lambda>e. Malformed (sj_custom J bytes e)) (deserialize_optional_known_payload J (cw_payload w))) (\<lambda>payload.
     and_then (map_err (\<lambda>e. Malformed (sj_custom J bytes e)) (deserialize_known_transports J (cw_transports w))) (\<lambda>transports.
     and_then (check_version (cw_schema_version w) CLAIM_SCHEMA_VERSION) (\<lambda>_.
     Ok \<lparr> cl_schema_version = cw_schema_version w, cl_key = cw_key w, cl_payload = payload, cl_holders = cw_holders w,
          cl_transports = transports, cl_relay = cw_relay w, cl_signatures = cw_signatures w \<rparr>))))))"

definition encode_hold_query :: "serde \<Rightarrow> hold_query \<Rightarrow> (claim_codec_error, bytes) result" where
  "encode_hold_query J query = encode_checked (sj_write_hold_query J) query"

definition decode_hold_query :: "serde \<Rightarrow> bytes \<Rightarrow> (claim_codec_error, hold_query) result" where
  "decode_hold_query J bytes =
     and_then (check_size (length bytes)) (\<lambda>_.
     and_then (reject_duplicate_keys J bytes) (\<lambda>_.
     and_then (map_err Malformed (sj_hold_query J bytes)) (\<lambda>query.
     and_then (check_version (hq_schema_version query) QUERY_SCHEMA_VERSION) (\<lambda>_. Ok query))))"

definition encode_hold_response :: "serde \<Rightarrow> hold_response \<Rightarrow> (claim_codec_error, bytes) result" where
  "encode_hold_response J response =
     and_then (case hr_answer response of Have _ offers \<Rightarrow> check_single_offer_bindings (as_offer_slots offers) | Absent \<Rightarrow> Ok ()) (\<lambda>_.
     encode_checked (sj_write_hold_response J) response)"

definition decode_hold_response :: "serde \<Rightarrow> bytes \<Rightarrow> (claim_codec_error, hold_response) result" where
  "decode_hold_response J bytes =
     and_then (check_size (length bytes)) (\<lambda>_.
     and_then (reject_duplicate_keys J bytes) (\<lambda>_.
     and_then (map_err Malformed (sj_hold_response J bytes)) (\<lambda>w.
     and_then (case hw_answer w of
         HaveWire blake3 raw \<Rightarrow> and_then (map_err (\<lambda>e. Malformed (sj_custom J bytes e)) (deserialize_transport_slots J raw))
           (\<lambda>slots. Ok (Some (blake3, slots)))
       | AbsentWire \<Rightarrow> Ok None) (\<lambda>answer.
     and_then (check_version (hw_schema_version w) QUERY_SCHEMA_VERSION) (\<lambda>_.
     and_then (case answer of
         Some (blake3, offers) \<Rightarrow>
           and_then (check_single_offer_bindings offers) (\<lambda>_. Ok (Have blake3 (keep_known_offers offers)))
       | None \<Rightarrow> Ok Absent) (\<lambda>answer.
     Ok \<lparr> hr_schema_version = hw_schema_version w, hr_answer = answer \<rparr>))))))"

definition encode_batch_hold_query :: "serde \<Rightarrow> batch_hold_query \<Rightarrow> (claim_codec_error, bytes) result" where
  "encode_batch_hold_query J query =
     and_then (check_batch_keys (bq_keys query)) (\<lambda>_. encode_checked (sj_write_batch_query J) query)"

definition decode_batch_hold_query :: "serde \<Rightarrow> bytes \<Rightarrow> (claim_codec_error, batch_hold_query) result" where
  "decode_batch_hold_query J bytes =
     and_then (check_size (length bytes)) (\<lambda>_.
     and_then (reject_duplicate_keys J bytes) (\<lambda>_.
     and_then (map_err Malformed (sj_batch_query J bytes)) (\<lambda>query.
     and_then (check_version (bq_schema_version query) QUERY_SCHEMA_VERSION) (\<lambda>_.
     and_then (check_batch_keys (bq_keys query)) (\<lambda>_. Ok query)))))"

definition encode_batch_hold_response :: "serde \<Rightarrow> batch_hold_response \<Rightarrow> (claim_codec_error, bytes) result" where
  "encode_batch_hold_response J response =
     and_then (check_batch_offer_bindings (as_offer_slots (br_offers response)) (br_answers response)) (\<lambda>_.
     encode_checked (sj_write_batch_response J) response)"

definition decode_batch_hold_response :: "serde \<Rightarrow> bytes \<Rightarrow> nat \<Rightarrow> (claim_codec_error, batch_hold_response) result" where
  "decode_batch_hold_response J bytes keys_asked =
     and_then (check_size (length bytes)) (\<lambda>_.
     if keys_asked = 0 then Err (Malformed ''a batch hold-response was awaited for zero keys; no legal query asks none'')
     else if MAX_BATCH_HOLD_KEYS < keys_asked then Err (BatchTooLarge keys_asked MAX_BATCH_HOLD_KEYS)
     else
     and_then (reject_duplicate_keys J bytes) (\<lambda>_.
     and_then (map_err Malformed (sj_batch_response J bytes)) (\<lambda>w.
     and_then (map_err (\<lambda>e. Malformed (sj_custom J bytes e)) (deserialize_transport_slots J (bw_offers w))) (\<lambda>slots.
     and_then (check_version (bw_schema_version w) QUERY_SCHEMA_VERSION) (\<lambda>_.
     if length (bw_answers w) \<noteq> keys_asked then Err (BatchAnswerCount keys_asked (length (bw_answers w)))
     else
     and_then (check_batch_offer_bindings slots (bw_answers w)) (\<lambda>_.
     let (offers, answers) = compact_offer_slots slots (bw_answers w)
     in Ok \<lparr> br_schema_version = bw_schema_version w, br_offers = offers, br_answers = answers \<rparr>))))))"



section \<open>Repeated keys\<close>

fun unambiguous :: "json \<Rightarrow> bool" where
  "unambiguous (JArray vs) \<longleftrightarrow> (\<forall>v \<in> set vs. unambiguous v)"
| "unambiguous (JObject ms) \<longleftrightarrow> distinct (map fst ms) \<and> (\<forall>m \<in> set ms. unambiguous (snd m))"
| "unambiguous _ \<longleftrightarrow> True"

lemma no_duplicate_Ok_iff:
  "no_duplicate_keys debug v = Ok () \<longleftrightarrow> unambiguous v"
  "no_duplicate_elements debug vs = Ok () \<longleftrightarrow> (\<forall>v \<in> set vs. unambiguous v)"
  "no_duplicate_members debug seen ms = Ok () \<longleftrightarrow>
    distinct (map fst ms) \<and> set (map fst ms) \<inter> seen = {} \<and> (\<forall>m \<in> set ms. unambiguous (snd m))"
  by (induction debug v and debug vs and debug seen ms rule: no_duplicate_keys_no_duplicate_elements_no_duplicate_members.induct) auto

lemma distinct_clearjunk_id: "distinct (map fst ms) \<Longrightarrow> AList.clearjunk ms = ms"
  by (induction ms) (auto simp: delete_id)

lemma json_get_unambiguous: "distinct (map fst ms) \<Longrightarrow> json_get (JObject ms) k = map_of ms k"
proof -
  assume d: "distinct (map fst ms)"
  then have "distinct (map fst (rev ms))" by (simp add: rev_map [symmetric])
  then have junk: "AList.clearjunk (rev ms) = rev ms" by (rule distinct_clearjunk_id)
  have "distinct (map fst (object_members ms))"
    using d by (simp add: object_members_def junk distinct_map inj_on_def)
  moreover have "set (object_members ms) = set ms" by (simp add: object_members_def junk)
  ultimately have "map_of (object_members ms) k = Some v \<longleftrightarrow> map_of ms k = Some v" for v
    using d by simp
  then show ?thesis unfolding json_get.simps by (metis not_None_eq)
qed

text \<open>
  C39: A message with a repeated key is refused. The guard accepts exactly the inputs that are one document in which no
  object, at any depth, has a key twice; in such a document the first member with a key is also the last one, so readers
  that keep either agree.
\<close>
theorem ambiguous_documents_refused:
  "(reject_duplicate_keys J bytes = Ok () \<longleftrightarrow> (\<exists>v. sj_document J bytes = Ok v \<and> unambiguous v)) \<and>
   (unambiguous (JObject ms) \<longrightarrow> json_get (JObject ms) k = map_of ms k)"
  by (cases "sj_document J bytes") (auto simp: reject_duplicate_keys_def no_duplicate_Ok_iff json_get_unambiguous simp del: json_get.simps)



section \<open>Offers\<close>

definition kept :: "offer_slot \<Rightarrow> known_transport option" where
  "kept slot = (case slot of Known offer \<Rightarrow> Some offer | Unknown _ \<Rightarrow> None)"

lemma keep_known_simps [simp]:
  "keep_known_offers [] = []" "keep_known_offers (Known offer # slots) = offer # keep_known_offers slots"
  "keep_known_offers (Unknown tag # slots) = keep_known_offers slots"
  "keep_known_offers (slots @ slots') = keep_known_offers slots @ keep_known_offers slots'"
  by (simp_all add: keep_known_offers_def List.map_filter_def)

lemma keep_known_as_slots [simp]: "keep_known_offers (as_offer_slots offers) = offers"
  by (induction offers) (simp_all add: as_offer_slots_def)

definition single_locator :: "json \<Rightarrow> bool" where
  "single_locator v \<longleftrightarrow>
     (\<exists>ms tag. v = JObject ms \<and> json_get v ''transport'' = Some (JString tag) \<and>
       (\<exists>k loc. \<forall>m \<in> set (object_members ms). fst m = ''transport'' \<or> m = (k, JString loc)))"

lemma distinct_object_members: "distinct (map fst (object_members ms))"
  by (simp add: object_members_def distinct_map inj_on_def)
    (metis distinct_clearjunk distinct_map inj_on_def prod.expand)

lemma extra_field_loop_Ok:
  assumes "distinct (map fst ms)"
  shows "extra_field_loop n ms = Ok () \<longleftrightarrow>
    (\<exists>k loc. \<forall>m \<in> set ms. fst m = ''transport'' \<or> n = 0 \<and> m = (k, JString loc))"
  using assms
proof (induction n ms rule: extra_field_loop.induct)
  case (2 n k v ms)
  have str: "as_str v \<noteq> None \<longleftrightarrow> (\<exists>s. v = JString s)" by (cases v) auto
  show ?case
  proof (cases "k = ''transport''")
    case True
    then show ?thesis using 2 by simp
  next
    case False
    show ?thesis
    proof (cases "n = 0 \<and> as_str v \<noteq> None")
      case True
      then obtain s where v: "v = JString s" using str by blast
      have "extra_field_loop (Suc 0) ms = Ok () \<longleftrightarrow> (\<forall>m \<in> set ms. fst m = ''transport'')"
        using 2 False True by auto
      moreover have "(k, x) \<notin> set ms" for x using 2(3) by force
      ultimately show ?thesis using False True by (auto simp: v)
    next
      case no: False
      then show ?thesis using False str by auto
    qed
  qed
qed simp

lemma reject_enumeration_Ok: "reject_enumeration_shaped_unknown_offer v = Ok () \<longleftrightarrow> single_locator v"
proof (cases v)
  case (JObject ms)
  have "single_locator v \<longleftrightarrow> (\<exists>tag. json_get v ''transport'' = Some (JString tag)) \<and>
      (\<exists>k loc. \<forall>m \<in> set (object_members ms). fst m = ''transport'' \<or> m = (k, JString loc))"
    unfolding single_locator_def JObject by blast
  then show ?thesis
    unfolding JObject using extra_field_loop_Ok [OF distinct_object_members, of 0 ms]
    by (auto simp del: json_get.simps split: option.splits json.splits)
qed (simp_all add: single_locator_def)

text \<open>
  C40: The two readers of offer lists agree. The reader of a claim returns the known offers among the slots that the
  reader of a hold response returns, and fails with the same text on the same lists.
\<close>
theorem transport_readers_agree:
  "deserialize_known_transports J vs = and_then (deserialize_transport_slots J vs) (\<lambda>slots. Ok (keep_known_offers slots))"
proof (induction vs)
  case (Cons v vs)
  show ?case
    by (cases "offer_within_byte_cap J v"; cases "is_known_transport v"; cases "sj_transport J v";
        cases "reject_enumeration_shaped_unknown_offer v"; cases "deserialize_transport_slots J vs")
      (use Cons.IH in auto)
qed simp


section \<open>Bindings\<close>

definition well_bound :: "offer_slot list \<Rightarrow> batch_hold_answer list \<Rightarrow> bool" where
  "well_bound offers answers \<longleftrightarrow>
     answers \<noteq> [] \<and> length answers \<le> MAX_BATCH_HOLD_KEYS \<and> length offers \<le> MAX_BATCH_HOLD_OFFERS \<and>
     (\<forall>b indices. BatchHave b indices \<in> set answers \<longrightarrow>
        length indices \<le> MAX_OFFERS_PER_ANSWER \<and> (\<forall>i \<in> set indices. unat i < length offers) \<and>
        distinct (map (\<lambda>i. slot_wire_tag (offers ! unat i)) indices)) \<and>
     (\<forall>i < length offers. \<exists>b indices. BatchHave b indices \<in> set answers \<and> i \<in> unat ` set indices)"

lemma index_loop_Ok:
  assumes "\<forall>i \<in> seen. slot_wire_tag (offers ! i) \<in> kinds"
  shows "index_loop pos offers seen kinds indices = Ok seen' \<longleftrightarrow>
    seen' = seen \<union> unat ` set indices \<and> (\<forall>i \<in> set indices. unat i < length offers) \<and>
    distinct (map (\<lambda>i. slot_wire_tag (offers ! unat i)) indices) \<and>
    (\<forall>i \<in> set indices. slot_wire_tag (offers ! unat i) \<notin> kinds)"
  using assms
proof (induction indices arbitrary: seen kinds)
  case (Cons i indices)
  have "\<forall>j \<in> insert (unat i) seen. slot_wire_tag (offers ! j) \<in> insert (slot_wire_tag (offers ! unat i)) kinds"
    using Cons.prems by auto
  note ih = Cons.IH [OF this]
  show ?case
  proof (cases "length offers \<le> unat i \<or> unat i \<in> seen \<or> slot_wire_tag (offers ! unat i) \<in> kinds")
    case True
    then show ?thesis using Cons.prems by (auto simp: Let_def)
  next
    case False
    then have "index_loop pos offers seen kinds (i # indices) =
        index_loop pos offers (insert (unat i) seen) (insert (slot_wire_tag (offers ! unat i)) kinds) indices"
      by (simp add: Let_def)
    then show ?thesis using False ih by (auto simp: not_le image_iff)
  qed
qed auto

lemma answer_loop_Ok:
  "answer_loop pos offers referenced answers = Ok referenced' \<longleftrightarrow>
    (\<forall>b indices. BatchHave b indices \<in> set answers \<longrightarrow>
        length indices \<le> MAX_OFFERS_PER_ANSWER \<and> (\<forall>i \<in> set indices. unat i < length offers) \<and>
        distinct (map (\<lambda>i. slot_wire_tag (offers ! unat i)) indices)) \<and>
    referenced' = referenced \<union> {i. \<exists>b indices. BatchHave b indices \<in> set answers \<and> i \<in> unat ` set indices}"
  by (induction pos offers referenced answers rule: answer_loop.induct) (auto simp: index_loop_Ok not_le)

lemma check_batch_offer_bindings_Ok: "check_batch_offer_bindings offers answers = Ok () \<longleftrightarrow> well_bound offers answers"
proof (cases "answer_loop 0 offers {} answers")
  case (Inl e)
  then have no: "\<nexists>r. answer_loop 0 offers {} answers = Ok r" by simp
  then have "\<not> well_bound offers answers" unfolding answer_loop_Ok well_bound_def by blast
  then show ?thesis using Inl by (simp add: check_batch_offer_bindings_def)
next
  case (Inr r)
  let ?R = "{i. \<exists>b indices. BatchHave b indices \<in> set answers \<and> i \<in> unat ` set indices}"
  have r: "r = ?R" "\<forall>b indices. BatchHave b indices \<in> set answers \<longrightarrow>
        length indices \<le> MAX_OFFERS_PER_ANSWER \<and> (\<forall>i \<in> set indices. unat i < length offers) \<and>
        distinct (map (\<lambda>i. slot_wire_tag (offers ! unat i)) indices)"
    using Inr unfolding answer_loop_Ok by blast+
  have "List.find (\<lambda>i. i \<notin> r) [0..<length offers] = None \<longleftrightarrow> (\<forall>i < length offers. i \<in> r)"
    by (auto simp: find_None_iff)
  then have "(case List.find (\<lambda>i. i \<notin> r) [0..<length offers] of Some orphan \<Rightarrow> Err (f orphan) | None \<Rightarrow> Ok ()) = Ok () \<longleftrightarrow>
      (\<forall>i < length offers. i \<in> ?R)" for f :: "nat \<Rightarrow> claim_codec_error"
    using r(1) by (simp split: option.splits) (metis not_None_eq)
  then show ?thesis using r(2) Inr by (auto simp: check_batch_offer_bindings_def well_bound_def not_less)
qed

lemma remap_loop_eq:
  "remap_loop remap ks slots =
    (remap @ map (\<lambda>n. map_option (\<lambda>_. of_nat (length ks + length (keep_known_offers (take n slots)))) (kept (slots ! n))) [0..<length slots],
     ks @ keep_known_offers slots)"
proof (induction slots arbitrary: remap ks)
  case (Cons slot slots)
  have split: "[0..<Suc (length slots)] = 0 # map Suc [0..<length slots]" by (simp add: map_Suc_upt upt_conv_Cons del: upt_Suc)
  show ?case
    by (cases slot) (simp_all add: Cons.IH split o_def kept_def del: upt_Suc of_nat_add of_nat_Suc)
qed simp

lemma keep_known_take:
  assumes "n < length slots" "kept (slots ! n) = Some offer"
  shows "length (keep_known_offers (take n slots)) < length (keep_known_offers slots)"
    "keep_known_offers slots ! length (keep_known_offers (take n slots)) = offer"
proof -
  have slot: "slots ! n = Known offer" using assms(2) by (simp add: kept_def split: offer_slot.splits)
  have "slots = take n slots @ Known offer # drop (Suc n) slots" using id_take_nth_drop [OF assms(1)] slot by simp
  then have e: "keep_known_offers slots = keep_known_offers (take n slots) @ offer # keep_known_offers (drop (Suc n) slots)"
    by (metis keep_known_simps(2,4))
  show "length (keep_known_offers (take n slots)) < length (keep_known_offers slots)"
    "keep_known_offers slots ! length (keep_known_offers (take n slots)) = offer"
    by (simp_all add: e)
qed

lemma length_keep_known: "length (keep_known_offers slots) \<le> length slots"
  by (simp add: keep_known_offers_def List.map_filter_def)

text \<open>What a remapped index points to.\<close>

definition slot_index :: "offer_slot list \<Rightarrow> nat \<Rightarrow> nat" where
  "slot_index slots n = length (keep_known_offers (take n slots))"

lemma remap_index_eq:
  assumes "length slots \<le> MAX_BATCH_HOLD_OFFERS" "unat i < length slots"
  shows "remap_index (fst (remap_loop [] [] slots)) i = map_option (\<lambda>_. of_nat (slot_index slots (unat i))) (kept (slots ! unat i))"
  using assms by (simp add: remap_index_def remap_loop_eq slot_index_def)

lemma slot_index_u16:
  assumes "length slots \<le> MAX_BATCH_HOLD_OFFERS"
  shows "unat (of_nat (slot_index slots n) :: u16) = slot_index slots n"
proof -
  have "slot_index slots n \<le> length (take n slots)" unfolding slot_index_def by (rule length_keep_known)
  also have "\<dots> \<le> 512" using assms by (simp add: MAX_BATCH_HOLD_OFFERS_def MAX_BATCH_HOLD_KEYS_def)
  finally show ?thesis by (simp add: unat_of_nat)
qed

lemma remap_named:
  assumes "length slots \<le> MAX_BATCH_HOLD_OFFERS" "\<forall>i \<in> set indices. unat i < length slots"
  shows "map (\<lambda>i. keep_known_offers slots ! unat i) (List.map_filter (remap_index (fst (remap_loop [] [] slots))) indices) =
      keep_known_offers (map (\<lambda>i. slots ! unat i) indices) \<and>
    (\<forall>i \<in> set (List.map_filter (remap_index (fst (remap_loop [] [] slots))) indices). unat i < length (keep_known_offers slots))"
  using assms(2)
proof (induction indices)
  case (Cons i indices)
  have r: "remap_index (fst (remap_loop [] [] slots)) i = map_option (\<lambda>_. of_nat (slot_index slots (unat i))) (kept (slots ! unat i))"
    using remap_index_eq [OF assms(1)] Cons.prems by simp
  show ?case
  proof (cases "slots ! unat i")
    case (Known offer)
    then have k: "kept (slots ! unat i) = Some offer" by (simp add: kept_def)
    note keep_known_take [OF _ k] slot_index_u16 [OF assms(1), of "unat i"]
    then show ?thesis using Cons k by (simp add: r Known List.map_filter_simps slot_index_def)
  next
    case (Unknown tag)
    then show ?thesis using Cons by (simp add: r kept_def List.map_filter_simps)
  qed
qed (simp add: List.map_filter_simps)

text \<open>Each answer keeps its digest and names the known offers among those it named before.\<close>

fun same_binding :: "offer_slot list \<Rightarrow> known_transport list \<Rightarrow> batch_hold_answer \<Rightarrow> batch_hold_answer \<Rightarrow> bool" where
  "same_binding slots offers (BatchHave b indices) (BatchHave b' indices') \<longleftrightarrow>
     b' = b \<and> map (\<lambda>i. offers ! unat i) indices' = keep_known_offers (map (\<lambda>i. slots ! unat i) indices)"
| "same_binding slots offers BatchAbsent BatchAbsent \<longleftrightarrow> True"
| "same_binding slots offers _ _ \<longleftrightarrow> False"

lemma keep_known_tags: "map wire_tag (keep_known_offers slots) = map slot_wire_tag (filter (\<lambda>slot. kept slot \<noteq> None) slots)"
  by (induction slots) (auto simp: kept_def split: offer_slot.splits)

lemma slot_index_onto:
  assumes "p < length (keep_known_offers slots)"
  shows "\<exists>n < length slots. kept (slots ! n) \<noteq> None \<and> slot_index slots n = p"
  using assms
proof (induction slots rule: rev_induct)
  case (snoc slot slots)
  show ?case
  proof (cases "p < length (keep_known_offers slots)")
    case True
    with snoc.IH obtain n where "n < length slots" "kept (slots ! n) \<noteq> None" "slot_index slots n = p" by blast
    then show ?thesis by (intro exI [of _ n]) (simp add: nth_append slot_index_def)
  next
    case False
    then show ?thesis using snoc.prems
      by (intro exI [of _ "length slots"]) (cases slot; simp add: slot_index_def kept_def)
  qed
qed simp

lemma remap_member:
  assumes "length slots \<le> MAX_BATCH_HOLD_OFFERS" "i \<in> set indices" "unat i < length slots" "kept (slots ! unat i) \<noteq> None"
  shows "slot_index slots (unat i) \<in> unat ` set (List.map_filter (remap_index (fst (remap_loop [] [] slots))) indices)"
proof -
  have "remap_index (fst (remap_loop [] [] slots)) i = Some (of_nat (slot_index slots (unat i)))"
    using remap_index_eq [OF assms(1,3)] assms(4) by auto
  then have "of_nat (slot_index slots (unat i)) \<in> set (List.map_filter (remap_index (fst (remap_loop [] [] slots))) indices)"
    using assms(2) by (force simp: List.map_filter_def)
  then show ?thesis using slot_index_u16 [OF assms(1), of "unat i"] by (metis image_eqI)
qed

lemma remap_answer_Have:
  "remap_answer remap a = BatchHave b indices' \<longleftrightarrow> (\<exists>indices. a = BatchHave b indices \<and> indices' = List.map_filter (remap_index remap) indices)"
  by (cases a) auto

lemma compact_keeps_bindings:
  assumes "well_bound slots answers" "compact_offer_slots slots answers = (offers, answers')"
  shows "offers = keep_known_offers slots" "list_all2 (same_binding slots offers) answers answers'"
    "well_bound (as_offer_slots offers) answers'"
proof -
  let ?remap = "fst (remap_loop [] [] slots)"
  have cap: "length slots \<le> MAX_BATCH_HOLD_OFFERS" using assms(1) by (simp add: well_bound_def)
  show offers: "offers = keep_known_offers slots"
    using assms(2) by (auto simp: compact_offer_slots_def case_prod_unfold remap_loop_eq Let_def)
  have eq: "answers' = map (remap_answer ?remap) answers"
    using assms(2) by (auto simp: compact_offer_slots_def case_prod_unfold Let_def)
  have "same_binding slots offers a (remap_answer ?remap a)" if "a \<in> set answers" for a
  proof (cases a)
    case (BatchHave b indices)
    then have "\<forall>i \<in> set indices. unat i < length slots" using that assms(1) by (auto simp: well_bound_def)
    then show ?thesis using remap_named [OF cap] by (simp add: BatchHave offers)
  qed simp
  then show "list_all2 (same_binding slots offers) answers answers'"
    by (simp add: eq list_all2_conv_all_nth)
  show "well_bound (as_offer_slots offers) answers'"
    unfolding well_bound_def
  proof (intro conjI allI impI)
    show "answers' \<noteq> []" "length answers' \<le> MAX_BATCH_HOLD_KEYS" using assms(1) by (simp_all add: eq well_bound_def)
    show "length (as_offer_slots offers) \<le> MAX_BATCH_HOLD_OFFERS"
      using cap length_keep_known [of slots] by (simp add: as_offer_slots_def offers)
  next
    fix b indices' assume "BatchHave b indices' \<in> set answers'"
    then obtain indices where hv: "BatchHave b indices \<in> set answers"
      and i': "indices' = List.map_filter (remap_index ?remap) indices"
      by (auto simp: eq remap_answer_Have dest!: sym [of "BatchHave b indices'"])
    have old: "length indices \<le> MAX_OFFERS_PER_ANSWER" "\<forall>i \<in> set indices. unat i < length slots"
      "distinct (map (\<lambda>i. slot_wire_tag (slots ! unat i)) indices)"
      using hv assms(1) by (auto simp: well_bound_def)
    show "length indices' \<le> MAX_OFFERS_PER_ANSWER"
      using order_trans [OF length_filter_le old(1)] by (simp add: i' List.map_filter_def)
    have new: "map (\<lambda>i. offers ! unat i) indices' = keep_known_offers (map (\<lambda>i. slots ! unat i) indices)"
      and range: "\<forall>i \<in> set indices'. unat i < length offers"
      using remap_named [OF cap old(2)] by (simp_all add: i' offers)
    show "\<forall>i \<in> set indices'. unat i < length (as_offer_slots offers)" using range by (simp add: as_offer_slots_def)
    have "map (\<lambda>i. slot_wire_tag (as_offer_slots offers ! unat i)) indices' = map wire_tag (map (\<lambda>i. offers ! unat i) indices')"
      using range by (simp add: as_offer_slots_def)
    also have "\<dots> = map slot_wire_tag (filter (\<lambda>slot. kept slot \<noteq> None) (map (\<lambda>i. slots ! unat i) indices))"
      by (simp only: new keep_known_tags)
    finally show "distinct (map (\<lambda>i. slot_wire_tag (as_offer_slots offers ! unat i)) indices')"
      using old(3) distinct_map_filter [of slot_wire_tag "map (\<lambda>i. slots ! unat i) indices"] by (simp add: o_def)
  next
    fix p assume "p < length (as_offer_slots offers)"
    then obtain n where n: "n < length slots" "kept (slots ! n) \<noteq> None" "slot_index slots n = p"
      using slot_index_onto [of p slots] by (auto simp: as_offer_slots_def offers)
    then obtain b indices i where hv: "BatchHave b indices \<in> set answers" "i \<in> set indices" "n = unat i"
      using assms(1) unfolding well_bound_def by blast
    have "p \<in> unat ` set (List.map_filter (remap_index ?remap) indices)"
      using remap_member [OF cap hv(2)] n hv(3) by simp
    moreover have "BatchHave b (List.map_filter (remap_index ?remap) indices) \<in> set answers'"
      using hv(1) by (force simp: eq)
    ultimately show "\<exists>b indices. BatchHave b indices \<in> set answers' \<and> p \<in> unat ` set indices" by blast
  qed
qed


text \<open>The dictionary is bounded by the positive answers.\<close>

fun answer_indices :: "batch_hold_answer \<Rightarrow> nat list" where
  "answer_indices (BatchHave b indices) = map unat indices"
| "answer_indices BatchAbsent = []"

definition is_have :: "batch_hold_answer \<Rightarrow> bool" where
  "is_have a \<longleftrightarrow> a \<noteq> BatchAbsent"

lemma well_bound_count:
  assumes "well_bound offers answers"
  shows "length offers \<le> MAX_OFFERS_PER_ANSWER * length (filter is_have answers)"
proof -
  have "{..<length offers} \<subseteq> set (concat (map answer_indices answers))"
  proof
    fix i assume "i \<in> {..<length offers}"
    then obtain b indices where "BatchHave b indices \<in> set answers" "i \<in> unat ` set indices"
      using assms unfolding well_bound_def by blast
    then show "i \<in> set (concat (map answer_indices answers))" by (auto intro!: bexI [of _ "BatchHave b indices"])
  qed
  then have "card {..<length offers} \<le> card (set (concat (map answer_indices answers)))" by (intro card_mono) auto
  also have "\<dots> \<le> length (concat (map answer_indices answers))" by (rule card_length)
  also have "\<dots> \<le> MAX_OFFERS_PER_ANSWER * length (filter is_have answers)"
  proof -
    have "\<forall>a \<in> set answers. length (answer_indices a) \<le> (if is_have a then MAX_OFFERS_PER_ANSWER else 0)"
    proof
      fix a assume a: "a \<in> set answers"
      show "length (answer_indices a) \<le> (if is_have a then MAX_OFFERS_PER_ANSWER else 0)"
      proof (cases a)
        case (BatchHave b indices)
        then have "length indices \<le> MAX_OFFERS_PER_ANSWER" using a assms unfolding well_bound_def by blast
        then show ?thesis by (simp add: BatchHave is_have_def)
      qed (simp add: is_have_def)
    qed
    then show ?thesis by (induction answers) auto
  qed
  finally show ?thesis by simp
qed

lemma decode_batch_hold_response_Ok:
  assumes "decode_batch_hold_response J bytes n = Ok r"
  obtains w slots where "sj_batch_response J bytes = Ok w" "deserialize_transport_slots J (bw_offers w) = Ok slots"
    "length (bw_answers w) = n" "n \<le> MAX_BATCH_HOLD_KEYS" "well_bound slots (bw_answers w)"
    "compact_offer_slots slots (bw_answers w) = (br_offers r, br_answers r)"
  using assms unfolding decode_batch_hold_response_def
  by (auto simp: check_batch_offer_bindings_Ok case_prod_unfold Let_def prod_eq_iff split: if_splits)

text \<open>
  C13: An accepted batch answer stays bound to the question. It has one answer for each key asked, at most 256; each answer
  keeps the digest the peer sent and names exactly the known offers among those the peer named for that key, in order, even
  when offers of unknown kinds were dropped before them; there are at most four offers for each positive answer; and the
  sender's own check accepts the decoded value.
\<close>
theorem batch_answers_stay_bound:
  assumes "decode_batch_hold_response J bytes n = Ok r"
  shows "length (br_answers r) = n \<and> n \<le> MAX_BATCH_HOLD_KEYS \<and>
    length (br_offers r) \<le> MAX_OFFERS_PER_ANSWER * length (filter is_have (br_answers r)) \<and>
    (\<exists>w slots. sj_batch_response J bytes = Ok w \<and> deserialize_transport_slots J (bw_offers w) = Ok slots \<and>
      list_all2 (same_binding slots (br_offers r)) (bw_answers w) (br_answers r)) \<and>
    check_batch_offer_bindings (as_offer_slots (br_offers r)) (br_answers r) = Ok ()"
proof -
  obtain w slots where w: "sj_batch_response J bytes = Ok w" "deserialize_transport_slots J (bw_offers w) = Ok slots"
    "length (bw_answers w) = n" "n \<le> MAX_BATCH_HOLD_KEYS" "well_bound slots (bw_answers w)"
    "compact_offer_slots slots (bw_answers w) = (br_offers r, br_answers r)"
    by (rule decode_batch_hold_response_Ok [OF assms])
  note c = compact_keeps_bindings [OF w(5,6)]
  have "length (br_answers r) = n" using c(2) w(3) by (simp add: list_all2_lengthD [symmetric])
  moreover have "length (br_offers r) \<le> MAX_OFFERS_PER_ANSWER * length (filter is_have (br_answers r))"
    using well_bound_count [OF c(3)] by (simp add: as_offer_slots_def)
  ultimately show ?thesis using w c(2,3) by (auto simp: check_batch_offer_bindings_Ok)
qed

text \<open>A peer offers a transport this build does not know, and this node's own.\<close>

definition example_wire :: batch_hold_response_wire where
  "example_wire = \<lparr> bw_schema_version = 1,
     bw_offers = [JObject [(''transport'', JString ''pigeon'')], JObject [(''transport'', JString ''iroh'')]],
     bw_answers = [BatchHave (Blake3Digest []) [0, 1], BatchAbsent] \<rparr>"

definition example_serde :: serde where
  "example_serde = \<lparr> sj_document = (\<lambda>_. Ok JNull), sj_custom = (\<lambda>_ e. e), sj_debug = (\<lambda>k. k), sj_to_string = (\<lambda>_. Ok []),
     sj_transport = (\<lambda>_. Ok (KnownIroh (NodeId []))), sj_payload = (\<lambda>_. Err []), sj_claim = (\<lambda>_. Err []),
     sj_hold_query = (\<lambda>_. Err []), sj_hold_response = (\<lambda>_. Err []), sj_batch_query = (\<lambda>_. Err []),
     sj_batch_response = (\<lambda>_. Ok example_wire), sj_write_claim = (\<lambda>_. Err []), sj_write_hold_query = (\<lambda>_. Err []),
     sj_write_hold_response = (\<lambda>_. Err []), sj_write_batch_query = (\<lambda>_. Err []), sj_write_batch_response = (\<lambda>_. Err []) \<rparr>"

lemma example_decodes:
  "decode_batch_hold_response example_serde [] 2 = Ok \<lparr> br_schema_version = 1, br_offers = [KnownIroh (NodeId [])],
     br_answers = [BatchHave (Blake3Digest []) [0], BatchAbsent] \<rparr>"
proof -
  have slots: "deserialize_transport_slots example_serde (bw_offers example_wire) = Ok [Unknown ''pigeon'', Known (KnownIroh (NodeId []))]"
    by (simp add: example_serde_def example_wire_def offer_within_byte_cap_def is_known_transport_def object_members_def
      KNOWN_TRANSPORT_TAGS_def)
  then show ?thesis
    by (simp add: decode_batch_hold_response_def check_size_def reject_duplicate_keys_def check_version_def
      QUERY_SCHEMA_VERSION_def MAX_BATCH_HOLD_KEYS_def MAX_BATCH_HOLD_OFFERS_def MAX_OFFERS_PER_ANSWER_def
      check_batch_offer_bindings_def compact_offer_slots_def remap_index_def List.map_filter_simps
      example_serde_def example_wire_def Let_def upt_rec)
qed

theorem batch_answers_stay_bound_witness:
  "(\<exists>slots. deserialize_transport_slots example_serde (bw_offers example_wire) = Ok slots \<and>
     list_all2 (same_binding slots [KnownIroh (NodeId [])]) (bw_answers example_wire) [BatchHave (Blake3Digest []) [0], BatchAbsent]) \<and>
   check_batch_offer_bindings (as_offer_slots [KnownIroh (NodeId [])]) [BatchHave (Blake3Digest []) [0], BatchAbsent] = Ok ()"
  using batch_answers_stay_bound [OF example_decodes] by (auto simp: example_serde_def)

theorem ambiguous_documents_refused_witness:
  "json_get (JObject [(''a'', JNull), (''b'', JBool True)]) ''b'' = Some (JBool True)"
  using ambiguous_documents_refused [of example_serde "[]" "[(''a'', JNull), (''b'', JBool True)]" "''b''"] by (simp del: json_get.simps)

end
