(* ===== verification/Availability.thy ===== *)
theory Availability
  imports Supply_Catalog Claim_Wire Derive_Ledger Rust_Str
begin

text \<open>
  The index of what this node holds, \<^verbatim>\<open>daemon-core/src/availability.rs\<close>. Entries are shared: a query keeps
  the one it looked up while the map changes, so they live in a heap and the map holds their addresses. The address of an
  entry is the identifier of its registration in the supply catalog, which is never used twice. A query is a machine with
  one step for each lock it takes; the answers of the file system, the dumper, the store and the clock are the argument
  \<open>world\<close> of a step.
\<close>

section \<open>Definitions\<close>

datatype nar_dumper = CommandNarDumper string | MemoryNarDumper bytes | RegularFileNarDumper

fun production_source :: "nar_dumper \<Rightarrow> string \<Rightarrow> nar_production_source" where
  "production_source (CommandNarDumper program) path = Process program [''--dump'', path]"
| "production_source (MemoryNarDumper bytes) path = Memory bytes"
| "production_source RegularFileNarDumper path = RegularFile path"

record nar_hash_mismatch =
  mm_registered :: nar_hash_key
  mm_computed :: nar_hash_key
  mm_store_path :: string

datatype availability_error = AvDump string | AvPersist string | AvMismatch nar_hash_mismatch

definition display_mismatch :: "nar_hash_mismatch \<Rightarrow> string" where
  "display_mismatch m = ''NarHash mismatch: '' @ from_utf8_lossy (mm_store_path m) @ '' was registered under '' @
     display_nar_hash (mm_registered m) @ '' but its NAR dumps to '' @ display_nar_hash (mm_computed m) @
     ''; the binding is quarantined (never announced or served)''"

fun display_availability_error :: "availability_error \<Rightarrow> string" where
  "display_availability_error (AvDump e) = ''nix-store --dump failed: '' @ e"
| "display_availability_error (AvPersist e) = ''availability index persistence failed: '' @ e"
| "display_availability_error (AvMismatch m) = display_mismatch m"

record derived_nar =
  dn_blake3 :: blake3_digest
  dn_nar_size :: u64

datatype derive_outcome = Verified derived_nar | Quarantined nar_hash_mismatch

record persisted_registration =
  ps_key :: nar_hash_key
  ps_store_path :: string
  ps_derived :: "derived_nar option"

record index_entry =
  en_store_path :: string
  en_registration :: supply_registration
  en_digest :: "derive_outcome option"
  en_persisted_derived :: "derived_nar option"

record availability_index =
  ai_node_id :: node_id
  ai_dumper :: nar_dumper
  ai_entries :: "(nar_hash_key, u64) hash_map"
  ai_heap :: "(u64, index_entry) hash_map"
  ai_catalog_addr :: nat
  ai_catalog :: catalog_state
  ai_store :: "persisted_registration list"   \<comment> \<open>what a restart would load\<close>
  ai_ledger :: derive_ledger                   \<comment> \<open>the ledger of the responder\<close>
  ai_dumps :: nat                              \<comment> \<open>calls of the dumper so far\<close>
  ai_announced :: "claim list"

text \<open>A store replaces its contents, fails and keeps them, or fails after the replacement.\<close>

datatype save_answer = Saved | NotSaved string | SavedThenFailed string

record world =
  wd_exists :: "string \<Rightarrow> bool"
  wd_dump :: "string \<Rightarrow> (string, bytes) result"
  wd_nar_size :: "string \<Rightarrow> (string, u64) result"
  wd_save :: save_answer
  wd_now :: u64
  wd_cancelled :: bool

record hashes =
  hs_sha256 :: "bytes \<Rightarrow> bytes"
  hs_blake3 :: "bytes \<Rightarrow> bytes"

definition key_from_raw_nar :: "hashes \<Rightarrow> bytes \<Rightarrow> nar_hash_key" where
  "key_from_raw_nar HS raw = NarHashKey (hs_sha256 HS raw)"

definition digest_from_raw_nar :: "hashes \<Rightarrow> bytes \<Rightarrow> blake3_digest" where
  "digest_from_raw_nar HS raw = Blake3Digest (hs_blake3 HS raw)"


subsection \<open>The stored index\<close>

datatype stored_value = PathOnly string | WithDerived string blake3_digest u64

fun stored_of :: "persisted_registration \<Rightarrow> stored_value" where
  "stored_of entry =
     (case ps_derived entry of
        Some derived \<Rightarrow> WithDerived (ps_store_path entry) (dn_blake3 derived) (dn_nar_size derived)
      | None \<Rightarrow> PathOnly (ps_store_path entry))"

text \<open>What stops the two loops, by what the message is made of.\<close>

datatype store_error = PathNotUtf8 string | NonCanonicalKey string nar_hash_key_parse_error

text \<open>The ordered map that is written, and the registrations that are read from one.\<close>

fun json_store_save_loop ::
  "(string, stored_value) hash_map \<Rightarrow> persisted_registration list \<Rightarrow> (store_error, (string, stored_value) hash_map) result" where
  "json_store_save_loop m [] = Ok (sort_key fst m)"
| "json_store_save_loop m (entry # entries) =
     (if from_utf8 (ps_store_path entry) = None
      then Err (PathNotUtf8 (ps_store_path entry))
      else json_store_save_loop (hm_insert m (display_nar_hash (ps_key entry)) (stored_of entry)) entries)"

fun json_store_load_loop :: "(string \<times> stored_value) list \<Rightarrow> (store_error, persisted_registration list) result" where
  "json_store_load_loop [] = Ok []"
| "json_store_load_loop ((key_str, v) # raw) =
     and_then (map_err (NonCanonicalKey key_str) (nar_hash_from_str key_str)) (\<lambda>key.
     and_then (json_store_load_loop raw) (\<lambda>out.
     Ok (\<lparr> ps_key = key,
           ps_store_path = (case v of PathOnly p \<Rightarrow> p | WithDerived p _ _ \<Rightarrow> p),
           ps_derived = (case v of PathOnly _ \<Rightarrow> None | WithDerived _ b n \<Rightarrow> Some \<lparr> dn_blake3 = b, dn_nar_size = n \<rparr>) \<rparr> # out)))"


subsection \<open>Registration\<close>

definition snapshot :: "availability_index \<Rightarrow> persisted_registration list" where
  "snapshot ai = List.map_filter (\<lambda>(key, a). map_option (\<lambda>e.
     \<lparr> ps_key = key, ps_store_path = en_store_path e, ps_derived = en_persisted_derived e \<rparr>) (hm_get (ai_heap ai) a)) (ai_entries ai)"

definition persist_locked :: "world \<Rightarrow> availability_index \<Rightarrow> availability_index \<times> (string, unit) result" where
  "persist_locked w ai =
     (case wd_save w of
        Saved \<Rightarrow> (ai\<lparr> ai_store := snapshot ai \<rparr>, Ok ())
      | NotSaved e \<Rightarrow> (ai, Err e)
      | SavedThenFailed e \<Rightarrow> (ai\<lparr> ai_store := snapshot ai \<rparr>, Err e))"

definition retire_supply_registration :: "availability_index \<Rightarrow> u64 \<Rightarrow> availability_index" where
  "retire_supply_registration ai gone =
     (case hm_get (ai_heap ai) gone of
        None \<Rightarrow> ai
      | Some e \<Rightarrow>
          (let (reg, cat) = retire_supply (ai_catalog_addr ai) (ai_catalog ai) (en_registration e)
           in ai\<lparr> ai_heap := hm_insert (ai_heap ai) gone (e\<lparr> en_registration := reg \<rparr>), ai_catalog := cat \<rparr>))"

definition record_of :: "nar_dumper \<Rightarrow> string \<Rightarrow> derived_nar \<Rightarrow> supply_catalog_record" where
  "record_of dumper path derived =
     \<lparr> sc_declared_size = dn_nar_size derived, sc_source = production_source dumper path, sc_store_path = path \<rparr>"

text \<open>No result stands for the panic of an exhausted catalog.\<close>

fun open_loop :: "availability_index \<Rightarrow> persisted_registration list \<Rightarrow> availability_index option" where
  "open_loop ai [] = Some ai"
| "open_loop ai (reg # loaded) =
     Option.bind (register_supply (ai_catalog_addr ai) (ai_catalog ai)) (\<lambda>(supply_registration, cat).
     let cat = (case ps_derived reg of
           Some derived \<Rightarrow> fst (publish_supply (ai_catalog_addr ai) cat supply_registration (dn_blake3 derived)
             (record_of (ai_dumper ai) (ps_store_path reg) derived))
         | None \<Rightarrow> cat);
         e = \<lparr> en_store_path = ps_store_path reg, en_registration = supply_registration,
           en_digest = map_option Verified (ps_derived reg), en_persisted_derived = ps_derived reg \<rparr>
     in open_loop (ai\<lparr> ai_catalog := cat, ai_heap := hm_insert (ai_heap ai) (rg_id supply_registration) e,
       ai_entries := hm_insert (ai_entries ai) (ps_key reg) (rg_id supply_registration) \<rparr>) loaded)"

definition open_index ::
  "node_id \<Rightarrow> nar_dumper \<Rightarrow> nat \<Rightarrow> derive_ledger \<Rightarrow> persisted_registration list \<Rightarrow> availability_index option" where
  "open_index node_id dumper addr ledger loaded =
     open_loop \<lparr> ai_node_id = node_id, ai_dumper = dumper, ai_entries = [], ai_heap = [], ai_catalog_addr = addr,
       ai_catalog = catalog_state_default, ai_store = loaded, ai_ledger = ledger, ai_dumps = 0, ai_announced = [] \<rparr> loaded"

definition register_binding ::
  "world \<Rightarrow> availability_index \<Rightarrow> nar_hash_key \<Rightarrow> string \<Rightarrow> derived_nar option \<Rightarrow>
    (availability_index \<times> (string, unit) result) option" where
  "register_binding w ai key store_path verified =
     (let replaced = hm_get (ai_entries ai) key
      in if (case Option.bind replaced (hm_get (ai_heap ai)) of Some e \<Rightarrow> en_store_path e = store_path | None \<Rightarrow> False) \<and> verified = None
         then Some (ai, Ok ())
         else
           Option.bind (register_supply (ai_catalog_addr ai) (ai_catalog ai)) (\<lambda>(reg, cat).
           let e = \<lparr> en_store_path = store_path, en_registration = reg, en_digest = map_option Verified verified,
                 en_persisted_derived = verified \<rparr>;
               ai = ai\<lparr> ai_catalog := cat, ai_heap := hm_insert (ai_heap ai) (rg_id reg) e,
                 ai_entries := hm_insert (ai_entries ai) key (rg_id reg) \<rparr>
           in case persist_locked w ai of
                (ai, Err error) \<Rightarrow>
                  (let ai = ai\<lparr> ai_entries := (case replaced of Some previous \<Rightarrow> hm_insert (ai_entries ai) key previous
                         | None \<Rightarrow> hm_remove (ai_entries ai) key) \<rparr>
                   in Some (retire_supply_registration ai (rg_id reg), Err error))
              | (ai, Ok _) \<Rightarrow>
                  Some (case replaced of Some previous \<Rightarrow> retire_supply_registration ai previous | None \<Rightarrow> ai, Ok ())))"

definition verify_and_register ::
  "hashes \<Rightarrow> world \<Rightarrow> availability_index \<Rightarrow> nar_hash_key \<Rightarrow> string \<Rightarrow> u64 \<Rightarrow>
    (availability_index \<times> (availability_error, derived_nar) result) option" where
  "verify_and_register HS w ai key store_path expected_size =
     (let ai = ai\<lparr> ai_dumps := Suc (ai_dumps ai) \<rparr>
      in case wd_dump w store_path of
           Err e \<Rightarrow> Some (ai, Err (AvDump e))
         | Ok raw \<Rightarrow>
             if wd_cancelled w then Some (ai, Err (AvDump ''candidate registration cancelled''))
             else if key_from_raw_nar HS raw \<noteq> key then
               Some (ai, Err (AvMismatch \<lparr> mm_registered = key, mm_computed = key_from_raw_nar HS raw, mm_store_path = store_path \<rparr>))
             else if of_nat (length raw) \<noteq> expected_size then
               Some (ai, Err (AvDump ''candidate registration NAR size differs from metadata''))
             else
               let derived = \<lparr> dn_blake3 = digest_from_raw_nar HS raw, dn_nar_size = of_nat (length raw) \<rparr>
               in map_option (\<lambda>(ai, r). (ai, case r of Ok _ \<Rightarrow> Ok derived | Err e \<Rightarrow> Err (AvPersist e)))
                    (register_binding w ai key store_path (Some derived)))"

definition unregister :: "world \<Rightarrow> availability_index \<Rightarrow> nar_hash_key \<Rightarrow> availability_index \<times> (string, unit) result" where
  "unregister w ai key =
     (case hm_get (ai_entries ai) key of
        None \<Rightarrow> (ai, Ok ())
      | Some removed \<Rightarrow>
          persist_locked w (retire_supply_registration (ai\<lparr> ai_entries := hm_remove (ai_entries ai) key \<rparr>) removed))"

definition drop_if_same :: "world \<Rightarrow> availability_index \<Rightarrow> nar_hash_key \<Rightarrow> u64 \<Rightarrow> availability_index \<times> (string, unit) result" where
  "drop_if_same w ai key observed =
     (if hm_get (ai_entries ai) key = Some observed
      then persist_locked w (retire_supply_registration (ai\<lparr> ai_entries := hm_remove (ai_entries ai) key \<rparr>) observed)
      else (ai, Ok ()))"

definition entry_path :: "availability_index \<Rightarrow> u64 \<Rightarrow> string" where
  "entry_path ai a = (case hm_get (ai_heap ai) a of Some e \<Rightarrow> en_store_path e | None \<Rightarrow> [])"

definition prune_if_gone :: "world \<Rightarrow> availability_index \<Rightarrow> nar_hash_key \<Rightarrow> availability_index \<times> (string, unit) result" where
  "prune_if_gone w ai key =
     (case hm_get (ai_entries ai) key of
        Some observed \<Rightarrow> if \<not> wd_exists w (entry_path ai observed) then drop_if_same w ai key observed else (ai, Ok ())
      | None \<Rightarrow> (ai, Ok ()))"

definition drop_index :: "availability_index \<Rightarrow> availability_index" where
  "drop_index ai = foldl (\<lambda>ai a. retire_supply_registration ai a) ai (hm_values (ai_entries ai))"


subsection \<open>Derivation\<close>

definition MAX_BATCH_DERIVE_WORK :: u32 where "MAX_BATCH_DERIVE_WORK = 16"

record derive_gate =
  dg_remaining :: "u32 option"    \<comment> \<open>no bound when it is missing\<close>
  dg_peer :: "node_id option"

definition local_gate :: derive_gate where
  "local_gate = \<lparr> dg_remaining = None, dg_peer = None \<rparr>"

definition for_peer :: "u32 option \<Rightarrow> node_id \<Rightarrow> derive_gate" where
  "for_peer batch asker = \<lparr> dg_remaining = batch, dg_peer = Some asker \<rparr>"

definition try_reserve :: "derive_gate \<Rightarrow> derive_gate \<times> bool" where
  "try_reserve gate =
     (case dg_remaining gate of
        None \<Rightarrow> (gate, True)
      | Some n \<Rightarrow> if n = 0 then (gate, False) else (gate\<lparr> dg_remaining := Some (n - 1) \<rparr>, True))"

datatype derive_result = Derived derived_nar bool | DeriveDeferred

definition set_slot :: "availability_index \<Rightarrow> u64 \<Rightarrow> (index_entry \<Rightarrow> index_entry) \<Rightarrow> availability_index" where
  "set_slot ai a f = (case hm_get (ai_heap ai) a of None \<Rightarrow> ai | Some e \<Rightarrow> ai\<lparr> ai_heap := hm_insert (ai_heap ai) a (f e) \<rparr>)"

text \<open>The dump and its verdict, after the gate.\<close>

definition derive_fresh ::
  "hashes \<Rightarrow> world \<Rightarrow> nar_hash_key \<Rightarrow> u64 \<Rightarrow> string \<Rightarrow> availability_index \<Rightarrow>
    availability_index \<times> (availability_error, derive_result) result" where
  "derive_fresh HS w key a path ai =
     (let ai = ai\<lparr> ai_dumps := Suc (ai_dumps ai) \<rparr>
      in case wd_dump w path of
           Err e \<Rightarrow> (ai, Err (AvDump e))
         | Ok raw \<Rightarrow>
             if key_from_raw_nar HS raw \<noteq> key then
               let mismatch = \<lparr> mm_registered = key, mm_computed = key_from_raw_nar HS raw, mm_store_path = path \<rparr>
               in (set_slot ai a (\<lambda>e. e\<lparr> en_digest := Some (Quarantined mismatch) \<rparr>), Err (AvMismatch mismatch))
             else
               let derived = \<lparr> dn_blake3 = digest_from_raw_nar HS raw, dn_nar_size = of_nat (length raw) \<rparr>
               in (set_slot ai a (\<lambda>e. e\<lparr> en_digest := Some (Verified derived), en_persisted_derived := Some derived \<rparr>),
                   Ok (Derived derived True)))"

definition derive ::
  "hashes \<Rightarrow> world \<Rightarrow> nar_hash_key \<Rightarrow> u64 \<Rightarrow> derive_gate \<Rightarrow> availability_index \<Rightarrow>
    availability_index \<times> derive_gate \<times> (availability_error, derive_result) result" where
  "derive HS w key a gate ai =
     (case Option.bind (hm_get (ai_heap ai) a) en_digest of
        Some (Verified derived) \<Rightarrow> (ai, gate, Ok (Derived derived False))
      | Some (Quarantined mismatch) \<Rightarrow> (ai, gate, Err (AvMismatch mismatch))
      | None \<Rightarrow>
          let (gate, reserved) = try_reserve gate; path = entry_path ai a
          in if \<not> reserved then (ai, gate, Ok DeriveDeferred)
             else case dg_peer gate of
               None \<Rightarrow> (let (ai, r) = derive_fresh HS w key a path ai in (ai, gate, r))
             | Some asker \<Rightarrow>
                 (case wd_nar_size w path of
                    Err e \<Rightarrow> (ai, gate, Err (AvDump e))
                  | Ok nar_size \<Rightarrow>
                      let (ledger, admission) = try_admit (ai_ledger ai) (wd_now w) asker nar_size;
                          ai = ai\<lparr> ai_ledger := ledger \<rparr>
                      in if admission \<noteq> Admitted then (ai, gate, Ok DeriveDeferred)
                         else let (ai, r) = derive_fresh HS w key a path ai in (ai, gate, r)))"


subsection \<open>Queries\<close>

definition iroh_offer :: "availability_index \<Rightarrow> known_transport" where
  "iroh_offer ai = KnownIroh (ai_node_id ai)"

datatype budgeted_hold = HoldHave blake3_digest "known_transport list" | HoldAbsent | HoldDeferred

text \<open>Where a query is: before it locks the map, or with the entry it observed.\<close>

datatype hold_pc =
  AtLookup
| AtCheck u64
| AtDrop u64
| AtRecheck
| AtDerive u64
| AtFailed u64 availability_error
| AtPublish u64 derived_nar bool
| HoldDone "(availability_error, budgeted_hold) result"

fun hold_step ::
  "hashes \<Rightarrow> world \<Rightarrow> nar_hash_key \<Rightarrow> hold_pc \<Rightarrow> derive_gate \<Rightarrow> availability_index \<Rightarrow>
    availability_index \<times> derive_gate \<times> hold_pc" where
  "hold_step HS w key AtLookup gate ai =
     (ai, gate, case hm_get (ai_entries ai) key of Some a \<Rightarrow> AtCheck a | None \<Rightarrow> HoldDone (Ok HoldAbsent))"
| "hold_step HS w key (AtCheck a) gate ai = (ai, gate, if \<not> wd_exists w (entry_path ai a) then AtDrop a else AtDerive a)"
| "hold_step HS w key (AtDrop a) gate ai =
     (case drop_if_same w ai key a of
        (ai, Err e) \<Rightarrow> (ai, gate, HoldDone (Err (AvPersist e)))
      | (ai, Ok _) \<Rightarrow> (ai, gate, AtRecheck))"
| "hold_step HS w key AtRecheck gate ai =
     (ai, gate, if hm_get (ai_entries ai) key = None then HoldDone (Ok HoldAbsent) else AtLookup)"
| "hold_step HS w key (AtDerive a) gate ai =
     (case derive HS w key a gate ai of
        (ai, gate, Ok DeriveDeferred) \<Rightarrow> (ai, gate, HoldDone (Ok HoldDeferred))
      | (ai, gate, Ok (Derived derived fresh)) \<Rightarrow> (ai, gate, AtPublish a derived fresh)
      | (ai, gate, Err e) \<Rightarrow> (ai, gate, AtFailed a e))"
| "hold_step HS w key (AtFailed a e) gate ai =
     (ai, gate, if hm_get (ai_entries ai) key = Some a then HoldDone (Err e) else AtLookup)"
| "hold_step HS w key (AtPublish a derived fresh) gate ai =
     (if hm_get (ai_entries ai) key \<noteq> Some a then (ai, gate, AtLookup)
      else case hm_get (ai_heap ai) a of
        None \<Rightarrow> (ai, gate, AtLookup)
      | Some e \<Rightarrow>
          (let (cat, published) = publish_supply (ai_catalog_addr ai) (ai_catalog ai) (en_registration e) (dn_blake3 derived)
                 (record_of (ai_dumper ai) (en_store_path e) derived);
               ai = ai\<lparr> ai_catalog := cat \<rparr>
           in if \<not> published then
                (ai, gate, HoldDone (Err (AvDump (''active registration for '' @ display_nar_hash key @
                  '' was retired before supply publication''))))
              else
                (if fresh then fst (persist_locked w ai) else ai, gate,
                 HoldDone (Ok (HoldHave (dn_blake3 derived) [iroh_offer ai])))))"
| "hold_step HS w key (HoldDone r) gate ai = (ai, gate, HoldDone r)"

text \<open>A query that nothing interferes with, in the worlds \<open>ws n, ws (n + 1), \<dots>\<close>.\<close>

partial_function (option) hold_loop ::
  "hashes \<Rightarrow> (nat \<Rightarrow> world) \<Rightarrow> nar_hash_key \<Rightarrow> nat \<Rightarrow> availability_index \<times> derive_gate \<times> hold_pc \<Rightarrow>
    (nat \<times> availability_index \<times> derive_gate \<times> (availability_error, budgeted_hold) result) option" where
  "hold_loop HS ws key n s =
     (case s of
        (ai, gate, HoldDone r) \<Rightarrow> Some (n, ai, gate, r)
      | (ai, gate, pc) \<Rightarrow> hold_loop HS ws key (Suc n) (hold_step HS (ws n) key pc gate ai))"

definition hold_budgeted ::
  "hashes \<Rightarrow> (nat \<Rightarrow> world) \<Rightarrow> nat \<Rightarrow> nar_hash_key \<Rightarrow> derive_gate \<Rightarrow> availability_index \<Rightarrow>
    (nat \<times> availability_index \<times> derive_gate \<times> (availability_error, budgeted_hold) result) option" where
  "hold_budgeted HS ws n key gate ai = hold_loop HS ws key n (ai, gate, AtLookup)"

definition hold ::
  "hashes \<Rightarrow> (nat \<Rightarrow> world) \<Rightarrow> nar_hash_key \<Rightarrow> availability_index \<Rightarrow>
    (availability_index \<times> (availability_error, hold_answer) result) option" where
  "hold HS ws key ai =
     map_option (\<lambda>(n, ai, gate, r). (ai, and_then r (\<lambda>h.
       case h of HoldHave blake3 offers \<Rightarrow> Ok (Have blake3 offers) | HoldAbsent \<Rightarrow> Ok Absent | HoldDeferred \<Rightarrow> Ok Absent)))
     (hold_budgeted HS ws 0 key local_gate ai)"

definition answer_for_peer ::
  "hashes \<Rightarrow> (nat \<Rightarrow> world) \<Rightarrow> hold_query \<Rightarrow> node_id \<Rightarrow> availability_index \<Rightarrow>
    (availability_index \<times> (availability_error, hold_response) result) option" where
  "answer_for_peer HS ws query asker ai =
     map_option (\<lambda>(n, ai, gate, r). (ai, and_then r (\<lambda>h.
       Ok \<lparr> hr_schema_version = QUERY_SCHEMA_VERSION,
            hr_answer = (case h of HoldHave blake3 offers \<Rightarrow> Have blake3 offers | HoldAbsent \<Rightarrow> Absent | HoldDeferred \<Rightarrow> Absent) \<rparr>)))
     (hold_budgeted HS ws 0 (hq_key query) (for_peer None asker) ai)"

record batch_progress =
  bp_answers :: "batch_hold_answer list"
  bp_any_have :: bool
  bp_deferred :: u32
  bp_faulted :: u32
  bp_first_fault :: "string option"

fun batch_answer ::
  "nar_hash_key \<Rightarrow> (availability_error, budgeted_hold) result \<Rightarrow> batch_progress \<Rightarrow> batch_progress" where
  "batch_answer key (Inr (HoldHave blake3 _)) b =
     b\<lparr> bp_any_have := True, bp_answers := bp_answers b @ [BatchHave blake3 [0]] \<rparr>"
| "batch_answer key (Inr HoldAbsent) b = b\<lparr> bp_answers := bp_answers b @ [BatchAbsent] \<rparr>"
| "batch_answer key (Inr HoldDeferred) b =
     b\<lparr> bp_deferred := saturating_add (bp_deferred b) 1, bp_answers := bp_answers b @ [BatchAbsent] \<rparr>"
| "batch_answer key (Inl err) b =
     b\<lparr> bp_faulted := saturating_add (bp_faulted b) 1,
        bp_first_fault := (if bp_first_fault b = None
          then Some (display_nar_hash key @ '' ('' @ display_availability_error err @ '')'') else bp_first_fault b),
        bp_answers := bp_answers b @ [BatchAbsent] \<rparr>"

fun batch_hold_loop ::
  "hashes \<Rightarrow> (nat \<Rightarrow> world) \<Rightarrow> nat \<Rightarrow> derive_gate \<Rightarrow> availability_index \<Rightarrow> batch_progress \<Rightarrow> nar_hash_key list \<Rightarrow>
    (availability_index \<times> batch_progress) option" where
  "batch_hold_loop HS ws n gate ai b [] = Some (ai, b)"
| "batch_hold_loop HS ws n gate ai b (key # keys) =
     Option.bind (hold_budgeted HS ws n key gate ai) (\<lambda>(n, ai, gate, r). batch_hold_loop HS ws n gate ai (batch_answer key r b) keys)"

definition batch_notes :: "batch_progress \<Rightarrow> string list" where
  "batch_notes b =
     (if 0 < bp_faulted b
      then [''daemon: batch hold-query: '' @ decimal (unat (bp_faulted b)) @
        '' key(s) could not be answered (answered Absent for each); first: '' @
        (case bp_first_fault b of Some f \<Rightarrow> f | None \<Rightarrow> ''<unknown>'')]
      else []) @
     (if 0 < bp_deferred b
      then [''daemon: batch hold-query: '' @ decimal (unat (bp_deferred b)) @
        '' cold key(s) exceeded a derivation bound (per-message MAX_BATCH_DERIVE_WORK='' @ decimal (unat MAX_BATCH_DERIVE_WORK) @
        '' or the per-peer/global byte budget); answered Absent without dumping - they warm the responder cache on a later, budget-bearing probe'']
      else [])"

definition answer_batch_reporting ::
  "hashes \<Rightarrow> (nat \<Rightarrow> world) \<Rightarrow> batch_hold_query \<Rightarrow> node_id \<Rightarrow> availability_index \<Rightarrow>
    (availability_index \<times> (claim_codec_error, batch_hold_response \<times> string list) result) option" where
  "answer_batch_reporting HS ws query asker ai =
     (case check_batch_keys (bq_keys query) of
        Err e \<Rightarrow> Some (ai, Err e)
      | Ok _ \<Rightarrow>
          map_option (\<lambda>(ai, b).
            (ai, Ok (\<lparr> br_schema_version = QUERY_SCHEMA_VERSION,
               br_offers = (if bp_any_have b then [iroh_offer ai] else []), br_answers = bp_answers b \<rparr>, batch_notes b)))
          (batch_hold_loop HS ws 0 (for_peer (Some MAX_BATCH_DERIVE_WORK) asker) ai
            \<lparr> bp_answers = [], bp_any_have = False, bp_deferred = 0, bp_faulted = 0, bp_first_fault = None \<rparr> (bq_keys query)))"

definition claim_for ::
  "hashes \<Rightarrow> (nat \<Rightarrow> world) \<Rightarrow> nar_hash_key \<Rightarrow> availability_index \<Rightarrow>
    (availability_index \<times> (availability_error, claim option) result) option" where
  "claim_for HS ws key ai =
     map_option (\<lambda>(ai, r). (ai, and_then r (\<lambda>answer.
       case answer of
         Have blake3 offers \<Rightarrow>
           Ok (Some \<lparr> cl_schema_version = CLAIM_SCHEMA_VERSION, cl_key = key, cl_payload = Some (WholeNar blake3),
             cl_holders = [ai_node_id ai], cl_transports = offers, cl_relay = None, cl_signatures = [] \<rparr>)
       | Absent \<Rightarrow> Ok None)))
     (hold HS ws key ai)"

definition publish_claim ::
  "hashes \<Rightarrow> (nat \<Rightarrow> world) \<Rightarrow> nar_hash_key \<Rightarrow> availability_index \<Rightarrow>
    (availability_index \<times> (availability_error, claim option) result) option" where
  "publish_claim HS ws key ai =
     map_option (\<lambda>(ai, r).
       (case r of Ok (Some c) \<Rightarrow> ai\<lparr> ai_announced := ai_announced ai @ [c] \<rparr> | _ \<Rightarrow> ai, r))
     (claim_for HS ws key ai)"


subsection \<open>Supply\<close>

text \<open>The second look at the path is \<open>metadata\<close>, an argument: found, missing, or an error.\<close>

definition supply_size ::
  "world \<Rightarrow> bool \<Rightarrow> (string \<Rightarrow> (string, bool) result) \<Rightarrow> availability_index \<Rightarrow> blake3_digest \<Rightarrow>
    (availability_error, u64 option) result" where
  "supply_size w cancelled metadata ai blake3 =
     (if cancelled then Err (AvDump ''NAR size probe cancelled'')
      else case probe_record (wd_exists w) (ai_catalog ai) blake3 of
        None \<Rightarrow> Ok None
      | Some record \<Rightarrow>
          (case metadata (sc_store_path record) of
             Err e \<Rightarrow> Err (AvDump (''checking store path '' @ from_utf8_lossy (sc_store_path record) @ '' for supply: '' @ e))
           | Ok found \<Rightarrow>
               if \<not> found then Ok None
               else if wd_cancelled w then Err (AvDump ''NAR size probe cancelled'')
               else Ok (Some (sc_declared_size record))))"

definition supply_raw_nar ::
  "hashes \<Rightarrow> world \<Rightarrow> bool \<Rightarrow> availability_index \<Rightarrow> blake3_digest \<Rightarrow> availability_index \<times> (availability_error, bytes) result" where
  "supply_raw_nar HS w cancelled ai blake3 =
     (if cancelled then (ai, Err (AvDump ''NAR supply cancelled''))
      else case probe_record (wd_exists w) (ai_catalog ai) blake3 of
        None \<Rightarrow> (ai, Err (AvDump (''no registered holding supplies '' @ display_digest blake3)))
      | Some record \<Rightarrow>
          let ai = ai\<lparr> ai_dumps := Suc (ai_dumps ai) \<rparr>
          in case wd_dump w (sc_store_path record) of
               Err e \<Rightarrow> (ai, Err (AvDump e))
             | Ok raw_nar \<Rightarrow>
                 if wd_cancelled w then (ai, Err (AvDump ''NAR supply cancelled''))
                 else if digest_from_raw_nar HS raw_nar \<noteq> blake3 then
                   (ai, Err (AvDump (from_utf8_lossy (sc_store_path record) @ '' now dumps to '' @ display_digest (digest_from_raw_nar HS raw_nar) @
                     '', not the announced '' @ display_digest blake3)))
                 else (ai, Ok raw_nar))"

end
