(* ===== verification/Availability_Safety.thy ===== *)
theory Availability_Safety
  imports Availability
begin

text \<open>
  What the index of \<^verbatim>\<open>availability.rs\<close> keeps under every interleaving of queries with registrations and removals,
  and what a query that nothing interferes with returns.
\<close>

section \<open>The invariant\<close>

text \<open>\<open>D path raw\<close>: the dump of \<open>path\<close> can return \<open>raw\<close>.\<close>

definition conforms :: "(string \<Rightarrow> bytes \<Rightarrow> bool) \<Rightarrow> world \<Rightarrow> bool" where
  "conforms D w \<longleftrightarrow> (\<forall>path raw. wd_dump w path = Ok raw \<longrightarrow> D path raw)"

definition genuine :: "hashes \<Rightarrow> (string \<Rightarrow> bytes \<Rightarrow> bool) \<Rightarrow> nar_hash_key \<Rightarrow> string \<Rightarrow> derived_nar \<Rightarrow> bool" where
  "genuine HS D key path derived \<longleftrightarrow>
     (\<exists>raw. D path raw \<and> key_from_raw_nar HS raw = key \<and>
       derived = \<lparr> dn_blake3 = digest_from_raw_nar HS raw, dn_nar_size = of_nat (length raw) \<rparr>)"

definition entry_ok :: "hashes \<Rightarrow> (string \<Rightarrow> bytes \<Rightarrow> bool) \<Rightarrow> nar_hash_key \<Rightarrow> availability_index \<Rightarrow> u64 \<Rightarrow> index_entry \<Rightarrow> bool" where
  "entry_ok HS D key ai a e \<longleftrightarrow>
     a \<le> cs_next_registration (ai_catalog ai) \<and> rg_id (en_registration e) = a \<and>
     belongs_to (en_registration e) (ai_catalog_addr ai) \<and>
     (\<forall>derived. en_digest e = Some (Verified derived) \<longrightarrow> genuine HS D key (en_store_path e) derived) \<and>
     (\<forall>derived. en_persisted_derived e = Some derived \<longrightarrow> en_digest e = Some (Verified derived))"

definition registered :: "availability_index \<Rightarrow> u64 \<Rightarrow> bool" where
  "registered ai a \<longleftrightarrow>
     (\<exists>e. hm_get (ai_heap ai) a = Some e \<and> \<not> rg_retired (en_registration e)) \<and> hm_get (cs_owners (ai_catalog ai)) a \<noteq> None"

definition backed :: "availability_index \<Rightarrow> blake3_digest \<Rightarrow> u64 \<Rightarrow> supply_catalog_record \<Rightarrow> bool" where
  "backed ai d a r \<longleftrightarrow>
     (\<exists>e derived. hm_get (ai_heap ai) a = Some e \<and> en_digest e = Some (Verified derived) \<and> dn_blake3 derived = d \<and>
       r = record_of (ai_dumper ai) (en_store_path e) derived)"

text \<open>
  Every entry belongs to one key, \<open>own\<close>. The supply of an entry needs the entry to be the current one of its key, but
  for the entries of \<open>X\<close>, which an operation has taken out of the map and not retired yet.
\<close>

definition index_ok ::
  "hashes \<Rightarrow> (string \<Rightarrow> bytes \<Rightarrow> bool) \<Rightarrow> (u64 \<Rightarrow> nar_hash_key) \<Rightarrow> u64 set \<Rightarrow> availability_index \<Rightarrow> bool" where
  "index_ok HS D own X ai \<longleftrightarrow>
     catalog_ok (ai_catalog ai) \<and> hm_ok (ai_entries ai) \<and>
     (\<forall>key a. hm_get (ai_entries ai) key = Some a \<longrightarrow> own a = key \<and> registered ai a) \<and>
     (\<forall>a e. hm_get (ai_heap ai) a = Some e \<longrightarrow> entry_ok HS D (own a) ai a e) \<and>
     (\<forall>d a r. record_at (ai_catalog ai) d a = Some r \<longrightarrow>
       backed ai d a r \<and> (a \<notin> X \<longrightarrow> hm_get (ai_entries ai) (own a) = Some a))"

lemma index_okD:
  assumes "index_ok HS D own X ai"
  shows "catalog_ok (ai_catalog ai)" "hm_ok (ai_entries ai)"
    "hm_get (ai_entries ai) key = Some a \<Longrightarrow> own a = key" "hm_get (ai_entries ai) key = Some a \<Longrightarrow> registered ai a"
    "hm_get (ai_heap ai) a = Some e \<Longrightarrow> entry_ok HS D (own a) ai a e"
    "record_at (ai_catalog ai) d a = Some r \<Longrightarrow> backed ai d a r"
    "record_at (ai_catalog ai) d a = Some r \<Longrightarrow> a \<notin> X \<Longrightarrow> hm_get (ai_entries ai) (own a) = Some a"
  using assms by (auto simp: index_ok_def)

lemmas index_parts = index_ok_def entry_ok_def registered_def backed_def

lemma index_ok_updates [simp]:
  "index_ok HS D own X (ai\<lparr> ai_store := st \<rparr>) = index_ok HS D own X ai"
  "index_ok HS D own X (ai\<lparr> ai_ledger := l \<rparr>) = index_ok HS D own X ai"
  "index_ok HS D own X (ai\<lparr> ai_dumps := n \<rparr>) = index_ok HS D own X ai"
  "index_ok HS D own X (ai\<lparr> ai_announced := cs \<rparr>) = index_ok HS D own X ai"
  by (simp_all add: index_parts)

lemma index_ok_entries_cong:
  assumes "index_ok HS D own X ai" "hm_ok es" "\<forall>k. hm_get es k = hm_get (ai_entries ai) k"
  shows "index_ok HS D own X (ai\<lparr> ai_entries := es \<rparr>)"
  using assms by (simp add: index_parts)

text \<open>The elementary changes: allocate an entry, bind a key, unbind a key, retire an entry.\<close>

lemma alloc_ok:
  assumes ok: "index_ok HS D own X ai" and reg: "register_supply (ai_catalog_addr ai) (ai_catalog ai) = Some (reg, cat)"
    and verified: "\<forall>derived. verified = Some derived \<longrightarrow> genuine HS D key path derived"
  defines "ai' \<equiv> ai\<lparr> ai_catalog := cat, ai_heap := hm_insert (ai_heap ai) (rg_id reg)
    \<lparr> en_store_path = path, en_registration = reg, en_digest = map_option Verified verified, en_persisted_derived = verified \<rparr> \<rparr>"
  shows "index_ok HS D (own(rg_id reg := key)) X ai'" "registered ai' (rg_id reg)" "hm_get (ai_heap ai) (rg_id reg) = None"
    "\<forall>k. hm_get (ai_entries ai) k \<noteq> Some (rg_id reg)"
proof -
  note r = register_supply_Some [OF index_okD(1) [OF ok] reg]
  have le: "a \<noteq> rg_id reg" if "a \<le> cs_next_registration (ai_catalog ai)" for a
    using that r(2,5) by (auto simp: word_le_nat_alt)
  have grow: "a \<le> cs_next_registration cat" if "a \<le> cs_next_registration (ai_catalog ai)" for a
    using that r(5) by (simp add: word_le_nat_alt)
  show new: "hm_get (ai_heap ai) (rg_id reg) = None"
    using le [of "rg_id reg"] index_okD(5) [OF ok, of "rg_id reg"] by (cases "hm_get (ai_heap ai) (rg_id reg)") (auto simp: entry_ok_def)
  then show unbound: "\<forall>k. hm_get (ai_entries ai) k \<noteq> Some (rg_id reg)"
    using index_okD(4) [OF ok] by (force simp: registered_def)
  show "registered ai' (rg_id reg)" using r(4,6) by (simp add: registered_def ai'_def)
  show "index_ok HS D (own(rg_id reg := key)) X ai'"
    unfolding index_ok_def
  proof (intro conjI allI impI)
    show "catalog_ok (ai_catalog ai')" "hm_ok (ai_entries ai')" using r(1) index_okD(2) [OF ok] by (simp_all add: ai'_def)
    show "(own(rg_id reg := key)) a = k" "registered ai' a" if "hm_get (ai_entries ai') k = Some a" for k a
      using that unbound index_okD(3,4) [OF ok, of k a] r(6) by (auto simp: ai'_def registered_def)
    show "entry_ok HS D ((own(rg_id reg := key)) a) ai' a e" if "hm_get (ai_heap ai') a = Some e" for a e
      using that verified index_okD(5) [OF ok, of a e] grow r(2,3)
      by (auto simp: ai'_def entry_ok_def belongs_to_def split: if_splits)
    fix d a re assume "record_at (ai_catalog ai') d a = Some re"
    then have rec: "record_at (ai_catalog ai) d a = Some re" using r(7) by (simp add: ai'_def)
    then have "a \<noteq> rg_id reg" using new index_okD(6) [OF ok rec] by (auto simp: backed_def)
    then show "backed ai' d a re" "a \<notin> X \<Longrightarrow> hm_get (ai_entries ai') ((own(rg_id reg := key)) a) = Some a"
      using index_okD(6,7) [OF ok rec] by (auto simp: ai'_def backed_def)
  qed
qed

lemma bind_ok:
  assumes "index_ok HS D own X ai" "own a = key" "registered ai a"
  shows "index_ok HS D own (X \<union> set_option (hm_get (ai_entries ai) key)) (ai\<lparr> ai_entries := hm_insert (ai_entries ai) key a \<rparr>)"
proof -
  let ?ai = "ai\<lparr> ai_entries := hm_insert (ai_entries ai) key a \<rparr>"
  have "hm_get (ai_entries ?ai) (own b) = Some b"
    if "record_at (ai_catalog ai) d b = Some r" "b \<notin> X \<union> set_option (hm_get (ai_entries ai) key)" for d b r
    using that index_okD(7) [OF assms(1) that(1)] assms(2) by (cases "own b = key") auto
  moreover have "own b = k \<and> registered ai b" if "hm_get (ai_entries ?ai) k = Some b" for k b
    using that assms(2,3) index_okD(3,4) [OF assms(1), of k b] by (auto split: if_splits)
  ultimately show ?thesis using assms(1) by (simp add: index_parts)
qed

lemma unbind_ok:
  assumes "index_ok HS D own X ai" "hm_get (ai_entries ai) key = Some a"
  shows "index_ok HS D own (insert a X) (ai\<lparr> ai_entries := hm_remove (ai_entries ai) key \<rparr>)"
  using assms by (auto simp: index_parts)

lemma retire_ok:
  assumes ok: "index_ok HS D own X ai" and gone: "\<forall>k. hm_get (ai_entries ai) k \<noteq> Some a" and e: "hm_get (ai_heap ai) a = Some e"
  shows "index_ok HS D own (X - {a}) (retire_supply_registration ai a)"
proof -
  let ?reg = "en_registration e"
  have reg: "rg_id ?reg = a" "belongs_to ?reg (ai_catalog_addr ai)" using index_okD(5) [OF ok e] by (auto simp: entry_ok_def)
  note r = retire_locked_ok [OF index_okD(1) [OF ok], of a]
  have run: "retire_supply_registration ai a = ai\<lparr> ai_heap := hm_insert (ai_heap ai) a
      (e\<lparr> en_registration := ?reg\<lparr> rg_retired := True \<rparr> \<rparr>), ai_catalog := retire_locked (ai_catalog ai) a \<rparr>"
    using reg e by (simp add: retire_supply_registration_def retire_supply_def)
  have other: "k \<noteq> a" if "hm_get (ai_entries ai) key = Some k" for key k using that gone by auto
  show ?thesis
    using ok e r(1) reg other unfolding run
    by (auto simp: index_parts r(2-4) belongs_to_def split: if_splits)
qed

text \<open>A verified entry that is current is published, and the supply of the others does not change.\<close>

lemma publish_ok:
  assumes ok: "index_ok HS D own X ai" and cur: "hm_get (ai_entries ai) key = Some a" and e: "hm_get (ai_heap ai) a = Some e"
    and derived: "en_digest e = Some (Verified derived)"
    and run: "publish_supply (ai_catalog_addr ai) (ai_catalog ai) (en_registration e) (dn_blake3 derived)
      (record_of (ai_dumper ai) (en_store_path e) derived) = (cat, published)"
  shows "published" "index_ok HS D own X (ai\<lparr> ai_catalog := cat \<rparr>)"
    "record_at cat (dn_blake3 derived) a = Some (record_of (ai_dumper ai) (en_store_path e) derived)"
    "\<forall>d b. b \<noteq> a \<longrightarrow> record_at cat d b = record_at (ai_catalog ai) d b"
proof -
  have reg: "rg_id (en_registration e) = a" "belongs_to (en_registration e) (ai_catalog_addr ai)" "\<not> rg_retired (en_registration e)"
    "hm_get (cs_owners (ai_catalog ai)) a \<noteq> None"
    using index_okD(4) [OF ok cur] index_okD(5) [OF ok e] e by (auto simp: registered_def entry_ok_def)
  have lock: "publish_locked (ai_catalog ai) a False (dn_blake3 derived) (record_of (ai_dumper ai) (en_store_path e) derived) = (cat, published)"
    using run reg by (simp add: publish_supply_def)
  have own: "own a = key" by (rule index_okD(3) [OF ok cur])
  obtain p: "published" "catalog_ok cat" "cs_next_registration cat = cs_next_registration (ai_catalog ai)"
    "\<forall>j. hm_get (cs_owners cat) j = (if j = a then Some (Some (dn_blake3 derived)) else hm_get (cs_owners (ai_catalog ai)) j)"
    "\<forall>d j. record_at cat d j = (if j = a then if d = dn_blake3 derived
      then Some (record_of (ai_dumper ai) (en_store_path e) derived) else None else record_at (ai_catalog ai) d j)"
    by (rule publish_locked_cases [OF index_okD(1) [OF ok], where i = a and retired = False and digest = "dn_blake3 derived"
        and r = "record_of (ai_dumper ai) (en_store_path e) derived"]) (use lock reg in auto)
  then show "published" "record_at cat (dn_blake3 derived) a = Some (record_of (ai_dumper ai) (en_store_path e) derived)"
    "\<forall>d b. b \<noteq> a \<longrightarrow> record_at cat d b = record_at (ai_catalog ai) d b" by simp_all
  show "index_ok HS D own X (ai\<lparr> ai_catalog := cat \<rparr>)"
    unfolding index_ok_def
  proof (intro conjI allI impI)
    show "catalog_ok (ai_catalog (ai\<lparr> ai_catalog := cat \<rparr>))" "hm_ok (ai_entries (ai\<lparr> ai_catalog := cat \<rparr>))"
      using p(2) index_okD(2) [OF ok] by simp_all
    show "own b = k" "registered (ai\<lparr> ai_catalog := cat \<rparr>) b" if "hm_get (ai_entries (ai\<lparr> ai_catalog := cat \<rparr>)) k = Some b" for k b
      using that index_okD(3,4) [OF ok, of k b] p(4) by (auto simp: registered_def)
    show "entry_ok HS D (own b) (ai\<lparr> ai_catalog := cat \<rparr>) b e'" if "hm_get (ai_heap (ai\<lparr> ai_catalog := cat \<rparr>)) b = Some e'" for b e'
      using that index_okD(5) [OF ok, of b e'] p(3) by (simp add: entry_ok_def)
    fix d b r assume "record_at (ai_catalog (ai\<lparr> ai_catalog := cat \<rparr>)) d b = Some r"
    then consider "b = a" "d = dn_blake3 derived" "r = record_of (ai_dumper ai) (en_store_path e) derived"
      | "b \<noteq> a" "record_at (ai_catalog ai) d b = Some r"
      using p(5) by (auto split: if_splits)
    then show "backed (ai\<lparr> ai_catalog := cat \<rparr>) d b r"
      "b \<notin> X \<Longrightarrow> hm_get (ai_entries (ai\<lparr> ai_catalog := cat \<rparr>)) (own b) = Some b"
      using e derived own cur index_okD(6,7) [OF ok, of d b r] by (auto simp: backed_def)
  qed
qed

text \<open>The verdict of a derivation, in a slot that had none.\<close>

lemma set_slot_ok:
  assumes ok: "index_ok HS D own X ai" and e: "hm_get (ai_heap ai) a = Some e" and cold: "en_digest e = None"
    and f: "en_store_path (f e) = en_store_path e" "en_registration (f e) = en_registration e"
      "\<forall>derived. en_digest (f e) = Some (Verified derived) \<longrightarrow> genuine HS D (own a) (en_store_path e) derived"
      "\<forall>derived. en_persisted_derived (f e) = Some derived \<longrightarrow> en_digest (f e) = Some (Verified derived)"
  shows "index_ok HS D own X (set_slot ai a f)"
proof -
  have run: "set_slot ai a f = ai\<lparr> ai_heap := hm_insert (ai_heap ai) a (f e) \<rparr>" using e by (simp add: set_slot_def)
  let ?ai = "ai\<lparr> ai_heap := hm_insert (ai_heap ai) a (f e) \<rparr>"
  have "registered ?ai b" if "registered ai b" for b using that e f(2) by (auto simp: registered_def)
  moreover have "backed ?ai d b r" if "backed ai d b r" for d b r using that e cold by (auto simp: backed_def)
  moreover have "entry_ok HS D (own b) ?ai b e'" if "hm_get (ai_heap ?ai) b = Some e'" for b e'
    using that f index_okD(5) [OF ok, of b] e by (auto simp: entry_ok_def split: if_splits)
  ultimately show ?thesis using ok unfolding run by (simp add: index_ok_def)
qed

section \<open>The operations\<close>

text \<open>What a query in progress relies on: its entry stays, and so does a verified digest.\<close>

definition extends :: "(u64 \<Rightarrow> nar_hash_key) \<Rightarrow> availability_index \<Rightarrow> (u64 \<Rightarrow> nar_hash_key) \<Rightarrow> availability_index \<Rightarrow> bool" where
  "extends own ai own' ai' \<longleftrightarrow>
     ai_node_id ai' = ai_node_id ai \<and>
     (\<forall>a e. hm_get (ai_heap ai) a = Some e \<longrightarrow> own' a = own a \<and> (\<exists>e'. hm_get (ai_heap ai') a = Some e' \<and>
       (\<forall>derived. en_digest e = Some (Verified derived) \<longrightarrow> en_digest e' = Some (Verified derived))))"

lemma extends_same [intro]: "ai_heap ai' = ai_heap ai \<Longrightarrow> ai_node_id ai' = ai_node_id ai \<Longrightarrow> extends own ai own ai'"
  by (auto simp: extends_def)

lemma extendsD:
  assumes "extends own ai own' ai'" "hm_get (ai_heap ai) a = Some e"
  obtains e' where "own' a = own a" "hm_get (ai_heap ai') a = Some e'"
    "\<forall>derived. en_digest e = Some (Verified derived) \<longrightarrow> en_digest e' = Some (Verified derived)"
  using assms unfolding extends_def by blast

lemma extends_trans: "extends own ai own' ai' \<Longrightarrow> extends own' ai' own'' ai'' \<Longrightarrow> extends own ai own'' ai''"
  unfolding extends_def by metis

lemma persist_locked_fields [simp]:
  "ai_entries (fst (persist_locked w ai)) = ai_entries ai" "ai_heap (fst (persist_locked w ai)) = ai_heap ai"
  "ai_catalog (fst (persist_locked w ai)) = ai_catalog ai" "ai_node_id (fst (persist_locked w ai)) = ai_node_id ai"
  "ai_dumps (fst (persist_locked w ai)) = ai_dumps ai" "ai_dumper (fst (persist_locked w ai)) = ai_dumper ai"
  "ai_catalog_addr (fst (persist_locked w ai)) = ai_catalog_addr ai"
  "index_ok HS D own X (fst (persist_locked w ai)) = index_ok HS D own X ai"
  by (auto simp: persist_locked_def split: save_answer.split)

lemma retire_fields [simp]:
  "ai_entries (retire_supply_registration ai a) = ai_entries ai" "ai_node_id (retire_supply_registration ai a) = ai_node_id ai"
  "ai_dumps (retire_supply_registration ai a) = ai_dumps ai" "ai_dumper (retire_supply_registration ai a) = ai_dumper ai"
  by (auto simp: retire_supply_registration_def Let_def split: option.split prod.split)

lemma retire_extends: "extends own ai own (retire_supply_registration ai a)"
  by (auto simp: extends_def retire_supply_registration_def Let_def split: option.split prod.split)

lemma drop_ok:
  assumes ok: "index_ok HS D own {} ai" and cur: "hm_get (ai_entries ai) key = Some a"
    and run: "persist_locked w (retire_supply_registration (ai\<lparr> ai_entries := hm_remove (ai_entries ai) key \<rparr>) a) = (ai', r)"
  shows "index_ok HS D own {} ai' \<and> extends own ai own ai'"
proof
  have ai': "ai' = fst (persist_locked w (retire_supply_registration (ai\<lparr> ai_entries := hm_remove (ai_entries ai) key \<rparr>) a))"
    by (simp add: run)
  let ?ai = "ai\<lparr> ai_entries := hm_remove (ai_entries ai) key \<rparr>"
  obtain e where "hm_get (ai_heap ?ai) a = Some e" using index_okD(4) [OF ok cur] by (auto simp: registered_def)
  moreover have "\<forall>k. hm_get (ai_entries ?ai) k \<noteq> Some a"
    using index_okD(3) [OF ok] cur by auto
  ultimately have "index_ok HS D own ({a} - {a}) (retire_supply_registration ?ai a)"
    by (intro retire_ok [OF unbind_ok [OF ok cur]])
  then show "index_ok HS D own {} ai'" by (simp add: ai')
  have "extends own ai own ?ai" by auto
  moreover have "extends own ?ai own (retire_supply_registration ?ai a)" by (rule retire_extends)
  moreover have "extends own (retire_supply_registration ?ai a) own ai'" unfolding ai' by (intro extends_same) simp_all
  ultimately show "extends own ai own ai'" by (blast intro: extends_trans)
qed

lemma drop_if_same_ok:
  assumes "index_ok HS D own {} ai" "drop_if_same w ai key observed = (ai', r)"
  shows "index_ok HS D own {} ai' \<and> extends own ai own ai'"
proof (cases "hm_get (ai_entries ai) key = Some observed")
  case True
  then show ?thesis using drop_ok [OF assms(1) True, of w ai' r] assms(2) by (simp add: drop_if_same_def)
next
  case False
  then show ?thesis using assms by (auto simp: drop_if_same_def)
qed

lemma unregister_ok:
  assumes "index_ok HS D own {} ai" "unregister w ai key = (ai', r)"
  shows "index_ok HS D own {} ai' \<and> extends own ai own ai'"
proof (cases "hm_get (ai_entries ai) key")
  case None
  then show ?thesis using assms by (auto simp: unregister_def)
next
  case (Some a)
  then show ?thesis using drop_ok [OF assms(1) Some, of w ai' r] assms(2) by (simp add: unregister_def)
qed

text \<open>A registration allocates an entry; then it binds it and retires the old one, or it retires the new one.\<close>

lemma register_binding_cases:
  assumes ok: "index_ok HS D own {} ai" and run: "register_binding w ai key path verified = Some (ai', r)"
    and verified: "\<forall>derived. verified = Some derived \<longrightarrow> genuine HS D key path derived"
  obtains (same) "ai' = ai" "r = Ok ()"
  | (new) reg cat ai1 where "register_supply (ai_catalog_addr ai) (ai_catalog ai) = Some (reg, cat)"
    "ai1 = ai\<lparr> ai_catalog := cat, ai_heap := hm_insert (ai_heap ai) (rg_id reg) \<lparr> en_store_path = path, en_registration = reg,
      en_digest = map_option Verified verified, en_persisted_derived = verified \<rparr> \<rparr>"
    "index_ok HS D (own(rg_id reg := key)) {} ai1" "registered ai1 (rg_id reg)" "extends own ai (own(rg_id reg := key)) ai1"
    "\<forall>k. hm_get (ai_entries ai) k \<noteq> Some (rg_id reg)"
    "\<forall>e. r = Err e \<longrightarrow> (\<exists>es st. hm_ok es \<and> (\<forall>k. hm_get es k = hm_get (ai_entries ai) k) \<and>
      ai' = retire_supply_registration (ai1\<lparr> ai_store := st, ai_entries := es \<rparr>) (rg_id reg))"
    "\<forall>u. r = Ok u \<longrightarrow> (\<exists>st. let ai2 = ai1\<lparr> ai_store := st, ai_entries := hm_insert (ai_entries ai1) key (rg_id reg) \<rparr>
      in ai' = (case hm_get (ai_entries ai) key of Some previous \<Rightarrow> retire_supply_registration ai2 previous | None \<Rightarrow> ai2))"
proof (cases "(case Option.bind (hm_get (ai_entries ai) key) (hm_get (ai_heap ai)) of Some e \<Rightarrow> en_store_path e = path | None \<Rightarrow> False) \<and> verified = None")
  case True
  then show thesis using run by (intro same) (simp_all add: register_binding_def)
next
  case False
  then obtain reg cat where reg: "register_supply (ai_catalog_addr ai) (ai_catalog ai) = Some (reg, cat)"
    using run by (auto simp: register_binding_def Let_def split: bind_splits)
  define e where "e = \<lparr> en_store_path = path, en_registration = reg, en_digest = map_option Verified verified, en_persisted_derived = verified \<rparr>"
  define ai1 where "ai1 = ai\<lparr> ai_catalog := cat, ai_heap := hm_insert (ai_heap ai) (rg_id reg) e \<rparr>"
  note alloc = alloc_ok [OF ok reg verified, folded e_def, folded ai1_def]
  have ext: "extends own ai (own(rg_id reg := key)) ai1" using alloc(3) by (auto simp: extends_def ai1_def)
  have parts: "(\<forall>e. r = Err e \<longrightarrow> (\<exists>es st. hm_ok es \<and> (\<forall>k. hm_get es k = hm_get (ai_entries ai) k) \<and>
      ai' = retire_supply_registration (ai1\<lparr> ai_store := st, ai_entries := es \<rparr>) (rg_id reg))) \<and>
    (\<forall>u. r = Ok u \<longrightarrow> (\<exists>st. let ai2 = ai1\<lparr> ai_store := st, ai_entries := hm_insert (ai_entries ai1) key (rg_id reg) \<rparr>
      in ai' = (case hm_get (ai_entries ai) key of Some previous \<Rightarrow> retire_supply_registration ai2 previous | None \<Rightarrow> ai2)))"
  proof -
    define ai2 where "ai2 = ai1\<lparr> ai_entries := hm_insert (ai_entries ai1) key (rg_id reg) \<rparr>"
    define es where "es = (case hm_get (ai_entries ai) key of Some previous \<Rightarrow> hm_insert (ai_entries ai2) key previous
      | None \<Rightarrow> hm_remove (ai_entries ai2) key)"
    have es: "hm_ok es" "hm_get es k = hm_get (ai_entries ai) k" for k
      using index_okD(2) [OF ok] by (auto simp: es_def ai2_def ai1_def split: option.split)
    have go: "(case persist_locked w ai2 of (ai3, Err error) \<Rightarrow>
          Some (retire_supply_registration (ai3\<lparr> ai_entries := es \<rparr>) (rg_id reg), Err error)
        | (ai3, Ok _) \<Rightarrow> Some (case hm_get (ai_entries ai) key of Some previous \<Rightarrow> retire_supply_registration ai3 previous | None \<Rightarrow> ai3, Ok ()))
      = Some (ai', r)"
      using run unfolding register_binding_def Let_def if_not_P [OF False]
      by (cases "hm_get (ai_entries ai) key"; cases "wd_save w") (auto simp: reg es_def ai2_def ai1_def e_def persist_locked_def)
    have same: "ai1\<lparr> ai_store := st, ai_entries := hm_insert (ai_entries ai1) key (rg_id reg) \<rparr> = ai2\<lparr> ai_store := st \<rparr>"
      "ai1\<lparr> ai_store := st, ai_entries := es \<rparr> = ai2\<lparr> ai_store := st, ai_entries := es \<rparr>" for st
      by (simp_all add: ai2_def)
    show ?thesis
    proof (cases "wd_save w")
      case Saved
      then show ?thesis using go by (auto simp: persist_locked_def same(1) Let_def)
    next
      case (NotSaved e')
      then have "ai' = retire_supply_registration (ai1\<lparr> ai_store := ai_store ai1, ai_entries := es \<rparr>) (rg_id reg)" "r = Err e'"
        using go by (auto simp: persist_locked_def ai2_def)
      then show ?thesis using es by blast
    next
      case (SavedThenFailed e')
      then have "ai' = retire_supply_registration (ai1\<lparr> ai_store := snapshot ai2, ai_entries := es \<rparr>) (rg_id reg)" "r = Err e'"
        using go by (auto simp: persist_locked_def same(2))
      then show ?thesis using es by blast
    qed
  qed
  then show thesis using reg alloc ext by (intro new [of reg cat ai1]) (simp_all add: ai1_def e_def)
qed

lemma register_binding_ok:
  assumes ok: "index_ok HS D own {} ai" and run: "register_binding w ai key path verified = Some (ai', r)"
    and verified: "\<forall>derived. verified = Some derived \<longrightarrow> genuine HS D key path derived"
  shows "\<exists>own'. index_ok HS D own' {} ai' \<and> extends own ai own' ai'"
proof (rule register_binding_cases [OF ok run verified])
  assume "ai' = ai" "r = Ok ()"
  then show ?thesis using ok by blast
next
  fix reg :: supply_registration and cat ai1
  let ?own = "own(rg_id reg := key)"
  assume ai1: "ai1 = ai\<lparr> ai_catalog := cat, ai_heap := hm_insert (ai_heap ai) (rg_id reg) \<lparr> en_store_path = path, en_registration = reg,
      en_digest = map_option Verified verified, en_persisted_derived = verified \<rparr> \<rparr>"
    and ok1: "index_ok HS D ?own {} ai1" and live: "registered ai1 (rg_id reg)" and ext: "extends own ai ?own ai1"
    and fresh: "\<forall>k. hm_get (ai_entries ai) k \<noteq> Some (rg_id reg)"
    and bad: "\<forall>e. r = Err e \<longrightarrow> (\<exists>es st. hm_ok es \<and> (\<forall>k. hm_get es k = hm_get (ai_entries ai) k) \<and>
      ai' = retire_supply_registration (ai1\<lparr> ai_store := st, ai_entries := es \<rparr>) (rg_id reg))"
    and good: "\<forall>u. r = Ok u \<longrightarrow> (\<exists>st. let ai2 = ai1\<lparr> ai_store := st, ai_entries := hm_insert (ai_entries ai1) key (rg_id reg) \<rparr>
      in ai' = (case hm_get (ai_entries ai) key of Some previous \<Rightarrow> retire_supply_registration ai2 previous | None \<Rightarrow> ai2))"
  have es1: "ai_entries ai1 = ai_entries ai" by (simp add: ai1)
  show ?thesis
  proof (cases r)
    case (Inl e)
    then obtain es st where es: "hm_ok es" "\<forall>k. hm_get es k = hm_get (ai_entries ai) k"
      and ai': "ai' = retire_supply_registration (ai1\<lparr> ai_store := st, ai_entries := es \<rparr>) (rg_id reg)"
      using bad by blast
    have ok2: "index_ok HS D ?own {} (ai1\<lparr> ai_store := st, ai_entries := es \<rparr>)"
      by (rule index_ok_entries_cong) (use ok1 es es1 in auto)
    have "index_ok HS D ?own ({} - {rg_id reg}) ai'"
      unfolding ai' by (rule retire_ok [OF ok2]) (use es fresh ai1 in simp_all)
    moreover have "extends ?own ai1 ?own ai'"
      unfolding ai' by (rule extends_trans [OF extends_same retire_extends]) simp_all
    ultimately show ?thesis using extends_trans [OF ext] by auto
  next
    case (Inr u)
    then obtain st where ai': "ai' = (let ai2 = ai1\<lparr> ai_store := st, ai_entries := hm_insert (ai_entries ai1) key (rg_id reg) \<rparr>
      in case hm_get (ai_entries ai) key of Some previous \<Rightarrow> retire_supply_registration ai2 previous | None \<Rightarrow> ai2)"
      using good unfolding Let_def by blast
    let ?ai2 = "ai1\<lparr> ai_store := st, ai_entries := hm_insert (ai_entries ai1) key (rg_id reg) \<rparr>"
    have ok2: "index_ok HS D ?own (set_option (hm_get (ai_entries ai) key)) ?ai2"
      using bind_ok [OF ok1 _ live, of key] es1 by (simp add: index_parts)
    have ext2: "extends ?own ai1 ?own ?ai2" by auto
    show ?thesis
    proof (cases "hm_get (ai_entries ai) key")
      case None
      then show ?thesis using ok2 extends_trans [OF ext ext2] ai' by auto
    next
      case (Some previous)
      obtain e where e: "hm_get (ai_heap ai) previous = Some e" using index_okD(4) [OF ok Some] by (auto simp: registered_def)
      have "previous \<noteq> rg_id reg" using fresh Some by auto
      then have "hm_get (ai_heap ?ai2) previous = Some e" using e ai1 by simp
      moreover have "\<forall>k. hm_get (ai_entries ?ai2) k \<noteq> Some previous"
        using index_okD(3) [OF ok] Some es1 \<open>previous \<noteq> rg_id reg\<close> by (auto split: if_splits)
      ultimately have "index_ok HS D ?own (set_option (hm_get (ai_entries ai) key) - {previous}) (retire_supply_registration ?ai2 previous)"
        by (intro retire_ok [OF ok2])
      moreover have "extends own ai ?own (retire_supply_registration ?ai2 previous)"
        by (rule extends_trans [OF extends_trans [OF ext ext2] retire_extends])
      ultimately show ?thesis using ai' Some by auto
    qed
  qed
qed

lemma verify_and_register_cases:
  assumes w: "conforms D w" and run: "verify_and_register HS w ai key path expected_size = Some (ai', r)"
  obtains (early) e where "ai' = ai\<lparr> ai_dumps := Suc (ai_dumps ai) \<rparr>" "r = Err e"
  | (late) derived r' where "genuine HS D key path derived"
    "register_binding w (ai\<lparr> ai_dumps := Suc (ai_dumps ai) \<rparr>) key path (Some derived) = Some (ai', r')"
    "r = (case r' of Ok _ \<Rightarrow> Ok derived | Err e \<Rightarrow> Err (AvPersist e))"
proof (cases "wd_dump w path")
  case (Inl e)
  then show thesis using run by (intro early) (auto simp: verify_and_register_def)
next
  case (Inr raw)
  show thesis
  proof (cases "\<not> wd_cancelled w \<and> key_from_raw_nar HS raw = key \<and> of_nat (length raw) = expected_size")
    case True
    let ?derived = "\<lparr> dn_blake3 = digest_from_raw_nar HS raw, dn_nar_size = of_nat (length raw) \<rparr>"
    have gen: "genuine HS D key path ?derived" using True w Inr by (auto simp: genuine_def conforms_def)
    obtain r' where "register_binding w (ai\<lparr> ai_dumps := Suc (ai_dumps ai) \<rparr>) key path (Some ?derived) = Some (ai', r')"
      "r = (case r' of Ok _ \<Rightarrow> Ok ?derived | Err e \<Rightarrow> Err (AvPersist e))"
      using run True Inr by (auto simp: verify_and_register_def Let_def)
    then show thesis by (rule late [OF gen])
  next
    case False
    then show thesis using run Inr early by (auto simp: verify_and_register_def Let_def split: if_splits)
  qed
qed

lemma verify_and_register_ok:
  assumes ok: "index_ok HS D own {} ai" and w: "conforms D w"
    and run: "verify_and_register HS w ai key path expected_size = Some (ai', r)"
  shows "\<exists>own'. index_ok HS D own' {} ai' \<and> extends own ai own' ai'"
proof -
  let ?ai = "ai\<lparr> ai_dumps := Suc (ai_dumps ai) \<rparr>"
  have ok1: "index_ok HS D own {} ?ai" using ok by simp
  have ext1: "extends own ai own ?ai" by auto
  show ?thesis
  proof (rule verify_and_register_cases [OF w run])
    fix e assume "ai' = ?ai"
    then show ?thesis using ok1 ext1 by blast
  next
    fix derived r' assume "genuine HS D key path derived" "register_binding w ?ai key path (Some derived) = Some (ai', r')"
    then show ?thesis using register_binding_ok [OF ok1] extends_trans [OF ext1] by blast
  qed
qed

text \<open>A derivation verifies the dump against the key of the entry.\<close>

lemma try_reserve_peer [simp]: "dg_peer (fst (try_reserve gate)) = dg_peer gate"
  by (simp add: try_reserve_def split: option.split)

lemma derive_fresh_ok:
  assumes ok: "index_ok HS D own {} ai" and w: "conforms D w" and e: "hm_get (ai_heap ai) a = Some e" and cold: "en_digest e = None"
    and own: "own a = key" and run: "derive_fresh HS w key a (en_store_path e) ai = (ai', r)"
  shows "index_ok HS D own {} ai'" "extends own ai own ai'"
    "\<forall>derived fresh. r = Ok (Derived derived fresh) \<longrightarrow> (\<exists>e'. hm_get (ai_heap ai') a = Some e' \<and> en_digest e' = Some (Verified derived))"
proof -
  let ?ai = "ai\<lparr> ai_dumps := Suc (ai_dumps ai) \<rparr>"
  have ok1: "index_ok HS D own {} ?ai" and e1: "hm_get (ai_heap ?ai) a = Some e" using ok e by simp_all
  consider (failed) "ai' = ?ai" "\<forall>d f. r \<noteq> Ok (Derived d f)"
    | (quarantined) m where "ai' = set_slot ?ai a (\<lambda>e. e\<lparr> en_digest := Some (Quarantined m) \<rparr>)" "\<forall>d f. r \<noteq> Ok (Derived d f)"
    | (verified) derived where "genuine HS D key (en_store_path e) derived" "r = Ok (Derived derived True)"
      "ai' = set_slot ?ai a (\<lambda>e. e\<lparr> en_digest := Some (Verified derived), en_persisted_derived := Some derived \<rparr>)"
  proof (cases "wd_dump w (en_store_path e)")
    case (Inl x)
    then show thesis using run by (intro failed) (auto simp: derive_fresh_def)
  next
    case (Inr raw)
    let ?m = "\<lparr> mm_registered = key, mm_computed = key_from_raw_nar HS raw, mm_store_path = en_store_path e \<rparr>"
    let ?derived = "\<lparr> dn_blake3 = digest_from_raw_nar HS raw, dn_nar_size = of_nat (length raw) \<rparr>"
    have D: "D (en_store_path e) raw" using w Inr by (simp add: conforms_def)
    show thesis
    proof (cases "key_from_raw_nar HS raw = key")
      case True
      then have "genuine HS D key (en_store_path e) ?derived" using D unfolding genuine_def by blast
      moreover have "r = Ok (Derived ?derived True)"
        "ai' = set_slot ?ai a (\<lambda>e. e\<lparr> en_digest := Some (Verified ?derived), en_persisted_derived := Some ?derived \<rparr>)"
        using run Inr True by (simp_all add: derive_fresh_def Let_def)
      ultimately show thesis by (rule verified)
    next
      case False
      then have "ai' = set_slot ?ai a (\<lambda>e. e\<lparr> en_digest := Some (Quarantined ?m) \<rparr>)" "\<forall>d f. r \<noteq> Ok (Derived d f)"
        using run Inr by (auto simp: derive_fresh_def Let_def)
      then show thesis by (rule quarantined)
    qed
  qed
  then have "index_ok HS D own {} ai' \<and> extends own ai own ai' \<and>
    (\<forall>derived fresh. r = Ok (Derived derived fresh) \<longrightarrow> (\<exists>e'. hm_get (ai_heap ai') a = Some e' \<and> en_digest e' = Some (Verified derived)))"
  proof cases
    case failed
    then show ?thesis using ok1 by auto
  next
    case (quarantined m)
    have "en_persisted_derived e = None" using index_okD(5) [OF ok e] cold by (cases "en_persisted_derived e") (auto simp: entry_ok_def)
    then have "index_ok HS D own {} ai'"
      unfolding quarantined by (intro set_slot_ok [OF ok1 e1 cold]) simp_all
    then show ?thesis using quarantined e cold by (auto simp: extends_def set_slot_def)
  next
    case (verified derived)
    have "index_ok HS D own {} ai'"
      unfolding verified using verified(1) own by (intro set_slot_ok [OF ok1 e1 cold]) simp_all
    then show ?thesis using verified e cold by (auto simp: extends_def set_slot_def)
  qed
  then show "index_ok HS D own {} ai'" "extends own ai own ai'"
    "\<forall>derived fresh. r = Ok (Derived derived fresh) \<longrightarrow> (\<exists>e'. hm_get (ai_heap ai') a = Some e' \<and> en_digest e' = Some (Verified derived))"
    by blast+
qed

lemma derive_cases:
  assumes e: "hm_get (ai_heap ai) a = Some e" and run: "derive HS w key a gate ai = (ai', gate', r)"
  obtains (warm) derived where "en_digest e = Some (Verified derived)" "ai' = ai" "gate' = gate" "r = Ok (Derived derived False)"
  | (quarantined) m where "en_digest e = Some (Quarantined m)" "ai' = ai" "gate' = gate" "r = Err (AvMismatch m)"
  | (refused) l where "en_digest e = None" "ai' = ai\<lparr> ai_ledger := l \<rparr>" "gate' = fst (try_reserve gate)" "\<forall>d f. r \<noteq> Ok (Derived d f)"
    "dg_peer gate = None \<longrightarrow> \<not> snd (try_reserve gate)"
  | (fresh) l where "en_digest e = None" "gate' = fst (try_reserve gate)" "snd (try_reserve gate)"
    "derive_fresh HS w key a (en_store_path e) (ai\<lparr> ai_ledger := l \<rparr>) = (ai', r)"
proof -
  have same: "ai\<lparr> ai_ledger := ai_ledger ai \<rparr> = ai" by simp
  have path: "entry_path ai a = en_store_path e" using e by (simp add: entry_path_def)
  show thesis
  proof (cases "en_digest e")
    case (Some o')
    then show thesis using run e by (cases o') (auto simp: derive_def intro: warm quarantined)
  next
    case None
    obtain g b where g: "try_reserve gate = (g, b)" by fastforce
    have peer: "dg_peer g = dg_peer gate" using try_reserve_peer [of gate] g by simp
    consider "\<not> b" | "b" "dg_peer gate = None" | p where "b" "dg_peer gate = Some p" by blast
    then show thesis
    proof cases
      case 1
      then show thesis using run e None g by (intro refused [of "ai_ledger ai"]) (auto simp: derive_def)
    next
      case 2
      then show thesis
        using run e None g peer path by (intro fresh [of "ai_ledger ai"]) (auto simp: derive_def split: prod.splits)
    next
      case (3 p)
      show thesis
      proof (cases "wd_nar_size w (en_store_path e)")
        case (Inl x)
        then show thesis using run e None g peer path 3 by (intro refused [of "ai_ledger ai"]) (auto simp: derive_def)
      next
        case (Inr n)
        obtain l adm where adm: "try_admit (ai_ledger ai) (wd_now w) p n = (l, adm)" by fastforce
        show thesis
        proof (cases "adm = Admitted")
          case True
          then show thesis
            using run e None g peer path 3 Inr adm by (intro fresh [of l]) (auto simp: derive_def Let_def split: prod.splits)
        next
          case False
          then show thesis
            using run e None g peer path 3 Inr adm by (intro refused [of l]) (auto simp: derive_def Let_def)
        qed
      qed
    qed
  qed
qed

section \<open>Queries\<close>

text \<open>What holds of a query between two steps.\<close>

definition dumped :: "hashes \<Rightarrow> (string \<Rightarrow> bytes \<Rightarrow> bool) \<Rightarrow> nar_hash_key \<Rightarrow> blake3_digest \<Rightarrow> bool" where
  "dumped HS D key blake3 \<longleftrightarrow> (\<exists>path raw. D path raw \<and> key_from_raw_nar HS raw = key \<and> digest_from_raw_nar HS raw = blake3)"

lemma genuine_dumped: "genuine HS D key path derived \<Longrightarrow> dumped HS D key (dn_blake3 derived)"
  by (force simp: genuine_def dumped_def)

fun pc_ok ::
  "hashes \<Rightarrow> (string \<Rightarrow> bytes \<Rightarrow> bool) \<Rightarrow> (u64 \<Rightarrow> nar_hash_key) \<Rightarrow> availability_index \<Rightarrow> nar_hash_key \<Rightarrow> hold_pc \<Rightarrow> bool" where
  "pc_ok HS D own ai key (AtCheck a) \<longleftrightarrow> own a = key \<and> hm_get (ai_heap ai) a \<noteq> None"
| "pc_ok HS D own ai key (AtDerive a) \<longleftrightarrow> own a = key \<and> hm_get (ai_heap ai) a \<noteq> None"
| "pc_ok HS D own ai key (AtPublish a derived fresh) \<longleftrightarrow>
     own a = key \<and> (\<exists>e. hm_get (ai_heap ai) a = Some e \<and> en_digest e = Some (Verified derived))"
| "pc_ok HS D own ai key (HoldDone (Inr (HoldHave blake3 offers))) \<longleftrightarrow>
     offers = [KnownIroh (ai_node_id ai)] \<and> dumped HS D key blake3"
| "pc_ok HS D own ai key pc \<longleftrightarrow> True"

lemma pc_ok_extends:
  assumes "pc_ok HS D own ai key pc" "extends own ai own' ai'"
  shows "pc_ok HS D own' ai' key pc"
proof -
  have here: "own' a = own a \<and> hm_get (ai_heap ai') a \<noteq> None" if "hm_get (ai_heap ai) a \<noteq> None" for a
    using that by (auto elim: extendsD [OF assms(2)])
  have verified: "\<exists>e'. hm_get (ai_heap ai') a = Some e' \<and> en_digest e' = Some (Verified derived)"
    if "hm_get (ai_heap ai) a = Some e" "en_digest e = Some (Verified derived)" for a e derived
    using that by (auto elim: extendsD [OF assms(2)])
  have node: "ai_node_id ai' = ai_node_id ai" using assms(2) by (simp add: extends_def)
  show ?thesis
    by (cases "(HS, D, own, ai, key, pc)" rule: pc_ok.cases) (use assms(1) here verified node in force)+
qed

lemma publish_step_ok:
  assumes ok: "index_ok HS D own {} ai" and pc: "pc_ok HS D own ai key (AtPublish a derived fresh)"
    and run: "hold_step HS w key (AtPublish a derived fresh) gate ai = (ai', gate', pc')"
  shows "index_ok HS D own {} ai'" "extends own ai own ai'" "pc_ok HS D own ai' key pc'"
proof -
  obtain e where e: "own a = key" "hm_get (ai_heap ai) a = Some e" "en_digest e = Some (Verified derived)" using pc by auto
  have "index_ok HS D own {} ai' \<and> extends own ai own ai' \<and> pc_ok HS D own ai' key pc'"
  proof (cases "hm_get (ai_entries ai) key = Some a")
    case False
    then show ?thesis using run ok by auto
  next
    case True
    obtain cat published where p: "publish_supply (ai_catalog_addr ai) (ai_catalog ai) (en_registration e) (dn_blake3 derived)
      (record_of (ai_dumper ai) (en_store_path e) derived) = (cat, published)" by fastforce
    note pub = publish_ok [OF ok True e(2,3) p]
    have "genuine HS D key (en_store_path e) derived"
      using index_okD(5) [OF ok e(2)] e(1,3) by (simp add: entry_ok_def)
    then have "pc_ok HS D own ai key (HoldDone (Ok (HoldHave (dn_blake3 derived) [iroh_offer ai])))"
      by (simp add: genuine_dumped iroh_offer_def)
    then show ?thesis
      using run True e(2) p pub(1,2) by (auto simp: Let_def iroh_offer_def)
  qed
  then show "index_ok HS D own {} ai'" "extends own ai own ai'" "pc_ok HS D own ai' key pc'" by blast+
qed

lemma derive_step_ok:
  assumes ok: "index_ok HS D own {} ai" and w: "conforms D w" and pc: "pc_ok HS D own ai key (AtDerive a)"
    and run: "hold_step HS w key (AtDerive a) gate ai = (ai', gate', pc')"
  shows "index_ok HS D own {} ai'" "extends own ai own ai'" "pc_ok HS D own ai' key pc'"
proof -
  obtain e where e: "own a = key" "hm_get (ai_heap ai) a = Some e" using pc by auto
  obtain r where d: "derive HS w key a gate ai = (ai', gate', r)"
    and pc': "pc' = (case r of Ok DeriveDeferred \<Rightarrow> HoldDone (Ok HoldDeferred) | Ok (Derived derived fresh) \<Rightarrow> AtPublish a derived fresh
      | Err x \<Rightarrow> AtFailed a x)"
    using run by (auto split: prod.splits sum.splits derive_result.splits)
  have "index_ok HS D own {} ai' \<and> extends own ai own ai' \<and>
    (\<forall>derived fresh. r = Ok (Derived derived fresh) \<longrightarrow> (\<exists>e'. hm_get (ai_heap ai') a = Some e' \<and> en_digest e' = Some (Verified derived)))"
  proof (rule derive_cases [OF e(2) d])
    fix l assume "en_digest e = None" "derive_fresh HS w key a (en_store_path e) (ai\<lparr> ai_ledger := l \<rparr>) = (ai', r)"
    then have "index_ok HS D own {} ai'" "extends own (ai\<lparr> ai_ledger := l \<rparr>) own ai'"
      "\<forall>derived fresh. r = Ok (Derived derived fresh) \<longrightarrow> (\<exists>e'. hm_get (ai_heap ai') a = Some e' \<and> en_digest e' = Some (Verified derived))"
      using derive_fresh_ok [of HS D own "ai\<lparr> ai_ledger := l \<rparr>" w a e key ai' r] ok w e by auto
    then show ?thesis by (simp add: extends_def)
  qed (use ok e in auto)
  then show "index_ok HS D own {} ai'" "extends own ai own ai'" "pc_ok HS D own ai' key pc'"
    using e pc' by (auto split: sum.split derive_result.split)
qed

lemma hold_step_ok:
  assumes ok: "index_ok HS D own {} ai" and w: "conforms D w" and pc: "pc_ok HS D own ai key pc"
    and run: "hold_step HS w key pc gate ai = (ai', gate', pc')"
  shows "index_ok HS D own {} ai' \<and> extends own ai own ai' \<and> pc_ok HS D own ai' key pc'"
proof (cases pc)
  case AtLookup
  then show ?thesis
    using run ok index_okD(3,4) [OF ok, of key] by (auto simp: registered_def split: option.splits)
next
  case (AtDrop a)
  obtain r where "drop_if_same w ai key a = (ai', r)" "pc' = AtRecheck \<or> (\<exists>e. pc' = HoldDone (Err e))"
    using run AtDrop by (auto split: prod.splits sum.splits)
  then show ?thesis using drop_if_same_ok [OF ok] by auto
next
  case (AtDerive a)
  then show ?thesis using derive_step_ok [OF ok w pc [unfolded AtDerive] run [unfolded AtDerive]] by blast
next
  case (AtPublish a derived fresh)
  then show ?thesis using publish_step_ok [OF ok pc [unfolded AtPublish] run [unfolded AtPublish]] by blast
next
  case (HoldDone r)
  then show ?thesis using run ok pc by auto
qed (use run ok pc in auto)


section \<open>Interleavings\<close>

text \<open>
  The index with the queries in progress. A prune can come with the address of any entry that was observed before; that
  covers the second half of \<open>prune_if_gone\<close>.
\<close>

record hold_call =
  hc_key :: nar_hash_key
  hc_gate :: derive_gate
  hc_pc :: hold_pc

inductive index_reachable :: "hashes \<Rightarrow> (string \<Rightarrow> bytes \<Rightarrow> bool) \<Rightarrow> availability_index \<Rightarrow> hold_call list \<Rightarrow> bool"
  for HS D where
  opened: "open_index node dumper addr ledger loaded = Some ai \<Longrightarrow> distinct (map ps_key loaded) \<Longrightarrow>
    \<forall>reg derived. reg \<in> set loaded \<longrightarrow> ps_derived reg = Some derived \<longrightarrow> genuine HS D (ps_key reg) (ps_store_path reg) derived \<Longrightarrow>
    index_reachable HS D ai []"
| registered: "index_reachable HS D ai calls \<Longrightarrow> register_binding w ai key path None = Some (ai', r) \<Longrightarrow> index_reachable HS D ai' calls"
| verified: "index_reachable HS D ai calls \<Longrightarrow> conforms D w \<Longrightarrow> verify_and_register HS w ai key path n = Some (ai', r) \<Longrightarrow>
    index_reachable HS D ai' calls"
| unregistered: "index_reachable HS D ai calls \<Longrightarrow> unregister w ai key = (ai', r) \<Longrightarrow> index_reachable HS D ai' calls"
| pruned: "index_reachable HS D ai calls \<Longrightarrow> drop_if_same w ai key observed = (ai', r) \<Longrightarrow> index_reachable HS D ai' calls"
| asked: "index_reachable HS D ai calls \<Longrightarrow>
    index_reachable HS D ai (calls @ [\<lparr> hc_key = key, hc_gate = gate, hc_pc = AtLookup \<rparr>])"
| stepped: "index_reachable HS D ai calls \<Longrightarrow> conforms D w \<Longrightarrow> i < length calls \<Longrightarrow>
    hold_step HS w (hc_key (calls ! i)) (hc_pc (calls ! i)) (hc_gate (calls ! i)) ai = (ai', gate, pc) \<Longrightarrow>
    index_reachable HS D ai' (calls[i := \<lparr> hc_key = hc_key (calls ! i), hc_gate = gate, hc_pc = pc \<rparr>])"

text \<open>What an index says of a key, and that its verified digest is in the catalog.\<close>

definition binding :: "availability_index \<Rightarrow> nar_hash_key \<Rightarrow> (string \<times> derived_nar option) option" where
  "binding ai key = Option.bind (hm_get (ai_entries ai) key) (\<lambda>a.
     map_option (\<lambda>e. (en_store_path e, en_persisted_derived e)) (hm_get (ai_heap ai) a))"

definition warm :: "availability_index \<Rightarrow> bool" where
  "warm ai \<longleftrightarrow> (\<forall>key path derived. binding ai key = Some (path, Some derived) \<longrightarrow>
     (\<exists>a. hm_get (ai_entries ai) key = Some a \<and>
       record_at (ai_catalog ai) (dn_blake3 derived) a = Some (record_of (ai_dumper ai) path derived)))"

lemma open_step:
  assumes ok: "index_ok HS D own {} ai" and run: "open_loop ai (p # loaded) = Some ai'"
    and unbound: "hm_get (ai_entries ai) (ps_key p) = None"
    and gen: "\<forall>derived. ps_derived p = Some derived \<longrightarrow> genuine HS D (ps_key p) (ps_store_path p) derived"
  obtains own1 ai1 where "index_ok HS D own1 {} ai1" "open_loop ai1 loaded = Some ai'"
    "binding ai1 = (binding ai)(ps_key p \<mapsto> (ps_store_path p, ps_derived p))" "warm ai \<Longrightarrow> warm ai1"
    "\<forall>k. hm_get (ai_entries ai1) k = None \<longleftrightarrow> k \<noteq> ps_key p \<and> hm_get (ai_entries ai) k = None"
    "ai_dumps ai1 = ai_dumps ai" "ai_node_id ai1 = ai_node_id ai" "ai_dumper ai1 = ai_dumper ai"
proof -
  obtain reg cat where reg: "register_supply (ai_catalog_addr ai) (ai_catalog ai) = Some (reg, cat)"
    using run by (auto simp: Let_def split: bind_splits)
  define e where "e = \<lparr> en_store_path = ps_store_path p, en_registration = reg, en_digest = map_option Verified (ps_derived p),
    en_persisted_derived = ps_derived p \<rparr>"
  let ?own = "own(rg_id reg := ps_key p)"
  define ai1 where "ai1 = ai\<lparr> ai_catalog := cat, ai_heap := hm_insert (ai_heap ai) (rg_id reg) e \<rparr>"
  define ai2 where "ai2 = ai1\<lparr> ai_entries := hm_insert (ai_entries ai1) (ps_key p) (rg_id reg) \<rparr>"
  define cat' where "cat' = (case ps_derived p of Some derived \<Rightarrow> fst (publish_supply (ai_catalog_addr ai) cat reg (dn_blake3 derived)
    (record_of (ai_dumper ai) (ps_store_path p) derived)) | None \<Rightarrow> cat)"
  define ai3 where "ai3 = ai2\<lparr> ai_catalog := cat' \<rparr>"
  note r = register_supply_Some [OF index_okD(1) [OF ok] reg]
  note alloc = alloc_ok [OF ok reg gen, folded e_def, folded ai1_def]
  have ok2: "index_ok HS D ?own {} ai2"
    using bind_ok [OF alloc(1) _ alloc(2), of "ps_key p"] unbound by (simp add: ai2_def ai1_def)
  have cur: "hm_get (ai_entries ai2) (ps_key p) = Some (rg_id reg)" "hm_get (ai_heap ai2) (rg_id reg) = Some e"
    by (simp_all add: ai2_def ai1_def)
  have "ai3 = ai\<lparr> ai_catalog := cat', ai_heap := hm_insert (ai_heap ai) (rg_id reg) e,
      ai_entries := hm_insert (ai_entries ai) (ps_key p) (rg_id reg) \<rparr>"
    by (simp add: ai3_def ai2_def ai1_def)
  then have loop: "open_loop ai3 loaded = Some ai'" using run reg by (simp add: Let_def e_def cat'_def)
  have pub: "index_ok HS D ?own {} ai3 \<and> (\<forall>d b. b \<noteq> rg_id reg \<longrightarrow> record_at cat' d b = record_at cat d b) \<and>
    (\<forall>derived. ps_derived p = Some derived \<longrightarrow>
      record_at cat' (dn_blake3 derived) (rg_id reg) = Some (record_of (ai_dumper ai) (ps_store_path p) derived))"
  proof (cases "ps_derived p")
    case None
    then have "ai3 = ai2" by (simp add: ai3_def cat'_def ai2_def ai1_def)
    then show ?thesis using ok2 None by (simp add: cat'_def)
  next
    case (Some derived)
    then have slot: "en_digest e = Some (Verified derived)" by (simp add: e_def)
    have "publish_supply (ai_catalog_addr ai2) (ai_catalog ai2) (en_registration e) (dn_blake3 derived)
      (record_of (ai_dumper ai2) (en_store_path e) derived) =
      (cat', snd (publish_supply (ai_catalog_addr ai2) (ai_catalog ai2) (en_registration e) (dn_blake3 derived)
        (record_of (ai_dumper ai2) (en_store_path e) derived)))"
      using Some by (simp add: cat'_def ai2_def ai1_def e_def)
    note pub = publish_ok [OF ok2 cur slot this]
    show ?thesis using pub(2-4) Some by (simp add: ai3_def ai2_def ai1_def e_def)
  qed
  have heap: "hm_get (ai_heap ai3) b = hm_get (ai_heap ai) b" if "hm_get (ai_entries ai) k = Some b" for k b
    using that alloc(4) by (auto simp: ai3_def ai2_def ai1_def)
  have bind: "binding ai3 k = (if k = ps_key p then Some (ps_store_path p, ps_derived p) else binding ai k)" for k
    using heap [of k] by (cases "hm_get (ai_entries ai) k") (auto simp: binding_def ai3_def ai2_def ai1_def e_def)
  have "warm ai3" if wm: "warm ai"
    unfolding warm_def
  proof (intro allI impI)
    fix k path derived assume b: "binding ai3 k = Some (path, Some derived)"
    show "\<exists>a. hm_get (ai_entries ai3) k = Some a \<and>
       record_at (ai_catalog ai3) (dn_blake3 derived) a = Some (record_of (ai_dumper ai3) path derived)"
    proof (cases "k = ps_key p")
      case True
      then show ?thesis using b bind pub by (simp add: ai3_def ai2_def ai1_def)
    next
      case False
      then have "binding ai k = Some (path, Some derived)" using b bind by simp
      then obtain a where a: "hm_get (ai_entries ai) k = Some a"
        "record_at (ai_catalog ai) (dn_blake3 derived) a = Some (record_of (ai_dumper ai) path derived)"
        using wm unfolding warm_def by blast
      then have "a \<noteq> rg_id reg" using alloc(4) by auto
      then show ?thesis using a pub r(7) False by (simp add: ai3_def ai2_def ai1_def)
    qed
  qed
  then show thesis
    using pub loop bind by (intro that [of ?own ai3]) (auto simp: ai3_def ai2_def ai1_def)
qed

lemma open_loop_ok:
  assumes "index_ok HS D own {} ai" "open_loop ai loaded = Some ai'" "distinct (map ps_key loaded)"
    "\<forall>reg \<in> set loaded. hm_get (ai_entries ai) (ps_key reg) = None"
    "\<forall>reg derived. reg \<in> set loaded \<longrightarrow> ps_derived reg = Some derived \<longrightarrow> genuine HS D (ps_key reg) (ps_store_path reg) derived"
  shows "(\<exists>own'. index_ok HS D own' {} ai') \<and> (warm ai \<longrightarrow> warm ai') \<and> ai_dumps ai' = ai_dumps ai \<and> ai_node_id ai' = ai_node_id ai \<and>
    ai_dumper ai' = ai_dumper ai \<and> binding ai' = binding ai ++ map_of (map (\<lambda>reg. (ps_key reg, (ps_store_path reg, ps_derived reg))) loaded)"
  using assms
proof (induction loaded arbitrary: ai own)
  case Nil
  then show ?case by auto
next
  case (Cons p loaded)
  obtain own1 ai1 where st: "index_ok HS D own1 {} ai1" "open_loop ai1 loaded = Some ai'"
    "binding ai1 = (binding ai)(ps_key p \<mapsto> (ps_store_path p, ps_derived p))" "warm ai \<longrightarrow> warm ai1"
    "\<forall>k. hm_get (ai_entries ai1) k = None \<longleftrightarrow> k \<noteq> ps_key p \<and> hm_get (ai_entries ai) k = None"
    "ai_dumps ai1 = ai_dumps ai" "ai_node_id ai1 = ai_node_id ai" "ai_dumper ai1 = ai_dumper ai"
    using open_step [OF Cons.prems(1,2)] Cons.prems(4,5) by (metis list.set_intros(1))
  have "ps_key reg \<noteq> ps_key p" if "reg \<in> set loaded" for reg using imageI [OF that, of ps_key] Cons.prems(3) by auto
  then have free: "\<forall>reg \<in> set loaded. hm_get (ai_entries ai1) (ps_key reg) = None" using Cons.prems(4) st(5) by simp
  have ih: "(\<exists>own'. index_ok HS D own' {} ai') \<and> (warm ai1 \<longrightarrow> warm ai') \<and> ai_dumps ai' = ai_dumps ai1 \<and> ai_node_id ai' = ai_node_id ai1 \<and>
    ai_dumper ai' = ai_dumper ai1 \<and> binding ai' = binding ai1 ++ map_of (map (\<lambda>reg. (ps_key reg, (ps_store_path reg, ps_derived reg))) loaded)"
    by (rule Cons.IH [OF st(1,2) _ free]) (use Cons.prems(3,5) in auto)
  let ?m = "map_of (map (\<lambda>reg. (ps_key reg, (ps_store_path reg, ps_derived reg))) loaded)"
  have "ps_key p \<notin> dom ?m" using Cons.prems(3) by (simp add: dom_map_of_conv_image_fst image_image)
  then have "binding ai1 ++ ?m = binding ai ++ ?m(ps_key p \<mapsto> (ps_store_path p, ps_derived p))"
    unfolding st(3) map_add_upd by (rule map_add_upd_left)
  then have "binding ai' = binding ai ++ map_of (map (\<lambda>reg. (ps_key reg, (ps_store_path reg, ps_derived reg))) (p # loaded))"
    using ih unfolding list.map map_of.simps fst_conv snd_conv by argo
  then show ?case using ih st(4,6,7,8) by argo
qed

lemma opened_index:
  assumes "open_index node dumper addr ledger loaded = Some ai" "distinct (map ps_key loaded)"
    "\<forall>reg derived. reg \<in> set loaded \<longrightarrow> ps_derived reg = Some derived \<longrightarrow> genuine HS D (ps_key reg) (ps_store_path reg) derived"
  shows "(\<exists>own. index_ok HS D own {} ai) \<and> warm ai \<and> ai_dumps ai = 0 \<and> ai_node_id ai = node \<and>
    ai_dumper ai = dumper \<and> binding ai = map_of (map (\<lambda>reg. (ps_key reg, (ps_store_path reg, ps_derived reg))) loaded)"
proof -
  let ?ai = "\<lparr> ai_node_id = node, ai_dumper = dumper, ai_entries = [], ai_heap = [], ai_catalog_addr = addr,
       ai_catalog = catalog_state_default, ai_store = loaded, ai_ledger = ledger, ai_dumps = 0, ai_announced = [] \<rparr>"
  have ok: "index_ok HS D own {} ?ai" for own
    by (simp add: index_parts) (simp add: catalog_state_default_def record_at_def)
  have "binding ?ai = Map.empty" "warm ?ai" by (simp_all add: binding_def warm_def fun_eq_iff)
  then show ?thesis
    using open_loop_ok [OF ok, of loaded ai] assms by (simp add: open_index_def)
qed

lemma reachable_ok:
  assumes "index_reachable HS D ai calls"
  shows "\<exists>own. index_ok HS D own {} ai \<and> (\<forall>c \<in> set calls. pc_ok HS D own ai (hc_key c) (hc_pc c))"
  using assms
proof induction
  case (opened node dumper addr ledger loaded ai)
  then show ?case using opened_index [OF opened(1-3)] by auto
next
  case (registered ai calls w key path ai' r)
  then show ?case using register_binding_ok [OF _ registered.hyps(2)] by (meson option.distinct(1) pc_ok_extends)
next
  case (verified ai calls w key path n ai' r)
  then show ?case using verify_and_register_ok [OF _ verified.hyps(2,3)] by (meson pc_ok_extends)
next
  case (unregistered ai calls w key ai' r)
  then show ?case using unregister_ok [OF _ unregistered.hyps(2)] by (meson pc_ok_extends)
next
  case (pruned ai calls w key observed ai' r)
  then show ?case using drop_if_same_ok [OF _ pruned.hyps(2)] by (meson pc_ok_extends)
next
  case (asked ai calls key gate)
  then show ?case by auto
next
  case (stepped ai calls w i ai' gate pc)
  then obtain own where own: "index_ok HS D own {} ai" "\<forall>c \<in> set calls. pc_ok HS D own ai (hc_key c) (hc_pc c)" by blast
  have st: "index_ok HS D own {} ai' \<and> extends own ai own ai' \<and> pc_ok HS D own ai' (hc_key (calls ! i)) pc"
    using hold_step_ok [OF own(1) stepped.hyps(2) _ stepped.hyps(4)] own(2) stepped.hyps(3) by simp
  have "pc_ok HS D own ai' (hc_key c) (hc_pc c)"
    if "c \<in> set (calls[i := \<lparr> hc_key = hc_key (calls ! i), hc_gate = gate, hc_pc = pc \<rparr>])" for c
    using set_update_subset_insert [THEN subsetD, OF that] st own(2) pc_ok_extends by auto
  then show ?case using st by blast
qed

section \<open>Properties\<close>

text \<open>A run: a key is registered, asked for, and dumped.\<close>

definition demo_hashes :: hashes where "demo_hashes = \<lparr> hs_sha256 = (\<lambda>raw. raw), hs_blake3 = rev \<rparr>"
definition demo_dump :: "string \<Rightarrow> bytes \<Rightarrow> bool" where "demo_dump path raw \<longleftrightarrow> path = ''p'' \<and> raw = [1, 2]"
definition demo_key :: nar_hash_key where "demo_key = NarHashKey [1, 2]"
definition demo_node :: node_id where "demo_node = NodeId [7]"

definition demo_world :: world where
  "demo_world = \<lparr> wd_exists = (\<lambda>_. True), wd_dump = (\<lambda>p. if p = ''p'' then Ok [1, 2] else Err ''gone''), wd_nar_size = (\<lambda>_. Ok 2),
     wd_save = Saved, wd_now = 0, wd_cancelled = False \<rparr>"

definition demo_derived :: derived_nar where
  "demo_derived = \<lparr> dn_blake3 = Blake3Digest [2, 1], dn_nar_size = 2 \<rparr>"

definition demo_opened :: availability_index where
  "demo_opened = \<lparr> ai_node_id = demo_node, ai_dumper = MemoryNarDumper [], ai_entries = [], ai_heap = [], ai_catalog_addr = 7,
     ai_catalog = catalog_state_default, ai_store = [], ai_ledger = derive_ledger_unlimited, ai_dumps = 0, ai_announced = [] \<rparr>"

definition demo_entry :: index_entry where
  "demo_entry = \<lparr> en_store_path = ''p'', en_registration = \<lparr> rg_id = 1, rg_owner = 7, rg_retired = False \<rparr>, en_digest = None,
     en_persisted_derived = None \<rparr>"

definition demo_registered :: availability_index where
  "demo_registered = demo_opened\<lparr> ai_entries := [(demo_key, 1)], ai_heap := [(1, demo_entry)],
     ai_catalog := \<lparr> cs_next_registration = 1, cs_owners = [(1, None)], cs_records = [] \<rparr>,
     ai_store := [\<lparr> ps_key = demo_key, ps_store_path = ''p'', ps_derived = None \<rparr>] \<rparr>"

definition demo_verified :: availability_index where
  "demo_verified = demo_registered\<lparr> ai_dumps := 1,
     ai_heap := [(1, demo_entry\<lparr> en_digest := Some (Verified demo_derived), en_persisted_derived := Some demo_derived \<rparr>)] \<rparr>"

definition demo_published :: availability_index where
  "demo_published = demo_verified\<lparr> ai_catalog := \<lparr> cs_next_registration = 1, cs_owners = [(1, Some (dn_blake3 demo_derived))],
       cs_records = [(dn_blake3 demo_derived, [(1, record_of (MemoryNarDumper []) ''p'' demo_derived)])] \<rparr>,
     ai_store := [\<lparr> ps_key = demo_key, ps_store_path = ''p'', ps_derived = Some demo_derived \<rparr>] \<rparr>"

definition demo_answer :: "(availability_error, budgeted_hold) result" where
  "demo_answer = Ok (HoldHave (dn_blake3 demo_derived) [KnownIroh demo_node])"

lemmas demo_index_defs = demo_opened_def demo_registered_def demo_verified_def demo_published_def demo_entry_def demo_key_def
  hm_insert_def hm_get_def hm_remove_def

lemma demo_conforms: "conforms demo_dump demo_world"
  by (simp add: conforms_def demo_world_def demo_dump_def)

lemma demo_open: "open_index demo_node (MemoryNarDumper []) 7 derive_ledger_unlimited [] = Some demo_opened"
  by (simp add: open_index_def demo_opened_def)

lemma demo_register: "register_binding demo_world demo_opened demo_key ''p'' None = Some (demo_registered, Ok ())"
  by (simp add: register_binding_def register_supply_def checked_add_def persist_locked_def snapshot_def List.map_filter_simps
      demo_world_def catalog_state_default_def demo_index_defs Let_def)

lemma demo_hold_steps:
  "hold_step demo_hashes demo_world demo_key AtLookup local_gate demo_registered = (demo_registered, local_gate, AtCheck 1)"
  "hold_step demo_hashes demo_world demo_key (AtCheck 1) local_gate demo_registered = (demo_registered, local_gate, AtDerive 1)"
  "hold_step demo_hashes demo_world demo_key (AtDerive 1) local_gate demo_registered =
    (demo_verified, local_gate, AtPublish 1 demo_derived True)"
  "hold_step demo_hashes demo_world demo_key (AtPublish 1 demo_derived True) local_gate demo_verified =
    (demo_published, local_gate, HoldDone demo_answer)"
     apply (simp add: demo_index_defs)
    apply (simp add: demo_world_def)
   apply (simp add: derive_def try_reserve_def local_gate_def entry_path_def derive_fresh_def set_slot_def key_from_raw_nar_def
      digest_from_raw_nar_def demo_hashes_def demo_world_def demo_derived_def demo_index_defs Let_def)
  apply (simp add: publish_supply_def publish_locked_def belongs_to_def hm_entry_or_def record_of_def persist_locked_def
      snapshot_def List.map_filter_simps iroh_offer_def demo_answer_def demo_derived_def demo_world_def demo_index_defs Let_def)
  done

lemma demo_reachable:
  "index_reachable demo_hashes demo_dump demo_registered []"
  "index_reachable demo_hashes demo_dump demo_published [\<lparr> hc_key = demo_key, hc_gate = local_gate, hc_pc = HoldDone demo_answer \<rparr>]"
proof -
  show start: "index_reachable demo_hashes demo_dump demo_registered []"
    by (rule index_reachable.registered [OF index_reachable.opened [OF demo_open] demo_register]) simp_all
  have step: "index_reachable demo_hashes demo_dump ai' [\<lparr> hc_key = demo_key, hc_gate = local_gate, hc_pc = pc' \<rparr>]"
    if "index_reachable demo_hashes demo_dump ai [\<lparr> hc_key = demo_key, hc_gate = local_gate, hc_pc = pc \<rparr>]"
      "hold_step demo_hashes demo_world demo_key pc local_gate ai = (ai', local_gate, pc')" for ai ai' pc pc'
    using index_reachable.stepped [OF that(1) demo_conforms, of 0] that(2) by simp
  have "index_reachable demo_hashes demo_dump demo_registered [\<lparr> hc_key = demo_key, hc_gate = local_gate, hc_pc = AtLookup \<rparr>]"
    using index_reachable.asked [OF start, of demo_key local_gate] by simp
  from step [OF step [OF step [OF step [OF this demo_hold_steps(1)] demo_hold_steps(2)] demo_hold_steps(3)] demo_hold_steps(4)]
  show "index_reachable demo_hashes demo_dump demo_published [\<lparr> hc_key = demo_key, hc_gate = local_gate, hc_pc = HoldDone demo_answer \<rparr>]" .
qed

text \<open>
  C3: Whatever interleaves with them, the queries of the index never answer that a key is held unless some dump of a store
  path returned bytes whose SHA-256 is the key and whose BLAKE3 is the digest of the answer; the only offer is this node.
  The index was opened on distinct keys, and a digest that it loaded as verified is one that a dump of its path gave.
\<close>
theorem answers_rest_on_dumps:
  assumes "index_reachable HS D ai calls" "c \<in> set calls" "hc_pc c = HoldDone (Ok (HoldHave blake3 offers))"
  shows "offers = [KnownIroh (ai_node_id ai)] \<and>
    (\<exists>path raw. D path raw \<and> key_from_raw_nar HS raw = hc_key c \<and> digest_from_raw_nar HS raw = blake3)"
  using reachable_ok [OF assms(1)] assms(2,3) by (fastforce simp: dumped_def)

theorem answers_rest_on_dumps_witness:
  "\<exists>path raw. demo_dump path raw \<and> key_from_raw_nar demo_hashes raw = demo_key \<and> digest_from_raw_nar demo_hashes raw = Blake3Digest [2, 1]"
  using answers_rest_on_dumps [OF demo_reachable(2)] by (simp add: demo_answer_def demo_derived_def)

text \<open>
  C5: Supply never outlives holding. Whatever interleaves, a digest that the catalog can supply is the digest of an entry that
  the index still holds under a key: the path, the declared size and the digest are those of a dump whose SHA-256 is the key.
  The index was opened on distinct keys, and a digest that it loaded as verified is one that a dump of its path gave.
\<close>
theorem supply_is_held:
  assumes "index_reachable HS D ai calls" "probe_record path_exists (ai_catalog ai) blake3 = Some r"
  shows "path_exists (sc_store_path r) \<and>
    (\<exists>key a e derived. hm_get (ai_entries ai) key = Some a \<and> hm_get (ai_heap ai) a = Some e \<and>
      en_digest e = Some (Verified derived) \<and> dn_blake3 derived = blake3 \<and>
      r = record_of (ai_dumper ai) (en_store_path e) derived \<and> genuine HS D key (en_store_path e) derived)"
proof -
  obtain own where ok: "index_ok HS D own {} ai" using reachable_ok [OF assms(1)] by blast
  obtain a where a: "path_exists (sc_store_path r)" "record_at (ai_catalog ai) blake3 a = Some r"
    using assms(2) unfolding probe_oldest [OF index_okD(1) [OF ok]] supply_of_iff [OF index_okD(1) [OF ok]] by blast
  obtain e derived where e: "hm_get (ai_heap ai) a = Some e" "en_digest e = Some (Verified derived)" "dn_blake3 derived = blake3"
    "r = record_of (ai_dumper ai) (en_store_path e) derived"
    using index_okD(6) [OF ok a(2)] by (auto simp: backed_def)
  have "genuine HS D (own a) (en_store_path e) derived" using index_okD(5) [OF ok e(1)] e(2) by (simp add: entry_ok_def)
  moreover have "hm_get (ai_entries ai) (own a) = Some a" using index_okD(7) [OF ok a(2)] by simp
  ultimately show ?thesis using a(1) e by blast
qed

lemma demo_probe:
  "probe_record (\<lambda>_. True) (ai_catalog demo_published) (Blake3Digest [2, 1]) = Some (record_of (MemoryNarDumper []) ''p'' demo_derived)"
  by (simp add: probe_record_def first_key_value_def demo_derived_def demo_index_defs)

theorem supply_is_held_witness:
  "\<exists>key derived. dn_blake3 derived = Blake3Digest [2, 1] \<and> genuine demo_hashes demo_dump key ''p'' derived"
proof -
  obtain key and e :: index_entry and derived :: derived_nar where "dn_blake3 derived = Blake3Digest [2, 1]" "genuine demo_hashes demo_dump key (en_store_path e) derived"
    "record_of (MemoryNarDumper []) ''p'' demo_derived = record_of (ai_dumper demo_published) (en_store_path e) derived"
    using supply_is_held [OF demo_reachable(2) demo_probe] by blast
  then show ?thesis unfolding record_of_def by auto
qed

end
