(* ===== verification/Availability_Queries.thy ===== *)
theory Availability_Queries
  imports Availability_Safety "HOL-Library.Multiset"
begin

text \<open>
  What the operations of \<^verbatim>\<open>availability.rs\<close> return when nothing interferes with them: queries and batches end, a
  failed registration changes nothing, and a restart keeps what was verified.
\<close>

section \<open>A query that nothing interferes with\<close>

fun rank :: "hold_pc \<Rightarrow> nat" where
  "rank AtLookup = 5"
| "rank (AtCheck a) = 4"
| "rank (AtDrop a) = 3"
| "rank (AtDerive a) = 3"
| "rank AtRecheck = 2"
| "rank (AtFailed a e) = 1"
| "rank (AtPublish a derived fresh) = 1"
| "rank (HoldDone r) = 0"

fun current :: "availability_index \<Rightarrow> nar_hash_key \<Rightarrow> hold_pc \<Rightarrow> bool" where
  "current ai key (AtCheck a) \<longleftrightarrow> hm_get (ai_entries ai) key = Some a"
| "current ai key (AtDrop a) \<longleftrightarrow> hm_get (ai_entries ai) key = Some a"
| "current ai key (AtDerive a) \<longleftrightarrow> hm_get (ai_entries ai) key = Some a"
| "current ai key (AtFailed a e) \<longleftrightarrow> hm_get (ai_entries ai) key = Some a"
| "current ai key (AtPublish a derived fresh) \<longleftrightarrow> hm_get (ai_entries ai) key = Some a"
| "current ai key AtRecheck \<longleftrightarrow> hm_get (ai_entries ai) key = None"
| "current ai key pc \<longleftrightarrow> True"

lemma set_slot_fields [simp]: "ai_entries (set_slot ai a f) = ai_entries ai" "ai_dumps (set_slot ai a f) = ai_dumps ai"
  by (simp_all add: set_slot_def split: option.split)

lemma derive_fresh_fields:
  "derive_fresh HS w key a path ai = (ai', r) \<Longrightarrow> ai_entries ai' = ai_entries ai \<and> ai_dumps ai' = Suc (ai_dumps ai)"
  by (auto simp: derive_fresh_def Let_def split: sum.splits if_splits)

lemma derive_step:
  assumes "hm_get (ai_heap ai) a = Some e" "hold_step HS w key (AtDerive a) gate ai = (ai', gate', pc')"
  shows "ai_entries ai' = ai_entries ai"
    "(\<exists>r. pc' = HoldDone r) \<or> (\<exists>derived fresh. pc' = AtPublish a derived fresh) \<or> (\<exists>x. pc' = AtFailed a x)"
    "dg_remaining gate = Some n \<Longrightarrow> \<exists>n'. dg_remaining gate' = Some n' \<and> ai_dumps ai' + unat n' \<le> ai_dumps ai + unat n"
proof -
  obtain r where d: "derive HS w key a gate ai = (ai', gate', r)"
    and pc': "pc' = (case r of Ok DeriveDeferred \<Rightarrow> HoldDone (Ok HoldDeferred) | Ok (Derived derived fresh) \<Rightarrow> AtPublish a derived fresh
      | Err x \<Rightarrow> AtFailed a x)"
    using assms(2) by (auto split: prod.splits sum.splits derive_result.splits)
  show "(\<exists>r. pc' = HoldDone r) \<or> (\<exists>derived fresh. pc' = AtPublish a derived fresh) \<or> (\<exists>x. pc' = AtFailed a x)"
    by (simp add: pc' split: sum.split derive_result.split)
  show "ai_entries ai' = ai_entries ai"
    by (rule derive_cases [OF assms(1) d]) (auto dest: derive_fresh_fields)
  show "\<exists>n'. dg_remaining gate' = Some n' \<and> ai_dumps ai' + unat n' \<le> ai_dumps ai + unat n" if n: "dg_remaining gate = Some n"
  proof -
    have less: "unat (n - 1) < unat n" if "n \<noteq> 0" using that by (simp add: unat_gt_0 unat_minus_one)
    show ?thesis
      by (rule derive_cases [OF assms(1) d])
        (use n less in \<open>auto simp: try_reserve_def split: if_splits dest!: derive_fresh_fields\<close>)
  qed
qed

lemma step_progress:
  assumes ok: "index_ok HS D own {} ai" and pc: "pc_ok HS D own ai key pc" and cur: "current ai key pc" and busy: "\<forall>r. pc \<noteq> HoldDone r"
    and run: "hold_step HS w key pc gate ai = (ai', gate', pc')"
  shows "rank pc' < rank pc \<and> current ai' key pc' \<and>
    (\<forall>n. dg_remaining gate = Some n \<longrightarrow> (\<exists>n'. dg_remaining gate' = Some n' \<and> ai_dumps ai' + unat n' \<le> ai_dumps ai + unat n))"
proof (cases pc)
  case (AtDrop a)
  let ?ai = "retire_supply_registration (ai\<lparr> ai_entries := hm_remove (ai_entries ai) key \<rparr>) a"
  have "ai' = fst (persist_locked w ?ai)" "gate' = gate" "pc' = AtRecheck \<or> (\<exists>e. pc' = HoldDone (Err e))"
    using run cur AtDrop by (auto simp: drop_if_same_def split: prod.splits sum.splits)
  then show ?thesis using AtDrop by auto
next
  case (AtDerive a)
  then obtain e where e: "hm_get (ai_heap ai) a = Some e" using pc by auto
  show ?thesis using derive_step [OF e run [unfolded AtDerive]] cur AtDerive by auto
next
  case (AtPublish a derived fresh)
  then obtain e where e: "hm_get (ai_heap ai) a = Some e" using pc by auto
  show ?thesis using run cur AtPublish e by (auto simp: Let_def split: prod.splits if_splits)
qed (use run cur busy in \<open>auto split: option.splits\<close>)

lemma hold_loop_done: "hold_loop HS ws key n (ai, gate, HoldDone r) = Some (n, ai, gate, r)"
  by (subst hold_loop.simps) simp

lemma hold_loop_step:
  "\<forall>r. pc \<noteq> HoldDone r \<Longrightarrow> hold_loop HS ws key n (ai, gate, pc) = hold_loop HS ws key (Suc n) (hold_step HS (ws n) key pc gate ai)"
  by (subst hold_loop.simps) (auto split: hold_pc.split)

text \<open>It returns, keeps the invariant, and pays for every dump with its allowance.\<close>

lemma hold_loop_returns:
  assumes "index_ok HS D own {} ai" "\<forall>n. conforms D (ws n)" "pc_ok HS D own ai key pc" "current ai key pc"
  shows "\<exists>n' ai' gate' r. hold_loop HS ws key n (ai, gate, pc) = Some (n', ai', gate', r) \<and>
    index_ok HS D own {} ai' \<and> extends own ai own ai' \<and> pc_ok HS D own ai' key (HoldDone r) \<and>
    (\<forall>m. dg_remaining gate = Some m \<longrightarrow> (\<exists>m'. dg_remaining gate' = Some m' \<and> ai_dumps ai' + unat m' \<le> ai_dumps ai + unat m))"
  using assms
proof (induction "rank pc" arbitrary: n ai gate pc rule: less_induct)
  case less
  show ?case
  proof (cases "\<exists>r. pc = HoldDone r")
    case True
    then show ?thesis using less.prems by (auto simp: hold_loop_done)
  next
    case False
    obtain ai1 gate1 pc1 where st: "hold_step HS (ws n) key pc gate ai = (ai1, gate1, pc1)" by (metis prod_cases3)
    have ok1: "index_ok HS D own {} ai1 \<and> extends own ai own ai1 \<and> pc_ok HS D own ai1 key pc1"
      using hold_step_ok [OF less.prems(1) _ less.prems(3) st] less.prems(2) by blast
    have pr: "rank pc1 < rank pc \<and> current ai1 key pc1 \<and>
      (\<forall>n. dg_remaining gate = Some n \<longrightarrow> (\<exists>n'. dg_remaining gate1 = Some n' \<and> ai_dumps ai1 + unat n' \<le> ai_dumps ai + unat n))"
      using step_progress [OF less.prems(1,3,4) _ st] False by blast
    obtain n' ai' gate' r where ih: "hold_loop HS ws key (Suc n) (ai1, gate1, pc1) = Some (n', ai', gate', r)"
      "index_ok HS D own {} ai'" "extends own ai1 own ai'" "pc_ok HS D own ai' key (HoldDone r)"
      "\<forall>m. dg_remaining gate1 = Some m \<longrightarrow> (\<exists>m'. dg_remaining gate' = Some m' \<and> ai_dumps ai' + unat m' \<le> ai_dumps ai1 + unat m)"
      using less.hyps [of pc1 ai1 "Suc n" gate1] ok1 pr less.prems(2) by blast
    have "hold_loop HS ws key n (ai, gate, pc) = Some (n', ai', gate', r)" using hold_loop_step [of pc] False st ih(1) by simp
    moreover have "extends own ai own ai'" using ok1 ih(3) extends_trans by blast
    moreover have "\<exists>m'. dg_remaining gate' = Some m' \<and> ai_dumps ai' + unat m' \<le> ai_dumps ai + unat m" if here: "dg_remaining gate = Some m" for m
    proof -
      obtain m1 where m1: "dg_remaining gate1 = Some m1" "ai_dumps ai1 + unat m1 \<le> ai_dumps ai + unat m" using here pr by blast
      then obtain m' where "dg_remaining gate' = Some m'" "ai_dumps ai' + unat m' \<le> ai_dumps ai1 + unat m1" using ih(5) by blast
      then show ?thesis using m1(2) by auto
    qed
    ultimately show ?thesis using ih(2,4) by blast
  qed
qed

lemma hold_budgeted_returns:
  assumes "index_ok HS D own {} ai" "\<forall>n. conforms D (ws n)"
  obtains n' ai' gate' r where "hold_budgeted HS ws n key gate ai = Some (n', ai', gate', r)"
    "index_ok HS D own {} ai'" "extends own ai own ai'" "pc_ok HS D own ai' key (HoldDone r)"
    "\<forall>m. dg_remaining gate = Some m \<longrightarrow> (\<exists>m'. dg_remaining gate' = Some m' \<and> ai_dumps ai' + unat m' \<le> ai_dumps ai + unat m)"
  using hold_loop_returns [OF assms, of key AtLookup n gate] by (auto simp: hold_budgeted_def)

text \<open>What a batch has answered for the keys so far.\<close>

definition answered :: "hashes \<Rightarrow> (string \<Rightarrow> bytes \<Rightarrow> bool) \<Rightarrow> nar_hash_key list \<Rightarrow> batch_progress \<Rightarrow> bool" where
  "answered HS D keys b \<longleftrightarrow>
     list_all2 (\<lambda>key a. a = BatchAbsent \<or> (\<exists>blake3. a = BatchHave blake3 [0] \<and> dumped HS D key blake3)) keys (bp_answers b) \<and>
     (bp_any_have b \<longleftrightarrow> (\<exists>a \<in> set (bp_answers b). is_have a))"

lemma answered_step:
  assumes "answered HS D keys b" "pc_ok HS D own ai key (HoldDone r)"
  shows "answered HS D (keys @ [key]) (batch_answer key r b)"
proof (cases r)
  case (Inl e)
  then show ?thesis using assms by (auto simp: answered_def is_have_def intro: list_all2_appendI)
next
  case (Inr h)
  then show ?thesis using assms by (cases h) (auto simp: answered_def is_have_def intro: list_all2_appendI)
qed

lemma batch_hold_loop_returns:
  assumes "index_ok HS D own {} ai" "\<forall>n. conforms D (ws n)" "answered HS D ks b" "dg_remaining gate = Some m"
  shows "\<exists>ai' b'. batch_hold_loop HS ws n gate ai b keys = Some (ai', b') \<and> answered HS D (ks @ keys) b' \<and>
    ai_dumps ai' \<le> ai_dumps ai + unat m \<and> ai_node_id ai' = ai_node_id ai"
  using assms
proof (induction keys arbitrary: n gate ai b m ks)
  case Nil
  then show ?case by simp
next
  case (Cons key keys)
  obtain n1 ai1 gate1 r where st: "hold_budgeted HS ws n key gate ai = Some (n1, ai1, gate1, r)"
    "index_ok HS D own {} ai1" "extends own ai own ai1" "pc_ok HS D own ai1 key (HoldDone r)"
    "\<forall>m. dg_remaining gate = Some m \<longrightarrow> (\<exists>m'. dg_remaining gate1 = Some m' \<and> ai_dumps ai1 + unat m' \<le> ai_dumps ai + unat m)"
    using hold_budgeted_returns [OF Cons.prems(1,2)] by blast
  then obtain m1 where m1: "dg_remaining gate1 = Some m1" "ai_dumps ai1 + unat m1 \<le> ai_dumps ai + unat m" using Cons.prems(4) by blast
  obtain ai' b' where "batch_hold_loop HS ws n1 gate1 ai1 (batch_answer key r b) keys = Some (ai', b')"
    "answered HS D ((ks @ [key]) @ keys) b'" "ai_dumps ai' \<le> ai_dumps ai1 + unat m1" "ai_node_id ai' = ai_node_id ai1"
    using Cons.IH [OF st(2) Cons.prems(2) answered_step [OF Cons.prems(3) st(4)] m1(1)] by blast
  then show ?case using st(1,3) m1(2) by (auto simp: extends_def)
qed

lemma answered_bound:
  assumes "answered HS D keys b" "check_batch_keys keys = Ok ()"
  shows "check_batch_offer_bindings (as_offer_slots (if bp_any_have b then [offer] else [])) (bp_answers b) = Ok ()"
proof -
  have len: "length (bp_answers b) = length keys" using assms(1) by (auto simp: answered_def dest: list_all2_lengthD)
  have n: "keys \<noteq> []" "length keys \<le> MAX_BATCH_HOLD_KEYS" using assms(2) by (auto simp: check_batch_keys_def split: if_splits)
  have shape: "indices = [0]" if "BatchHave d indices \<in> set (bp_answers b)" for d indices
    using that assms(1) by (auto simp: answered_def list_all2_conv_all_nth in_set_conv_nth)
  have any: "bp_any_have b \<longleftrightarrow> (\<exists>d indices. BatchHave d indices \<in> set (bp_answers b))"
    using assms(1) by (auto simp: answered_def is_have_def) (metis batch_hold_answer.exhaust)
  show ?thesis
    unfolding check_batch_offer_bindings_Ok well_bound_def
  proof (intro conjI allI impI)
    show "bp_answers b \<noteq> []" "length (bp_answers b) \<le> MAX_BATCH_HOLD_KEYS" using len n by auto
    show "length (as_offer_slots (if bp_any_have b then [offer] else [])) \<le> MAX_BATCH_HOLD_OFFERS"
      by (simp add: as_offer_slots_def MAX_BATCH_HOLD_OFFERS_def MAX_OFFERS_PER_ANSWER_def MAX_BATCH_HOLD_KEYS_def)
    show "length indices \<le> MAX_OFFERS_PER_ANSWER"
      "\<forall>i \<in> set indices. unat i < length (as_offer_slots (if bp_any_have b then [offer] else []))"
      "distinct (map (\<lambda>i. slot_wire_tag (as_offer_slots (if bp_any_have b then [offer] else []) ! unat i)) indices)"
      if "BatchHave d indices \<in> set (bp_answers b)" for d indices
      using shape [OF that] any that by (auto simp: as_offer_slots_def MAX_OFFERS_PER_ANSWER_def)
    show "\<exists>d indices. BatchHave d indices \<in> set (bp_answers b) \<and> i \<in> unat ` set indices"
      if i: "i < length (as_offer_slots (if bp_any_have b then [offer] else []))" for i
    proof -
      have "bp_any_have b" "i = 0" using i by (auto simp: as_offer_slots_def split: if_splits)
      then obtain d indices where h: "BatchHave d indices \<in> set (bp_answers b)" using any by blast
      then show ?thesis using shape [OF h] \<open>i = 0\<close> by force
    qed
  qed
qed

lemma batch_notes_length: "length (batch_notes b) \<le> 2"
  by (simp add: batch_notes_def)

text \<open>
  C17: Every batch that no other operation interferes with is answered, with at most sixteen dumps and at most two log lines however many keys it names. A batch that
  the wire rule refuses changes nothing. In any other the answers are those of the keys in their order; a positive one rests
  on a dump whose SHA-256 is the key and whose BLAKE3 is the answer; and the response passes the binding check of the codec.
\<close>
theorem batch_is_bounded:
  assumes "index_reachable HS D ai calls" "\<forall>n. conforms D (ws n)"
  shows "\<exists>ai' r. answer_batch_reporting HS ws query asker ai = Some (ai', r) \<and> ai_dumps ai' \<le> ai_dumps ai + 16 \<and>
    (\<forall>e. r = Err e \<longrightarrow> ai' = ai \<and> check_batch_keys (bq_keys query) = Err e) \<and>
    (\<forall>response notes. r = Ok (response, notes) \<longrightarrow>
      length notes \<le> 2 \<and>
      list_all2 (\<lambda>key a. a = BatchAbsent \<or> (\<exists>blake3 path raw. a = BatchHave blake3 [0] \<and> D path raw \<and>
        key_from_raw_nar HS raw = key \<and> digest_from_raw_nar HS raw = blake3)) (bq_keys query) (br_answers response) \<and>
      check_batch_offer_bindings (as_offer_slots (br_offers response)) (br_answers response) = Ok ())"
proof (cases "check_batch_keys (bq_keys query)")
  case (Inl e)
  then show ?thesis by (simp add: answer_batch_reporting_def)
next
  case (Inr u)
  then have keys: "check_batch_keys (bq_keys query) = Ok ()" by simp
  obtain own where ok: "index_ok HS D own {} ai" using reachable_ok [OF assms(1)] by blast
  let ?b = "\<lparr> bp_answers = [], bp_any_have = False, bp_deferred = 0, bp_faulted = 0, bp_first_fault = None \<rparr>"
  have "answered HS D [] ?b" by (simp add: answered_def)
  moreover have "dg_remaining (for_peer (Some MAX_BATCH_DERIVE_WORK) asker) = Some 16"
    by (simp add: for_peer_def MAX_BATCH_DERIVE_WORK_def)
  ultimately obtain ai' b where run: "batch_hold_loop HS ws 0 (for_peer (Some MAX_BATCH_DERIVE_WORK) asker) ai ?b (bq_keys query) = Some (ai', b)"
    "answered HS D (bq_keys query) b" "ai_dumps ai' \<le> ai_dumps ai + 16"
    using batch_hold_loop_returns [OF ok assms(2)] by fastforce
  have "list_all2 (\<lambda>key a. a = BatchAbsent \<or> (\<exists>blake3 path raw. a = BatchHave blake3 [0] \<and> D path raw \<and>
        key_from_raw_nar HS raw = key \<and> digest_from_raw_nar HS raw = blake3)) (bq_keys query) (bp_answers b)"
    using run(2) unfolding answered_def by (auto simp: dumped_def elim!: list_all2_mono)
  then show ?thesis
    using run keys answered_bound [OF run(2) keys] batch_notes_length by (simp add: answer_batch_reporting_def)
qed

theorem batch_is_bounded_witness:
  "\<exists>ai' r. answer_batch_reporting demo_hashes (\<lambda>_. demo_world) \<lparr> bq_schema_version = QUERY_SCHEMA_VERSION, bq_keys = [demo_key] \<rparr>
      demo_node demo_registered = Some (ai', r) \<and> ai_dumps ai' \<le> ai_dumps demo_registered + 16"
  using batch_is_bounded [OF demo_reachable(1), where ws = "\<lambda>_. demo_world" and asker = demo_node
      and query = "\<lparr> bq_schema_version = QUERY_SCHEMA_VERSION, bq_keys = [demo_key] \<rparr>"] demo_conforms by blast


section \<open>Failure and restart\<close>

lemma retire_unpublished:
  assumes "hm_get (cs_owners state) i = Some None"
  shows "cs_records (retire_locked state i) = cs_records state"
  using assms by (simp add: retire_locked_def)

lemma register_binding_fails:
  assumes ok: "index_ok HS D own {} ai" and run: "register_binding w ai key path verified = Some (ai', Err e)"
    and verified: "\<forall>derived. verified = Some derived \<longrightarrow> genuine HS D key path derived"
  shows "(\<forall>k. hm_get (ai_entries ai') k = hm_get (ai_entries ai) k) \<and>
    (\<forall>k a. hm_get (ai_entries ai) k = Some a \<longrightarrow> hm_get (ai_heap ai') a = hm_get (ai_heap ai) a) \<and>
    cs_records (ai_catalog ai') = cs_records (ai_catalog ai)"
proof (rule register_binding_cases [OF ok run verified])
  fix reg :: supply_registration and cat ai1
  assume reg: "register_supply (ai_catalog_addr ai) (ai_catalog ai) = Some (reg, cat)"
    and ai1: "ai1 = ai\<lparr> ai_catalog := cat, ai_heap := hm_insert (ai_heap ai) (rg_id reg) \<lparr> en_store_path = path, en_registration = reg,
      en_digest = map_option Verified verified, en_persisted_derived = verified \<rparr> \<rparr>"
    and fresh: "\<forall>k. hm_get (ai_entries ai) k \<noteq> Some (rg_id reg)"
    and bad: "\<forall>x. Err e = Err x \<longrightarrow> (\<exists>es st. hm_ok es \<and> (\<forall>k. hm_get es k = hm_get (ai_entries ai) k) \<and>
      ai' = retire_supply_registration (ai1\<lparr> ai_store := st, ai_entries := es \<rparr>) (rg_id reg))"
  note r = register_supply_Some [OF index_okD(1) [OF ok] reg]
  obtain es st where es: "\<forall>k. hm_get es k = hm_get (ai_entries ai) k"
    and ai': "ai' = retire_supply_registration (ai1\<lparr> ai_store := st, ai_entries := es \<rparr>) (rg_id reg)" using bad by blast
  have "belongs_to reg (ai_catalog_addr ai)" using r(3) by (simp add: belongs_to_def)
  then have state: "ai_entries ai' = es" "ai_catalog ai' = retire_locked cat (rg_id reg)"
    "\<forall>a. a \<noteq> rg_id reg \<longrightarrow> hm_get (ai_heap ai') a = hm_get (ai_heap ai) a"
    unfolding ai' by (simp_all add: ai1 retire_supply_registration_def retire_supply_def)
  have "cs_records (ai_catalog ai') = cs_records (ai_catalog ai)"
    unfolding state(2) using r(6,8) by (subst retire_unpublished) simp_all
  moreover have "\<forall>k a. hm_get (ai_entries ai) k = Some a \<longrightarrow> hm_get (ai_heap ai') a = hm_get (ai_heap ai) a"
    using state(3) fresh by metis
  ultimately show ?thesis using es state(1) by simp
qed (use run in auto)

text \<open>What a saved list of registrations binds.\<close>

definition saved_binding :: "persisted_registration list \<Rightarrow> nar_hash_key \<Rightarrow> (string \<times> derived_nar option) option" where
  "saved_binding regs = map_of (map (\<lambda>reg. (ps_key reg, (ps_store_path reg, ps_derived reg))) regs)"

lemma snapshot_list:
  assumes "\<forall>(k, a) \<in> set es. hm_get heap a \<noteq> None"
  defines "rs \<equiv> List.map_filter (\<lambda>(key, a). map_option (\<lambda>e.
     \<lparr> ps_key = key, ps_store_path = en_store_path e, ps_derived = en_persisted_derived e \<rparr>) (hm_get heap a)) es"
  shows "map ps_key rs = map fst es"
    "saved_binding rs k =
      Option.bind (map_of es k) (\<lambda>a. map_option (\<lambda>e. (en_store_path e, en_persisted_derived e)) (hm_get heap a))"
  using assms(1) unfolding rs_def by (induction es) (auto simp: saved_binding_def List.map_filter_simps split: option.split)

lemma snapshot_binding:
  assumes "hm_ok (ai_entries ai)" "\<And>k a. hm_get (ai_entries ai) k = Some a \<Longrightarrow> hm_get (ai_heap ai) a \<noteq> None"
  shows "distinct (map ps_key (snapshot ai))" "saved_binding (snapshot ai) = binding ai"
proof -
  have here: "\<forall>(k, a) \<in> set (ai_entries ai). hm_get (ai_heap ai) a \<noteq> None"
    using assms(2) hm_get_eq_Some_iff [OF assms(1)] by blast
  show "distinct (map ps_key (snapshot ai))"
    using snapshot_list(1) [OF here] assms(1) by (simp add: snapshot_def hm_ok_def)
  show "saved_binding (snapshot ai) = binding ai"
    using snapshot_list(2) [OF here] by (simp add: fun_eq_iff snapshot_def binding_def hm_get_def)
qed

lemma entry_present: "index_ok HS D own X ai \<Longrightarrow> hm_get (ai_entries ai) k = Some a \<Longrightarrow> hm_get (ai_heap ai) a \<noteq> None"
  using index_okD(4) [of HS D own X ai k a] by (auto simp: registered_def)

lemma retire_store [simp]: "ai_store (retire_supply_registration ai a) = ai_store ai"
  by (simp add: retire_supply_registration_def split: option.split prod.split)

text \<open>The file after a registration that failed: as it was, or, when the save failed after it replaced the file, with the
  rejected binding.\<close>

lemma register_binding_store:
  assumes ok: "index_ok HS D own {} ai" and run: "register_binding w ai key path verified = Some (ai', Err e)"
    and verified: "\<forall>derived. verified = Some derived \<longrightarrow> genuine HS D key path derived"
  shows "ai_store ai' = ai_store ai \<or>
    (\<exists>x. wd_save w = SavedThenFailed x) \<and> saved_binding (ai_store ai') = (binding ai)(key \<mapsto> (path, verified))"
proof (rule register_binding_cases [OF ok run verified])
  fix reg :: supply_registration and cat ai1
  assume reg: "register_supply (ai_catalog_addr ai) (ai_catalog ai) = Some (reg, cat)"
    and ai1: "ai1 = ai\<lparr> ai_catalog := cat, ai_heap := hm_insert (ai_heap ai) (rg_id reg) \<lparr> en_store_path = path, en_registration = reg,
      en_digest = map_option Verified verified, en_persisted_derived = verified \<rparr> \<rparr>"
    and fresh: "\<forall>k. hm_get (ai_entries ai) k \<noteq> Some (rg_id reg)"
  define ai2 where "ai2 = ai1\<lparr> ai_entries := hm_insert (ai_entries ai) key (rg_id reg) \<rparr>"
  have "ai_store ai' = (case wd_save w of SavedThenFailed x \<Rightarrow> snapshot ai2 | _ \<Rightarrow> ai_store ai)"
    using run unfolding register_binding_def Let_def reg
    by (auto simp: persist_locked_def ai2_def ai1 split: if_splits save_answer.splits)
  moreover have "saved_binding (snapshot ai2) = binding ai2"
    by (rule snapshot_binding(2)) (use index_okD(2) [OF ok] entry_present [OF ok] in \<open>auto simp: ai2_def ai1 split: if_splits\<close>)
  moreover have "binding ai2 = (binding ai)(key \<mapsto> (path, verified))"
    using fresh by (auto simp: fun_eq_iff binding_def ai2_def ai1 bind_eq_None_conv split: bind_splits)
  ultimately show ?thesis by (cases "wd_save w") auto
qed (use run in auto)

text \<open>
  C18: A registration that fails is undone in memory. When the dump, the check of the key or of the size or the save
  fails, for a plain or a verified registration, every key is bound to the entry it had, the entries are untouched, and
  every probe of the catalog answers as before. The saved registrations are as they were, with one exception: a save that
  failed after it had replaced the file leaves the bindings of the memory together with the rejected one, which a restart
  then binds.
\<close>
theorem failed_registration_is_undone:
  assumes "index_reachable HS D ai calls" "conforms D w"
    "(\<exists>e. register_binding w ai key path None = Some (ai', Err e)) \<or> (\<exists>e. verify_and_register HS w ai key path n = Some (ai', Err e))"
  shows "(\<forall>k. hm_get (ai_entries ai') k = hm_get (ai_entries ai) k) \<and>
    (\<forall>k a. hm_get (ai_entries ai) k = Some a \<longrightarrow> hm_get (ai_heap ai') a = hm_get (ai_heap ai) a) \<and>
    (\<forall>path_exists blake3. probe_record path_exists (ai_catalog ai') blake3 = probe_record path_exists (ai_catalog ai) blake3) \<and>
    (ai_store ai' = ai_store ai \<or>
      (\<exists>x verified. wd_save w = SavedThenFailed x \<and> saved_binding (ai_store ai') = (binding ai)(key \<mapsto> (path, verified))))"
proof -
  obtain own where ok: "index_ok HS D own {} ai" using reachable_ok [OF assms(1)] by blast
  have "(\<forall>k. hm_get (ai_entries ai') k = hm_get (ai_entries ai) k) \<and>
    (\<forall>k a. hm_get (ai_entries ai) k = Some a \<longrightarrow> hm_get (ai_heap ai') a = hm_get (ai_heap ai) a) \<and>
    cs_records (ai_catalog ai') = cs_records (ai_catalog ai) \<and>
    (ai_store ai' = ai_store ai \<or>
      (\<exists>x verified. wd_save w = SavedThenFailed x \<and> saved_binding (ai_store ai') = (binding ai)(key \<mapsto> (path, verified))))"
    using assms(3)
  proof
    assume "\<exists>e. register_binding w ai key path None = Some (ai', Err e)"
    then obtain e where run: "register_binding w ai key path None = Some (ai', Err e)" by blast
    show ?thesis using register_binding_fails [OF ok run] register_binding_store [OF ok run] by blast
  next
    let ?ai = "ai\<lparr> ai_dumps := Suc (ai_dumps ai) \<rparr>"
    assume "\<exists>e. verify_and_register HS w ai key path n = Some (ai', Err e)"
    then obtain e where run: "verify_and_register HS w ai key path n = Some (ai', Err e)" by blast
    show ?thesis
    proof (rule verify_and_register_cases [OF assms(2) run])
      fix x assume "ai' = ?ai"
      then show ?thesis by simp
    next
      fix derived r' assume gen: "genuine HS D key path derived" and bind: "register_binding w ?ai key path (Some derived) = Some (ai', r')"
        and "Err e = (case r' of Ok _ \<Rightarrow> Ok derived | Err e \<Rightarrow> Err (AvPersist e))"
      then obtain x where "r' = Err x" by (cases r') auto
      note failed = bind [unfolded \<open>r' = Err x\<close>]
      have ok': "index_ok HS D own {} ?ai" using ok by simp
      have "binding ?ai = binding ai" by (simp add: binding_def fun_eq_iff)
      then show ?thesis using register_binding_fails [OF ok' failed] register_binding_store [OF ok' failed] gen by auto
    qed
  qed
  then show ?thesis by (simp add: probe_record_def)
qed

theorem failed_registration_is_undone_witness:
  "\<exists>ai'. register_binding (demo_world\<lparr> wd_save := SavedThenFailed ''sync'' \<rparr>) demo_published demo_key ''q'' None = Some (ai', Err ''sync'') \<and>
    hm_get (ai_entries ai') demo_key = Some 1 \<and> probe_record (\<lambda>_. True) (ai_catalog ai') (Blake3Digest [2, 1]) \<noteq> None \<and>
    saved_binding (ai_store ai') demo_key = Some (''q'', None)"
proof -
  let ?w = "demo_world\<lparr> wd_save := SavedThenFailed ''sync'' \<rparr>"
  obtain ai' where run: "register_binding ?w demo_published demo_key ''q'' None = Some (ai', Err ''sync'')"
    and saved: "saved_binding (ai_store ai') demo_key = Some (''q'', None)"
    by (simp add: register_binding_def register_supply_def checked_add_def persist_locked_def demo_world_def demo_index_defs Let_def
      snapshot_def List.map_filter_simps saved_binding_def)
  have "conforms demo_dump ?w" by (simp add: conforms_def demo_world_def demo_dump_def)
  moreover have "hm_get (ai_entries demo_published) demo_key = Some 1" by (simp add: demo_index_defs)
  ultimately have "hm_get (ai_entries ai') demo_key = Some 1"
    "probe_record (\<lambda>_. True) (ai_catalog ai') (Blake3Digest [2, 1]) \<noteq> None"
    using failed_registration_is_undone [OF demo_reachable(2), where w = ?w and key = demo_key and path = "''q''" and ai' = ai'] run demo_probe
    by auto
  then show ?thesis using run saved by blast
qed

lemma map_of_mset:
  assumes "mset xs = mset ys" "distinct (map f xs)"
  shows "map_of (map (\<lambda>x. (f x, g x)) xs) = map_of (map (\<lambda>x. (f x, g x)) ys)"
proof -
  have "mset (map f xs) = mset (map f ys)" using assms(1) by (metis mset_map)
  then have "distinct (map f ys)" using assms(2) mset_eq_imp_distinct_iff by blast
  moreover have "set xs = set ys" using assms(1) by (rule mset_eq_setD)
  ultimately show ?thesis using assms(2) by (subst map_of_inject_set) (auto simp: comp_def)
qed

text \<open>The answer of a query for a key whose entry is verified.\<close>

lemma warm_hold:
  assumes ok: "index_ok HS D own {} ai" and a: "hm_get (ai_entries ai) key = Some a" "hm_get (ai_heap ai) a = Some e"
    and derived: "en_digest e = Some (Verified derived)" and path: "\<forall>n. wd_exists (ws n) (en_store_path e)"
  shows "\<exists>ai'. hold_budgeted HS ws 0 key gate ai = Some (4, ai', gate, Ok (HoldHave (dn_blake3 derived) [KnownIroh (ai_node_id ai)])) \<and>
    ai_dumps ai' = ai_dumps ai"
proof -
  obtain cat published where p: "publish_supply (ai_catalog_addr ai) (ai_catalog ai) (en_registration e) (dn_blake3 derived)
      (record_of (ai_dumper ai) (en_store_path e) derived) = (cat, published)" by fastforce
  have pub: "published" by (rule publish_ok(1) [OF ok a derived p])
  have "hold_budgeted HS ws 0 key gate ai = hold_loop HS ws key 1 (ai, gate, AtCheck a)"
    using a by (simp add: hold_budgeted_def hold_loop_step)
  also have "\<dots> = hold_loop HS ws key 2 (ai, gate, AtDerive a)"
    using a path by (simp add: hold_loop_step entry_path_def numeral_2_eq_2)
  also have "\<dots> = hold_loop HS ws key 3 (ai, gate, AtPublish a derived False)"
    using a derived by (simp add: hold_loop_step derive_def eval_nat_numeral)
  also have "\<dots> = Some (4, ai\<lparr> ai_catalog := cat \<rparr>, gate, Ok (HoldHave (dn_blake3 derived) [KnownIroh (ai_node_id ai)]))"
    using a p pub by (simp add: hold_loop_step hold_loop_done Let_def iroh_offer_def eval_nat_numeral)
  finally show ?thesis by auto
qed

text \<open>The answer of a query for a key whose path is gone.\<close>

lemma snapshot_keys: "ps_key ` set (snapshot ai) \<subseteq> fst ` set (ai_entries ai)"
  by (force simp: snapshot_def List.map_filter_def)

lemma gone_hold:
  assumes ok: "index_ok HS D own {} ai" and a: "hm_get (ai_entries ai) key = Some a" "hm_get (ai_heap ai) a = Some e"
    and gone: "\<forall>n. \<not> wd_exists (ws n) (en_store_path e)" and save: "\<forall>n. wd_save (ws n) = Saved"
  shows "\<exists>ai'. hold_budgeted HS ws 0 key gate ai = Some (4, ai', gate, Ok HoldAbsent) \<and> ai_dumps ai' = ai_dumps ai \<and>
    binding ai' key = None \<and> saved_binding (ai_store ai') key = None"
proof -
  define ai1 where "ai1 = retire_supply_registration (ai\<lparr> ai_entries := hm_remove (ai_entries ai) key \<rparr>) a"
  define ai2 where "ai2 = ai1\<lparr> ai_store := snapshot ai1 \<rparr>"
  have es: "ai_entries ai1 = hm_remove (ai_entries ai) key" "ai_dumps ai1 = ai_dumps ai"
    by (simp_all add: ai1_def)
  have "hold_budgeted HS ws 0 key gate ai = hold_loop HS ws key 1 (ai, gate, AtCheck a)"
    using a by (simp add: hold_budgeted_def hold_loop_step)
  also have "\<dots> = hold_loop HS ws key 2 (ai, gate, AtDrop a)"
    using a gone by (simp add: hold_loop_step entry_path_def numeral_2_eq_2)
  also have "\<dots> = hold_loop HS ws key 3 (ai2, gate, AtRecheck)"
    using a save by (simp add: hold_loop_step drop_if_same_def persist_locked_def eval_nat_numeral ai2_def ai1_def)
  also have "\<dots> = Some (4, ai2, gate, Ok HoldAbsent)"
    using es by (simp add: hold_loop_step hold_loop_done eval_nat_numeral ai2_def)
  finally have "hold_budgeted HS ws 0 key gate ai = Some (4, ai2, gate, Ok HoldAbsent)" .
  moreover have "binding ai2 key = None" using es by (simp add: binding_def ai2_def)
  moreover have "key \<notin> fst ` set (ai_entries ai1)" using es hm_get_None_iff [of "ai_entries ai1" key] by simp
  then have "saved_binding (ai_store ai2) key = None"
    using snapshot_keys [of ai1] by (force simp: saved_binding_def map_of_eq_None_iff ai2_def)
  ultimately show ?thesis using es by (auto simp: ai2_def)
qed

text \<open>
  C19: A restart loses nothing that was saved. After a save that succeeded, an index opened on what was saved, in any order,
  binds the same keys to the same paths with the same verified digests, and is again a state that the guarantees under
  interleaving are about. Every verified digest is in its catalog before any query. A query of its key that nothing
  interferes with, whatever its allowance, dumps nothing: while the path exists it answers with that digest; when the
  path is gone, for instance collected as garbage while the node was down, and the save succeeds, it answers that the key
  is absent, and the key is then bound neither in memory nor in the file.
\<close>
theorem restart_is_warm:
  assumes "index_reachable HS D ai calls" "persist_locked w ai = (ai1, Ok ())" "mset loaded = mset (ai_store ai1)"
    "open_index node dumper addr ledger loaded = Some ai'"
  shows "binding ai' = binding ai \<and> ai_dumps ai' = 0 \<and> index_reachable HS D ai' [] \<and>
    (\<forall>key path derived. binding ai key = Some (path, Some derived) \<longrightarrow>
      (\<exists>a. supply_of (ai_catalog ai') a = Some (dn_blake3 derived, record_of dumper path derived)) \<and>
      (\<forall>ws gate. (\<forall>n. wd_exists (ws n) path) \<longrightarrow>
        (\<exists>ai2. hold_budgeted HS ws 0 key gate ai' = Some (4, ai2, gate, Ok (HoldHave (dn_blake3 derived) [KnownIroh node])) \<and>
          ai_dumps ai2 = 0)) \<and>
      (\<forall>ws gate. (\<forall>n. \<not> wd_exists (ws n) path \<and> wd_save (ws n) = Saved) \<longrightarrow>
        (\<exists>ai2. hold_budgeted HS ws 0 key gate ai' = Some (4, ai2, gate, Ok HoldAbsent) \<and> ai_dumps ai2 = 0 \<and>
          binding ai2 key = None \<and> saved_binding (ai_store ai2) key = None)))"
proof -
  obtain own where ok: "index_ok HS D own {} ai" using reachable_ok [OF assms(1)] by blast
  have "ai_store ai1 = snapshot ai" using assms(2) by (auto simp: persist_locked_def split: save_answer.splits)
  then have ms: "mset (snapshot ai) = mset loaded" using assms(3) by simp
  have snap: "distinct (map ps_key (snapshot ai))" "saved_binding (snapshot ai) = binding ai"
    by (rule snapshot_binding; use index_okD(2) [OF ok] entry_present [OF ok] in blast)+
  have "mset (map ps_key (snapshot ai)) = mset (map ps_key loaded)" using ms by (metis mset_map)
  then have dist: "distinct (map ps_key loaded)" using snap(1) mset_eq_imp_distinct_iff by blast
  have same: "map_of (map (\<lambda>reg. (ps_key reg, (ps_store_path reg, ps_derived reg))) loaded) = binding ai"
    using map_of_mset [OF ms snap(1)] snap(2) unfolding saved_binding_def by metis
  have gen: "genuine HS D (ps_key reg) (ps_store_path reg) derived" if "reg \<in> set loaded" "ps_derived reg = Some derived" for reg derived
  proof -
    have "binding ai (ps_key reg) = Some (ps_store_path reg, Some derived)"
      using that dist unfolding same [symmetric] by (force simp: comp_def)
    then obtain a e where ae: "hm_get (ai_entries ai) (ps_key reg) = Some a" "hm_get (ai_heap ai) a = Some e"
      "en_store_path e = ps_store_path reg" "en_persisted_derived e = Some derived"
      by (auto simp: binding_def bind_eq_Some_conv)
    then show ?thesis using index_okD(5) [OF ok ae(2)] index_okD(3) [OF ok ae(1)] by (auto simp: entry_ok_def)
  qed
  have op: "(\<exists>own. index_ok HS D own {} ai') \<and> warm ai' \<and> ai_dumps ai' = 0 \<and> ai_node_id ai' = node \<and>
    ai_dumper ai' = dumper \<and> binding ai' = binding ai"
    using opened_index [OF assms(4) dist] gen unfolding same by blast
  have again: "index_reachable HS D ai' []" using assms(4) dist gen by (blast intro: index_reachable.opened)
  obtain own' where ok': "index_ok HS D own' {} ai'" using op by blast
  have "(\<exists>a. supply_of (ai_catalog ai') a = Some (dn_blake3 derived, record_of dumper path derived)) \<and>
      (\<forall>ws gate. (\<forall>n. wd_exists (ws n) path) \<longrightarrow>
        (\<exists>ai2. hold_budgeted HS ws 0 key gate ai' = Some (4, ai2, gate, Ok (HoldHave (dn_blake3 derived) [KnownIroh node])) \<and>
          ai_dumps ai2 = 0)) \<and>
      (\<forall>ws gate. (\<forall>n. \<not> wd_exists (ws n) path \<and> wd_save (ws n) = Saved) \<longrightarrow>
        (\<exists>ai2. hold_budgeted HS ws 0 key gate ai' = Some (4, ai2, gate, Ok HoldAbsent) \<and> ai_dumps ai2 = 0 \<and>
          binding ai2 key = None \<and> saved_binding (ai_store ai2) key = None))" if b: "binding ai key = Some (path, Some derived)" for key path derived
  proof -
    have b': "binding ai' key = Some (path, Some derived)" using b op by simp
    then obtain a where "record_at (ai_catalog ai') (dn_blake3 derived) a = Some (record_of dumper path derived)"
      using op unfolding warm_def by metis
    then have "supply_of (ai_catalog ai') a = Some (dn_blake3 derived, record_of dumper path derived)"
      using supply_of_iff [OF index_okD(1) [OF ok']] by simp
    moreover obtain a e where ae: "hm_get (ai_entries ai') key = Some a" "hm_get (ai_heap ai') a = Some e"
      "en_store_path e = path" "en_persisted_derived e = Some derived"
      using b' by (auto simp: binding_def bind_eq_Some_conv)
    moreover have "en_digest e = Some (Verified derived)" using index_okD(5) [OF ok' ae(2)] ae(4) by (simp add: entry_ok_def)
    ultimately show ?thesis
      using warm_hold [OF ok' ae(1,2)] gone_hold [OF ok' ae(1,2)] op by (intro conjI allI impI) metis+
  qed
  then show ?thesis using op again by blast
qed

theorem restart_is_warm_witness:
  "\<exists>ai'. open_index demo_node (MemoryNarDumper []) 7 derive_ledger_unlimited (snapshot demo_published) = Some ai' \<and>
    (\<exists>ai2. hold_budgeted demo_hashes (\<lambda>_. demo_world) 0 demo_key local_gate ai' =
      Some (4, ai2, local_gate, Ok (HoldHave (Blake3Digest [2, 1]) [KnownIroh demo_node])) \<and> ai_dumps ai2 = 0)"
proof -
  have snap: "snapshot demo_published = [\<lparr> ps_key = demo_key, ps_store_path = ''p'', ps_derived = Some demo_derived \<rparr>]"
    by (simp add: snapshot_def List.map_filter_simps demo_index_defs)
  obtain ai' where run: "open_index demo_node (MemoryNarDumper []) 7 derive_ledger_unlimited (snapshot demo_published) = Some ai'"
    unfolding snap by (simp add: open_index_def register_supply_def checked_add_def catalog_state_default_def Let_def)
  let ?ai1 = "demo_published\<lparr> ai_store := snapshot demo_published \<rparr>"
  have save: "persist_locked demo_world demo_published = (?ai1, Ok ())" by (simp add: persist_locked_def demo_world_def)
  have "binding demo_published demo_key = Some (''p'', Some demo_derived)" by (simp add: binding_def demo_index_defs)
  moreover have "wd_exists demo_world ''p''" by (simp add: demo_world_def)
  ultimately have "\<exists>ai2. hold_budgeted demo_hashes (\<lambda>_. demo_world) 0 demo_key local_gate ai' =
      Some (4, ai2, local_gate, Ok (HoldHave (dn_blake3 demo_derived) [KnownIroh demo_node])) \<and> ai_dumps ai2 = 0"
    using restart_is_warm [OF demo_reachable(2) save _ run] by simp
  then show ?thesis using run by (simp add: demo_derived_def)
qed


section \<open>The file of the index\<close>

lemma hm_insert_absent: "hm_get m k = None \<Longrightarrow> hm_insert m k v = m @ [(k, v)]"
  unfolding hm_insert_def hm_get_def by (induction m) (auto split: if_splits)

lemma sort_key_map: "sort_key f (map g xs) = map g (sort_key (f \<circ> g) xs)"
proof -
  have "insort_key f (g x) (map g ys) = map g (insort_key (f \<circ> g) x ys)" for x ys by (induction ys) auto
  then show ?thesis by (induction xs) auto
qed

definition stored_pair :: "persisted_registration \<Rightarrow> string \<times> stored_value" where
  "stored_pair reg = (display_nar_hash (ps_key reg), stored_of reg)"

lemma save_loop_pairs:
  assumes "\<forall>reg \<in> set regs. from_utf8 (ps_store_path reg) \<noteq> None" "distinct (map (fst \<circ> stored_pair) regs)"
    "\<forall>reg \<in> set regs. hm_get m (display_nar_hash (ps_key reg)) = None"
  shows "json_store_save_loop m regs = Ok (sort_key fst (m @ map stored_pair regs))"
  using assms
proof (induction regs arbitrary: m)
  case (Cons reg regs)
  have "hm_get (m @ [stored_pair reg]) (display_nar_hash (ps_key r)) = None" if "r \<in> set regs" for r
  proof -
    have "fst (stored_pair r) \<noteq> fst (stored_pair reg)" using imageI [OF that, of "fst \<circ> stored_pair"] Cons.prems(2) by auto
    then show ?thesis using that Cons.prems(3) by (auto simp: hm_get_None_iff stored_pair_def)
  qed
  then have "json_store_save_loop (m @ [stored_pair reg]) regs = Ok (sort_key fst ((m @ [stored_pair reg]) @ map stored_pair regs))"
    using Cons.prems by (intro Cons.IH) auto
  moreover have "hm_insert m (display_nar_hash (ps_key reg)) (stored_of reg) = m @ [stored_pair reg]"
    using Cons.prems(3) by (simp add: hm_insert_absent stored_pair_def)
  ultimately show ?case using Cons.prems(1) by (simp del: stored_of.simps)
qed simp

lemma load_loop_pairs:
  assumes "\<forall>reg \<in> set regs. wf_nar_hash (ps_key reg)"
  shows "json_store_load_loop (map stored_pair regs) = Ok regs"
  using assms
proof (induction regs)
  case (Cons reg regs)
  then show ?case by (simp add: stored_pair_def nar_hash_text.dec_enc split: option.split)
qed simp

text \<open>
  The file of the index keeps the registrations: what is written for registrations with well-formed distinct keys and
  UTF-8 paths is read back as the same registrations, with and without a verified digest, in the order of the key texts.
\<close>
theorem json_store_round_trip:
  assumes "\<forall>reg \<in> set regs. wf_nar_hash (ps_key reg) \<and> from_utf8 (ps_store_path reg) \<noteq> None" "distinct (map ps_key regs)"
  shows "\<exists>m regs'. json_store_save_loop [] regs = Ok m \<and> sorted (map fst m) \<and> distinct (map fst m) \<and>
    json_store_load_loop m = Ok regs' \<and> mset regs' = mset regs"
proof -
  have inj: "inj_on (display_nar_hash \<circ> ps_key) (set regs)"
    using assms nar_hash_text.enc_inj by (fastforce simp: inj_on_def distinct_map)
  have dist: "distinct (map (fst \<circ> stored_pair) regs)"
    using assms(2) inj by (simp add: distinct_map inj_on_def comp_def stored_pair_def)
  let ?regs = "sort_key (fst \<circ> stored_pair) regs"
  have save: "json_store_save_loop [] regs = Ok (map stored_pair ?regs)"
    using save_loop_pairs [of regs "[]"] assms(1) dist by (simp add: sort_key_map)
  have "json_store_load_loop (map stored_pair ?regs) = Ok ?regs" using assms(1) by (intro load_loop_pairs) simp
  moreover have "sorted (map fst (map stored_pair ?regs))" using sorted_sort_key [of "fst \<circ> stored_pair" regs] by simp
  moreover have "distinct (map fst (map stored_pair ?regs))" using dist by (simp add: distinct_map)
  ultimately show ?thesis using save by fastforce
qed

theorem json_store_round_trip_witness:
  "\<exists>m regs'. json_store_save_loop [] [\<lparr> ps_key = NarHashKey (replicate 32 0), ps_store_path = ''p'', ps_derived = None \<rparr>] = Ok m \<and>
    json_store_load_loop m = Ok regs' \<and> mset regs' = {# \<lparr> ps_key = NarHashKey (replicate 32 0), ps_store_path = ''p'', ps_derived = None \<rparr> #}"
proof -
  let ?regs = "[\<lparr> ps_key = NarHashKey (replicate 32 0), ps_store_path = ''p'', ps_derived = None \<rparr>]"
  have "wf_nar_hash (NarHashKey (replicate 32 0))" by (simp add: wf_nar_hash_def NAR_HASH_LEN_def)
  moreover have "from_utf8 ''p'' \<noteq> None" by (simp add: from_utf8_def utf8_ascii)
  ultimately show ?thesis using json_store_round_trip [of ?regs] by (simp del: json_store_save_loop.simps) blast
qed

end
