(* ===== verification/Spec2Isabelle.thy ===== *)
theory Spec2Isabelle
  imports Directory Derive_Ledger Upload_Ledger Nar_V4_Properties Nar_V4_Accounting Rewrite Resolve Public_Allowlist Narinfo_Cache Availability_Queries
begin

text \<open>
  Verification of the peer fabric and the daemon core of nix-p2p, a peer-to-peer source for the binary caches of Nix.

  \<^bold>\<open>The program.\<close> A node fetches store paths as NARs. \<^verbatim>\<open>peer-fabric\<close> holds what every backend shares:
  identities, signed provider records and the set that keeps the newest of them, lookup outcomes, exposure, budgets, the
  wire codec and the resolver that runs a plan of mechanisms. \<^verbatim>\<open>fabric-libp2p\<close> is the backend over a DHT: it
  aggregates providers, keeps durable anti-rollback floors, resolves through a directory and transfers a NAR as verified
  leaves (the nar/4 framing). \<^verbatim>\<open>daemon-core\<close> is the daemon in front: it caches and rewrites narinfos, correlates
  NARs, decides what may be announced, answers hold queries from an index of verified holdings, supplies what it holds, and
  bounds the work that peers cause. The interactions that are modelled: records decoded by the codec enter the record set,
  which the floor store wraps and the directory admits into; the resolver consults mechanisms such as the directory; a hold
  query read by the claim codec is answered by the availability index, which asks the derivation ledger before a dump and
  publishes into the supply catalog, and whose batch answers pass the binding check of the claim codec.

  \<^bold>\<open>Conventions.\<close> A Rust struct is a record, an enum a datatype with the same constructors, an integer a word of its width,
  \<^verbatim>\<open>usize\<close> and durations natural numbers, a string a list of bytes as characters, \<^verbatim>\<open>Result\<close> a sum with
  \<open>Err\<close> and \<open>Ok\<close>, the operator \<^verbatim>\<open>?\<close> the function \<open>and_then\<close>. A hash map is an association list
  whose order no lemma uses. A panic is the value None where the code can reach one. A method on \<^verbatim>\<open>self\<close> takes the
  state and returns the new one; what a method does under a mutex is one atomic step. What the code gets from outside is an argument:
  BLAKE3, SHA-256, ed25519, base-64, zstd, the geometry of the Bao tree, the readers that serde derives, clock readings,
  replies of the network, and every answer of the operating system, failures included.

  \<^bold>\<open>Theories, in the order of use.\<close>
  \<^item> \<open>Prelude\<close>: words, bytes, results, decimal texts; the locale \<open>text_codec\<close> of a text form and its strict parser.
    \<open>Hash_Map\<close>, \<open>Text_Lines\<close>, \<open>Rust_Str\<close>: what the sources use of the standard library.
  \<^item> \<open>Hexfmt\<close>, \<open>Ids\<close>: \<^verbatim>\<open>hexfmt.rs\<close>, \<^verbatim>\<open>ids.rs\<close>, \<^verbatim>\<open>content.rs\<close>. Interpretations of \<open>text_codec\<close>:
    every text form has exactly one spelling.
  \<^item> \<open>Reader\<close>, \<open>Record_Codec\<close>: \<^verbatim>\<open>record_codec.rs\<close>. The locale \<open>field_codec\<close> of prefix-free fields. The decoder
    accepts exactly the canonical encodings of verified records, and the signed bytes determine every field.
  \<^item> \<open>Max_Register\<close>, \<open>Record_Store\<close>: \<^verbatim>\<open>record_store.rs\<close>. A slot holds the newest assertion of its provider
    under any sequence of events, nothing withdrawn comes back, a restart keeps every decision.
  \<^item> \<open>Outcome\<close>, \<open>Exposure\<close>, \<open>Fan_Out\<close>: \<^verbatim>\<open>outcome.rs\<close>, \<^verbatim>\<open>exposure.rs\<close> and the aggregation of
    \<^verbatim>\<open>swarm.rs\<close>. The result of an aggregation does not depend on the order of arrival.
  \<^item> \<open>Persist\<close>, \<open>Floor_Store\<close>, \<open>Directory\<close>: \<^verbatim>\<open>persist.rs\<close>, \<^verbatim>\<open>floor_store.rs\<close>, \<^verbatim>\<open>directory.rs\<close>.
    The durable floors and their text, the cap with its eviction (locale \<open>evictable\<close>), the resolve: what it finds was
    admitted, what it misses was consulted, and the trace of a lookup shows that every query was preceded by the record
    of what it discloses.
  \<^item> \<open>Budget\<close>, \<open>Tumbling\<close>, \<open>Derive_Ledger\<close>, \<open>Upload_Ledger\<close>: \<^verbatim>\<open>budget.rs\<close>, \<^verbatim>\<open>window.rs\<close> and the two
    ledgers. The calls of the derivation ledger read the clock before they wait for the mutex; \<open>derive_reachable\<close> are
    their interleavings. The locale \<open>tumbling_counter\<close> bounds the caps that any interval of one window can carry, given a
    bound on that wait; four interpretations give it for bytes and dumps, per node and per peer.
  \<^item> \<open>Wire_Codec\<close>, \<open>Nar_V4\<close>, \<open>Nar_V4_Auth\<close>, \<open>Nar_V4_Properties\<close>, \<open>Nar_V4_Accounting\<close>: \<^verbatim>\<open>codec.rs\<close> and
    \<^verbatim>\<open>nar_v4.rs\<close>. Decompression ends and is bounded, an accepted body is the one its root names, a failed transfer
    hands on a prefix, an honest transfer succeeds.
  \<^item> \<open>Rewrite\<close>: \<^verbatim>\<open>rewrite.rs\<close>. The lines under the signature of a narinfo are kept.
  \<^item> \<open>Resolve\<close>: \<^verbatim>\<open>resolve.rs\<close> and the default methods of \<^verbatim>\<open>capabilities.rs\<close>. A miss is unanimous, and
    results stay with the keys that were asked for.
  \<^item> \<open>Nixbase32\<close>, \<open>Catalog\<close>, \<open>Public_Allowlist\<close>: \<^verbatim>\<open>nixbase32.rs\<close>, \<^verbatim>\<open>catalog.rs\<close>, \<^verbatim>\<open>cacheinfo.rs\<close>,
    the value types of \<^verbatim>\<open>source.rs\<close>, \<^verbatim>\<open>public_allowlist.rs\<close>. What is approved was proven public, and the
    authenticated file survives every failure of an append below its bound.
  \<^item> \<open>Narinfo_Cache\<close>: \<^verbatim>\<open>narinfo_cache.rs\<close>. The cache serves bytes that the upstream sent, serves what it holds, and
    keeps its files within the cap.
  \<^item> \<open>Claim_Wire\<close>: \<^verbatim>\<open>claim.rs\<close>. A document with a repeated key is refused, the two readers of offers agree, and
    a decoded batch binds every offer to the answers that named it.
  \<^item> \<open>Supply_Catalog\<close>: \<^verbatim>\<open>supply_catalog.rs\<close>, sequentially as a map of owners, and as threads that interleave
    between the read of a flag and the lock.
  \<^item> \<open>Availability\<close>, \<open>Availability_Safety\<close>, \<open>Availability_Queries\<close>: \<^verbatim>\<open>availability.rs\<close>. An entry is an
    address in a heap, because the code compares pointers; a query is a machine with one step for each lock; the relation
    \<open>index_reachable\<close> interleaves any number of queries with registrations and removals. Under every interleaving an answer
    rests on a verified dump and supply never outlives holding; without interference queries and batches return within
    their allowance, a failed registration is undone in memory, and a restart keeps what was verified.

  \<^bold>\<open>Loops.\<close> A loop over data is a recursion on the data. The other loops are partial functions with the value None for a
  run that does not end. Lemmas show that the decompressor (\<open>push_loop\<close>, for a library that stays within its buffers),
  the eviction of the cache (\<open>evict_over_cap\<close>) and the query of the index (\<open>hold_loop\<close>, by the measure \<open>rank\<close>) return.
  The two loops of the compressor, \<open>compress_block\<close> and \<open>encoder_finish\<close>, end when the zstd library lets them: what is
  shown of a compressing server is about the transfers that complete, and the round trip is for uncompressed leaves. No
  definition takes fuel. The counts 4 and 16 in the statements about the index are the steps of a query whose entry is
  verified and \<^verbatim>\<open>MAX_BATCH_DERIVE_WORK\<close>.

  \<^bold>\<open>Not modelled.\<close> The second backend \<^verbatim>\<open>fabric-iroh\<close>; the sessions of \<^verbatim>\<open>nar.rs\<close> around the framing, the swarm
  event loop, the announcer and the locators of \<^verbatim>\<open>fabric-libp2p\<close>; discovery, the HTTP server and client, the
  operator contract and the profile budgets of \<^verbatim>\<open>daemon-core\<close>; the binaries; \<^verbatim>\<open>proc-supervisor\<close>; the
  rendezvous crate; the test proxy, the fuzz targets and the vendored libraries. Most of this drives asynchronous libraries,
  sockets and processes and has its meaning in them. In the modelled files, running \<^verbatim>\<open>nix-store\<close>, the durable
  replacement of a file and the text of a JSON document are answers given to the model, and log output is left out except
  where the code returns it. Three answers are narrower than the world. A mechanism of the resolver is a function of the
  keys and the budget it is asked with, so it keeps no state from one consultation to the next. An entry file of the
  narinfo cache can be missing or unreadable, but its bytes are those that were written; for other bytes there is only
  the parser, which decides what is corrupt. Opening the index starts from the registrations that were loaded; when the
  load fails, \<^verbatim>\<open>open\<close> returns that error and there is no index.
\<close>

end
